(* ===== verification/Prelude.thy ===== *)
theory Prelude
  imports Main "HOL-Library.Word" "HOL-Library.Monad_Syntax"
begin

text \<open>
  Shared vocabulary of the development: the C integer types, the kernel's error numbers, the
  suffix operation \<open>take_last\<close> that describes a bounded history, and generic facts on lists, on the
  option monad and on machine words that the components use.

  Throughout the development a C function that has side effects is a HOL function into an option
  type: \<open>None\<close> stands for undefined behaviour (an access outside an object, through a null or a
  freed pointer, of uninitialised memory, a double free, a misused lock) and for a loop that does
  not return; \<open>Some\<close> carries the return value and the new state. An error return of the source is
  an ordinary value.
\<close>

named_theorems c_defs \<open>definitions of the C primitives, unfolded to compute\<close>
named_theorems ring_simps \<open>rewrite rules of the circular buffer\<close>
named_theorems mem_simps \<open>rewrite rules of the memory operations\<close>

subsection \<open>C types and constants\<close>

type_synonym byte = "8 word"
type_synonym uint8_t = "8 word"
type_synonym uint32_t = "32 word"
type_synonym size_t = "64 word"
type_synonym loff_t = "64 word"

abbreviation NEWLINE :: byte where "NEWLINE \<equiv> 10"

abbreviation EFAULT :: int where "EFAULT \<equiv> 14"
abbreviation ENOMEM :: int where "ENOMEM \<equiv> 12"
abbreviation EINVAL :: int where "EINVAL \<equiv> 22"
abbreviation ENOTTY :: int where "ENOTTY \<equiv> 25"
abbreviation ERESTARTSYS :: int where "ERESTARTSYS \<equiv> 512"

text \<open>The largest request an allocator of the kernel ever serves, and the largest transfer the
  virtual file system passes to a driver, are both below \<open>2 ^ 31\<close>.\<close>

abbreviation INT_MAX :: nat where "INT_MAX \<equiv> 2147483647"
abbreviation MAX_RW_COUNT :: nat where "MAX_RW_COUNT \<equiv> 2147479552"

subsection \<open>The last elements of a list\<close>

definition take_last :: "nat \<Rightarrow> 'a list \<Rightarrow> 'a list" where
  "take_last n xs = drop (length xs - n) xs"

lemma take_last_short [simp]: "length xs \<le> n \<Longrightarrow> take_last n xs = xs"
  by (simp add: take_last_def)

lemma length_take_last [simp]: "length (take_last n xs) = min n (length xs)"
  by (simp add: take_last_def)

lemma take_last_snoc_full:
  "length xs = n \<Longrightarrow> 0 < n \<Longrightarrow> take_last n (xs @ [x]) = tl xs @ [x]"
  by (cases xs) (simp_all add: take_last_def)

lemma take_last_append_take_last:
  "take_last n (take_last n xs @ ys) = take_last n (xs @ ys)"
proof (cases "length xs \<le> n")
  case True
  then show ?thesis by simp
next
  case False
  then show ?thesis
    by (cases "length ys \<le> n") (simp_all add: take_last_def add.commute)
qed

lemma set_take_last_subset: "set (take_last n xs) \<subseteq> set xs"
  by (simp add: take_last_def set_drop_subset)

lemma map_take_last: "map f (take_last n xs) = take_last n (map f xs)"
  by (simp add: take_last_def drop_map)

subsection \<open>Sums of sizes\<close>

lemma sum_list_drop_Cons:
  "i < length xs \<Longrightarrow> sum_list (drop i xs) = xs ! i + sum_list (drop (Suc i) xs)"
  for xs :: "nat list"
  by (simp add: Cons_nth_drop_Suc [symmetric])

lemma sum_list_bound:
  assumes "\<And>x. x \<in> set xs \<Longrightarrow> x \<le> (b::nat)"
  shows "sum_list xs \<le> length xs * b"
  using assms by (induction xs) (auto intro: add_mono)

subsection \<open>Machine words\<close>

lemma unat_u32: "unat (x :: uint32_t) < 2 ^ 32"
proof -
  have "unat x < 2 ^ LENGTH(32)" by (rule unsigned_less)
  then show ?thesis by simp
qed

lemma unat_u64: "unat (x :: size_t) < 2 ^ 64"
proof -
  have "unat x < 2 ^ LENGTH(64)" by (rule unsigned_less)
  then show ?thesis by simp
qed

lemma unat_plus_size_t:
  "unat (a :: size_t) + unat b < 2 ^ 64 \<Longrightarrow> unat (a + b) = unat a + unat b"
  by (simp add: unat_word_ariths)

lemma unat_minus_size_t: "b \<le> a \<Longrightarrow> unat (a - b :: size_t) = unat a - unat b"
  by (rule unat_sub)

lemma unat_of_nat_size_t: "n < 2 ^ 64 \<Longrightarrow> unat (of_nat n :: size_t) = n"
  by (simp add: unat_of_nat)

lemma sint_size_t_small: "unat (a :: size_t) < 2 ^ 63 \<Longrightarrow> sint a = int (unat a)"
proof -
  assume a: "unat a < 2 ^ 63"
  have u: "uint a = int (unat a)" by simp
  have "sint a = signed_take_bit 63 (uint a)"
    by (simp add: sint_uint)
  also have "\<dots> = uint a"
  proof (rule signed_take_bit_int_eq_self)
    show "- (2 ^ 63) \<le> uint a" unfolding u by (rule order_trans [of _ 0]) simp_all
    have "int (unat a) < int (2 ^ 63)" using a by (simp only: of_nat_less_iff)
    then show "uint a < 2 ^ 63" unfolding u by simp
  qed
  finally show ?thesis by simp
qed

subsection \<open>The option monad\<close>

lemma bind_SomeI: "m = Some x \<Longrightarrow> f x = r \<Longrightarrow> m \<bind> f = r"
  by simp

end
