(* ===== verification/C_Memory.thy ===== *)
theory C_Memory
  imports Prelude
begin

text \<open>
  Byte memory as the driver and the server see it: a heap of blocks obtained from an allocator.
  A block is a list of cells, \<open>None\<close> for a byte that was never written. Every access is checked:
  the block must be allocated, the range must lie inside it, and a byte that is inspected must be
  initialised; otherwise the operation is undefined (\<open>None\<close>).

  The allocator itself (\<open>kmalloc\<close>, \<open>malloc\<close>) is not part of the repository. It is a parameter: a
  function of the number of external calls made so far, of the current heap and of the requested
  size, so that it may fail or succeed differently at every call. What the code relies on is
  \<open>allocator_ok\<close>: a block that it returns was free before, and no request above the allocator's
  limit is ever served.
\<close>

datatype ptr = NULL | Ptr nat

type_synonym cells = "byte option list"
type_synonym heap = "nat \<rightharpoonup> cells"
type_synonym allocator = "nat \<Rightarrow> heap \<Rightarrow> nat \<Rightarrow> nat option"

record cmem =
  heap :: heap
  calls :: nat

definition allocator_ok :: "nat \<Rightarrow> allocator \<Rightarrow> bool" where
  "allocator_ok lim al \<longleftrightarrow>
     (\<forall>c h n a. al c h n = Some a \<longrightarrow> h a = None \<and> n \<le> lim)"

text \<open>An allocator that never fails below a size, and, as an example of one, the first free address.\<close>

definition allocator_serves :: "nat \<Rightarrow> allocator \<Rightarrow> bool" where
  "allocator_serves k al \<longleftrightarrow> (\<forall>c h n. finite (dom h) \<and> n \<le> k \<longrightarrow> al c h n \<noteq> None)"

definition first_free :: "(nat \<rightharpoonup> 'a) \<Rightarrow> nat option" where
  "first_free h = (if finite (dom h) then Some (LEAST a. h a = None) else None)"

lemma first_free_ok: "first_free h = Some a \<Longrightarrow> h a = None" "finite (dom h) \<Longrightarrow> first_free h \<noteq> None"
proof -
  have "\<exists>a. h a = None" if "finite (dom h)"
    using that infinite_UNIV_nat by (metis UNIV_I domIff finite_subset subsetI)
  then show "first_free h = Some a \<Longrightarrow> h a = None"
    by (auto simp: first_free_def intro: LeastI_ex split: if_splits)
qed (simp add: first_free_def)

subsection \<open>Allocation and release\<close>

text \<open>A fresh block has the requested length and no initialised byte.\<close>

definition c_alloc :: "allocator \<Rightarrow> size_t \<Rightarrow> 'a cmem_scheme \<Rightarrow> ptr \<times> 'a cmem_scheme" where
  "c_alloc al n s =
     (case al (calls s) (heap s) (unat n) of
        None \<Rightarrow> (NULL, s\<lparr>calls := Suc (calls s)\<rparr>)
      | Some a \<Rightarrow> (Ptr a, s\<lparr>heap := (heap s)(a \<mapsto> replicate (unat n) None),
                           calls := Suc (calls s)\<rparr>))"

text \<open>Releasing the null pointer does nothing; releasing anything but an allocated block is
  undefined.\<close>

definition c_free :: "ptr \<Rightarrow> 'a cmem_scheme \<Rightarrow> 'a cmem_scheme option" where
  "c_free p s =
     (case p of
        NULL \<Rightarrow> Some s
      | Ptr a \<Rightarrow> (case heap s a of
                    None \<Rightarrow> None
                  | Some _ \<Rightarrow> Some (s\<lparr>heap := (heap s)(a := None)\<rparr>)))"

subsection \<open>Checked access\<close>

definition load_cells :: "heap \<Rightarrow> ptr \<Rightarrow> nat \<Rightarrow> nat \<Rightarrow> cells option" where
  "load_cells h p off n =
     (case p of
        NULL \<Rightarrow> None
      | Ptr a \<Rightarrow> (case h a of
                    None \<Rightarrow> None
                  | Some b \<Rightarrow> if off + n \<le> length b then Some (take n (drop off b)) else None))"

definition store_cells :: "heap \<Rightarrow> ptr \<Rightarrow> nat \<Rightarrow> cells \<Rightarrow> heap option" where
  "store_cells h p off cs =
     (case p of
        NULL \<Rightarrow> None
      | Ptr a \<Rightarrow> (case h a of
                    None \<Rightarrow> None
                  | Some b \<Rightarrow> if off + length cs \<le> length b
                              then Some (h(a \<mapsto> take off b @ cs @ drop (off + length cs) b))
                              else None))"

text \<open>\<open>those\<close> fails on an uninitialised cell: the bytes of a range can be read only if all of
  them have been written.\<close>

definition load_bytes :: "heap \<Rightarrow> ptr \<Rightarrow> nat \<Rightarrow> nat \<Rightarrow> byte list option" where
  "load_bytes h p off n = Option.bind (load_cells h p off n) those"

definition load_byte :: "heap \<Rightarrow> ptr \<Rightarrow> nat \<Rightarrow> byte option" where
  "load_byte h p off = map_option hd (load_bytes h p off 1)"

definition c_memcpy :: "ptr \<Rightarrow> nat \<Rightarrow> ptr \<Rightarrow> nat \<Rightarrow> nat \<Rightarrow> 'a cmem_scheme \<Rightarrow> 'a cmem_scheme option" where
  "c_memcpy dst doff src soff n s =
     do { cs \<leftarrow> load_cells (heap s) src soff n;
          h \<leftarrow> store_cells (heap s) dst doff cs;
          Some (s\<lparr>heap := h\<rparr>) }"

declare c_alloc_def [c_defs] c_free_def [c_defs] load_cells_def [c_defs] store_cells_def [c_defs]
  load_bytes_def [c_defs] load_byte_def [c_defs] c_memcpy_def [c_defs]

subsection \<open>Rules\<close>

lemma those_map_Some [simp]: "those (map Some xs) = Some xs"
  by (induction xs) simp_all

text \<open>The initialised block \<open>map Some bs\<close> is the normal form that the invariants speak about.\<close>

lemma load_cells_Ptr:
  "h a = Some b \<Longrightarrow> off + n \<le> length b \<Longrightarrow> load_cells h (Ptr a) off n = Some (take n (drop off b))"
  by (simp add: load_cells_def)

lemma load_bytes_Ptr:
  "h a = Some (map Some bs) \<Longrightarrow> off + n \<le> length bs \<Longrightarrow>
   load_bytes h (Ptr a) off n = Some (take n (drop off bs))"
  by (simp add: load_bytes_def load_cells_def take_map drop_map)

lemma load_byte_Ptr:
  "h a = Some (map Some bs) \<Longrightarrow> off < length bs \<Longrightarrow> load_byte h (Ptr a) off = Some (bs ! off)"
  by (simp add: load_byte_def load_bytes_Ptr hd_drop_conv_nth take_Suc)

lemma store_cells_Ptr:
  "h a = Some b \<Longrightarrow> off + length cs \<le> length b \<Longrightarrow>
   store_cells h (Ptr a) off cs = Some (h(a \<mapsto> take off b @ cs @ drop (off + length cs) b))"
  by (simp add: store_cells_def)

lemma c_free_NULL [simp]: "c_free NULL s = Some s"
  by (simp add: c_free_def)

lemma c_free_Ptr: "heap s a = Some b \<Longrightarrow> c_free (Ptr a) s = Some (s\<lparr>heap := (heap s)(a := None)\<rparr>)"
  by (simp add: c_free_def)

lemma c_free_dangling: "heap s a = None \<Longrightarrow> c_free (Ptr a) s = None"
  by (simp add: c_free_def)

lemma c_memcpy_Ptr:
  assumes "heap s a = Some bd" and "heap s b = Some bs"
    and "doff + n \<le> length bd" and "soff + n \<le> length bs"
  shows "c_memcpy (Ptr a) doff (Ptr b) soff n s =
    Some (s\<lparr>heap := (heap s)(a \<mapsto> take doff bd @ take n (drop soff bs) @ drop (doff + n) bd)\<rparr>)"
proof -
  have "length (take n (drop soff bs)) = n"
    using assms(4) by simp
  then show ?thesis
    using assms by (simp add: c_memcpy_def load_cells_Ptr store_cells_Ptr)
qed

lemma allocator_okD:
  assumes "allocator_ok lim al" and "al c h n = Some a"
  shows "h a = None" and "n \<le> lim"
  using assms by (auto simp: allocator_ok_def)

text \<open>The two outcomes of an allocation.\<close>

lemma c_alloc_cases:
  assumes "allocator_ok lim al"
  obtains (fail) "c_alloc al n s = (NULL, s\<lparr>calls := Suc (calls s)\<rparr>)"
  | (ok) a where "c_alloc al n s = (Ptr a, s\<lparr>heap := (heap s)(a \<mapsto> replicate (unat n) None),
                                            calls := Suc (calls s)\<rparr>)"
      and "heap s a = None" and "unat n \<le> lim"
proof (cases "al (calls s) (heap s) (unat n)")
  case None
  then show thesis by (intro fail) (simp add: c_alloc_def)
next
  case (Some a)
  then show thesis
    using allocator_okD [OF assms Some] by (intro ok [of a]) (simp_all add: c_alloc_def)
qed

lemmas mem_rules [mem_simps] = load_cells_Ptr load_bytes_Ptr load_byte_Ptr store_cells_Ptr
  c_free_Ptr c_free_dangling c_memcpy_Ptr

end
