(* ===== verification/Circular_Buffer.thy ===== *)
theory Circular_Buffer
  imports C_Memory
begin

text \<open>
  The circular buffer of \<open>aesd-char-driver/aesd-circular-buffer.c\<close> and \<open>.h\<close>: the struct and its
  three functions, the invariant that they keep, the interface \<open>bounded_history\<close> through which
  the driver uses the buffer, and the correctness of the position search.
\<close>

subsection \<open>The data\<close>

abbreviation (input) MAX_OPS :: nat where "MAX_OPS \<equiv> 10"  \<comment> \<open>\<open>AESDCHAR_MAX_WRITE_OPERATIONS_SUPPORTED\<close>\<close>

record aesd_buffer_entry =
  buffptr :: ptr
  bsize :: size_t     \<comment> \<open>the field \<open>size\<close>\<close>

record aesd_circular_buffer =
  entry :: "aesd_buffer_entry list"
  in_offs :: uint8_t
  out_offs :: uint8_t
  full :: bool

definition zero_entry :: aesd_buffer_entry where
  "zero_entry = \<lparr>buffptr = NULL, bsize = 0\<rparr>"

lemma zero_entry_sel [simp]: "buffptr zero_entry = NULL" "bsize zero_entry = 0"
  by (simp_all add: zero_entry_def)

lemma zero_entry_upd [simp]: "zero_entry\<lparr>buffptr := NULL\<rparr> = zero_entry"
  by (simp add: zero_entry_def)

text \<open>An access outside the array is undefined.\<close>

definition entry_at :: "aesd_circular_buffer \<Rightarrow> nat \<Rightarrow> aesd_buffer_entry option" where
  "entry_at b i = (if i < length (entry b) then Some (entry b ! i) else None)"

definition set_entry_at ::
  "nat \<Rightarrow> aesd_buffer_entry \<Rightarrow> aesd_circular_buffer \<Rightarrow> aesd_circular_buffer option" where
  "set_entry_at i e b = (if i < length (entry b) then Some (b\<lparr>entry := (entry b)[i := e]\<rparr>) else None)"

subsection \<open>The operations\<close>

text \<open>\<open>memset(buffer, 0, sizeof ...)\<close>.\<close>

definition aesd_circular_buffer_init :: aesd_circular_buffer where
  "aesd_circular_buffer_init =
     \<lparr>entry = replicate MAX_OPS zero_entry, in_offs = 0, out_offs = 0, full = False\<rparr>"

text \<open>
  The search loop. The index \<open>i\<close> runs from 0 to 9, so \<open>i + in_offs\<close> is exact; the sum of the sizes
  and the comparison are those of \<open>size_t\<close>. The result is the index of the entry whose address the
  C function returns, together with the value stored through \<open>entry_offset_byte_rtn\<close>.
\<close>

function find_from ::
  "aesd_circular_buffer \<Rightarrow> size_t \<Rightarrow> nat \<Rightarrow> size_t \<Rightarrow> (nat \<times> size_t) option option" where
  "find_from b char_offset i accumulation =
     (if i < MAX_OPS then
        let current_element = (i + unat (in_offs b)) mod MAX_OPS in
        if in_offs b < out_offs b \<and> unat (in_offs b) > current_element then Some None
        else
          case entry_at b current_element of
            None \<Rightarrow> None
          | Some e \<Rightarrow>
              if accumulation + bsize e > char_offset
              then Some (Some (current_element, char_offset - accumulation))
              else find_from b char_offset (Suc i) (accumulation + bsize e)
      else Some None)"
  by pat_completeness auto
termination
  by (relation "measure (\<lambda>(b, off, i, acc). MAX_OPS - i)") auto

declare find_from.simps [simp del]

definition aesd_circular_buffer_find_entry_offset_for_fpos ::
  "aesd_circular_buffer \<Rightarrow> size_t \<Rightarrow> (nat \<times> size_t) option option" where
  "aesd_circular_buffer_find_entry_offset_for_fpos b char_offset = find_from b char_offset 0 0"

text \<open>
  Adding an entry. \<open>evicted\<close> is the function's static variable; the boolean result says whether
  the returned pointer is its address (true) or null. The offsets are bytes, but \<open>offs + 1\<close> is
  computed as an \<open>int\<close>, so it does not wrap before the remainder is taken.
\<close>

definition next_offs :: "uint8_t \<Rightarrow> uint8_t" where
  "next_offs o8 = of_nat ((unat o8 + 1) mod MAX_OPS)"

definition aesd_circular_buffer_add_entry ::
  "aesd_buffer_entry \<Rightarrow> aesd_circular_buffer \<Rightarrow> aesd_buffer_entry \<Rightarrow>
   (aesd_buffer_entry \<times> aesd_circular_buffer \<times> bool) option" where
  "aesd_circular_buffer_add_entry evicted b add_entry =
     do { (evicted, b, overwritten) \<leftarrow>
            (if full b then
               do { old \<leftarrow> entry_at b (unat (in_offs b));
                    Some (old, b\<lparr>out_offs := next_offs (out_offs b)\<rparr>, True) }
             else Some (evicted, b, False));
          b \<leftarrow> set_entry_at (unat (in_offs b)) add_entry b;
          let b = b\<lparr>in_offs := next_offs (in_offs b)\<rparr>;
          let b = (if in_offs b = out_offs b then b\<lparr>full := True\<rparr> else b);
          Some (evicted, b, overwritten) }"

text \<open>The macro \<open>AESD_CIRCULAR_BUFFER_FOREACH\<close>: the body runs on the entries of the array in index
  order; the index is a byte and stops at 10.\<close>

function foreach_from ::
  "(aesd_buffer_entry \<Rightarrow> 's \<Rightarrow> 's) \<Rightarrow> aesd_circular_buffer \<Rightarrow> nat \<Rightarrow> 's \<Rightarrow> 's option" where
  "foreach_from body b index s =
     (if index < MAX_OPS
      then case entry_at b index of
             None \<Rightarrow> None
           | Some e \<Rightarrow> foreach_from body b (Suc index) (body e s)
      else Some s)"
  by pat_completeness auto
termination
  by (relation "measure (\<lambda>(body, b, i, s). MAX_OPS - i)") auto

declare foreach_from.simps [simp del]

definition AESD_CIRCULAR_BUFFER_FOREACH ::
  "(aesd_buffer_entry \<Rightarrow> 's \<Rightarrow> 's) \<Rightarrow> aesd_circular_buffer \<Rightarrow> 's \<Rightarrow> 's option" where
  "AESD_CIRCULAR_BUFFER_FOREACH body b s = foreach_from body b 0 s"

subsection \<open>Invariant and abstraction\<close>

text \<open>
  The driver never removes a single entry, so the output offset moves only when the buffer is full:
  while it is not full it stays 0, and the slots from the input offset on have never been written.
\<close>

definition ring_shape :: "aesd_circular_buffer \<Rightarrow> bool" where
  "ring_shape b \<longleftrightarrow> length (entry b) = MAX_OPS \<and> unat (in_offs b) < MAX_OPS"

definition ring_unused :: "aesd_circular_buffer \<Rightarrow> bool" where
  "ring_unused b \<longleftrightarrow> set (drop (unat (in_offs b)) (entry b)) \<subseteq> {zero_entry}"

definition ring_inv :: "aesd_circular_buffer \<Rightarrow> bool" where
  "ring_inv b \<longleftrightarrow> ring_shape b \<and>
     (if full b then out_offs b = in_offs b else out_offs b = 0 \<and> ring_unused b)"

text \<open>The entries in the order of their age, the oldest first.\<close>

definition ring_items :: "aesd_circular_buffer \<Rightarrow> aesd_buffer_entry list" where
  "ring_items b =
     (if full b then rotate (unat (out_offs b)) (entry b)
      else take (unat (in_offs b)) (entry b))"


subsection \<open>The interface: a bounded history\<close>

text \<open>
  What a client may rely on: adding never fails, the newest \<open>cap\<close> entries are kept in order, and
  exactly when the history was full the oldest entry is handed back.
\<close>

locale bounded_history =
  fixes inv :: "'b \<Rightarrow> bool"
    and items :: "'b \<Rightarrow> 'e list"
    and empty :: 'b
    and push :: "'e \<Rightarrow> 'b \<Rightarrow> 'e \<Rightarrow> ('e \<times> 'b \<times> bool) option"
    and cap :: nat
  assumes cap_pos: "0 < cap"
    and inv_empty: "inv empty"
    and items_empty: "items empty = []"
    and items_bounded: "inv b \<Longrightarrow> length (items b) \<le> cap"
    and push_room: "inv b \<Longrightarrow> length (items b) < cap \<Longrightarrow>
          \<exists>b'. push v b e = Some (v, b', False) \<and> inv b' \<and> items b' = items b @ [e]"
    and push_full: "inv b \<Longrightarrow> length (items b) = cap \<Longrightarrow>
          \<exists>b'. push v b e = Some (hd (items b), b', True) \<and> inv b' \<and> items b' = tl (items b) @ [e]"

text \<open>A run of additions, collecting what is handed back.\<close>

fun push_all :: "('e \<Rightarrow> 'b \<Rightarrow> 'e \<Rightarrow> ('e \<times> 'b \<times> bool) option) \<Rightarrow> 'e \<Rightarrow> 'b \<Rightarrow> 'e list \<Rightarrow>
    ('e list \<times> 'b) option" where
  "push_all push v b [] = Some ([], b)"
| "push_all push v b (e # es) =
     do { (v, b, ow) \<leftarrow> push v b e;
          (vs, b) \<leftarrow> push_all push v b es;
          Some (if ow then v # vs else vs, b) }"

context bounded_history
begin

text \<open>One addition, both cases at once: nothing is lost and the order is kept.\<close>

lemma push_step:
  assumes "inv b"
  obtains v' b' ow where "push v b e = Some (v', b', ow)" and "inv b'"
    and "items b' = take_last cap (items b @ [e])"
    and "(if ow then [v'] else []) @ items b' = items b @ [e]"
    and "ow \<longleftrightarrow> length (items b) = cap"
proof (cases "length (items b) = cap")
  case True
  then obtain b' where b': "push v b e = Some (hd (items b), b', True)" "inv b'"
      "items b' = tl (items b) @ [e]"
    using push_full [OF assms] by blast
  have "items b \<noteq> []" using True cap_pos by auto
  then show thesis
    using b' True cap_pos by (intro that [of "hd (items b)" b' True])
      (simp_all add: take_last_snoc_full)
next
  case False
  then have "length (items b) < cap" using items_bounded [OF assms] by simp
  then obtain b' where "push v b e = Some (v, b', False)" "inv b'" "items b' = items b @ [e]"
    using push_room [OF assms] by blast
  then show thesis
    using \<open>length (items b) < cap\<close> by (intro that [of v b' False]) simp_all
qed

lemma push_all_ok:
  assumes "inv b"
  shows "\<exists>vs b'. push_all push v b es = Some (vs, b') \<and> inv b' \<and>
           items b' = take_last cap (items b @ es) \<and> vs @ items b' = items b @ es"
  using assms
proof (induction es arbitrary: v b)
  case Nil
  then show ?case using items_bounded by simp
next
  case (Cons e es)
  obtain v1 b1 ow where p: "push v b e = Some (v1, b1, ow)" "inv b1"
      "items b1 = take_last cap (items b @ [e])"
      "(if ow then [v1] else []) @ items b1 = items b @ [e]"
    using push_step [OF Cons.prems] by metis
  obtain vs b2 where q: "push_all push v1 b1 es = Some (vs, b2)" "inv b2"
      "items b2 = take_last cap (items b1 @ es)" "vs @ items b2 = items b1 @ es"
    using Cons.IH [OF p(2)] by blast
  have "items b2 = take_last cap (items b @ e # es)"
    using q(3) p(3) take_last_append_take_last [of cap "items b @ [e]" es] by simp
  moreover have "(if ow then v1 # vs else vs) @ items b2 = items b @ e # es"
    using p(4) q(4) by (auto split: if_splits)
  ultimately show ?case using p(1) q(1,2) by simp
qed

lemma push_all_from_empty:
  "\<exists>vs b'. push_all push v empty es = Some (vs, b') \<and> inv b' \<and>
     items b' = take_last cap es \<and> vs @ items b' = es"
  using push_all_ok [OF inv_empty] by (simp add: items_empty)

end

subsection \<open>The buffer provides the interface\<close>

lemma unat_next_offs [ring_simps]: "unat (next_offs x) = (unat x + 1) mod MAX_OPS"
proof -
  have "(unat x + 1) mod 10 < 256" by (rule less_trans [of _ 10]) simp_all
  then show ?thesis by (simp add: next_offs_def unat_of_nat)
qed

lemma rotate_step:
  assumes "length xs = n" and "i < n"
  shows "rotate (Suc i mod n) (xs[i := e]) = tl (rotate i xs) @ [e]"
proof -
  have r: "rotate i xs = xs ! i # drop (Suc i) xs @ take i xs"
    using assms by (simp add: rotate_drop_take Cons_nth_drop_Suc)
  show ?thesis
  proof (cases "Suc i = n")
    case True
    then have "xs[i := e] = take i xs @ [e]"
      using assms by (simp add: upd_conv_take_nth_drop)
    then show ?thesis using True assms r by simp
  next
    case False
    then have "rotate (Suc i) (xs[i := e]) = drop (Suc i) xs @ take (Suc i) (xs[i := e])"
      using assms by (simp add: rotate_drop_take)
    also have "take (Suc i) (xs[i := e]) = take i xs @ [e]"
      using assms by (simp add: take_Suc_conv_app_nth)
    finally show ?thesis using False assms r by simp
  qed
qed

lemma ring_init_inv [ring_simps]: "ring_inv aesd_circular_buffer_init"
  by (simp add: ring_inv_def ring_shape_def ring_unused_def aesd_circular_buffer_init_def)

lemma ring_init_items [ring_simps]: "ring_items aesd_circular_buffer_init = []"
  by (simp add: ring_items_def aesd_circular_buffer_init_def)

lemma ring_items_length:
  "ring_inv b \<Longrightarrow> length (ring_items b) = (if full b then MAX_OPS else unat (in_offs b))"
  by (simp add: ring_inv_def ring_shape_def ring_items_def)

lemma ring_items_full: "ring_inv b \<Longrightarrow> length (ring_items b) = MAX_OPS \<longleftrightarrow> full b"
  by (auto simp: ring_items_length ring_inv_def ring_shape_def)

lemma add_entry_room:
  assumes inv: "ring_inv b" and room: "\<not> full b"
  shows "\<exists>b'. aesd_circular_buffer_add_entry v b e = Some (v, b', False) \<and> ring_inv b' \<and>
           ring_items b' = ring_items b @ [e]"
proof -
  let ?i = "unat (in_offs b)"
  have len: "length (entry b) = 10" and i: "?i < 10" and out: "out_offs b = 0"
    and unused: "set (drop ?i (entry b)) \<subseteq> {zero_entry}"
    using inv room by (auto simp: ring_inv_def ring_shape_def ring_unused_def)
  have tk: "take (Suc ?i) ((entry b)[?i := e]) = take ?i (entry b) @ [e]"
    using len i by (simp add: take_Suc_conv_app_nth)
  have dr: "set (drop (Suc ?i) ((entry b)[?i := e])) \<subseteq> {zero_entry}"
    using unused set_drop_subset_set_drop [of ?i "Suc ?i" "entry b"] by auto
  show ?thesis
  proof (cases "Suc ?i = 10")
    case True
    then have "next_offs (in_offs b) = 0"
      by (simp add: next_offs_def)
    then show ?thesis
      using room len i out True tk
      by (simp add: aesd_circular_buffer_add_entry_def set_entry_at_def ring_inv_def ring_shape_def
          ring_items_def)
  next
    case False
    then have n: "unat (next_offs (in_offs b)) = Suc ?i"
      using i by (simp add: unat_next_offs)
    then have "next_offs (in_offs b) \<noteq> 0" by (metis nat.simps(3) unat_0)
    then show ?thesis
      using room len i out False tk dr n
      by (simp add: aesd_circular_buffer_add_entry_def set_entry_at_def ring_inv_def ring_shape_def
          ring_items_def ring_unused_def)
  qed
qed

lemma add_entry_full:
  assumes inv: "ring_inv b" and full: "full b"
  shows "\<exists>b'. aesd_circular_buffer_add_entry v b e = Some (hd (ring_items b), b', True) \<and>
           ring_inv b' \<and> ring_items b' = tl (ring_items b) @ [e]"
proof -
  let ?i = "unat (in_offs b)"
  have len: "length (entry b) = 10" and i: "?i < 10" and out: "out_offs b = in_offs b"
    using inv full by (auto simp: ring_inv_def ring_shape_def)
  have "hd (rotate ?i (entry b)) = entry b ! ?i"
    using len i by (simp add: rotate_drop_take hd_append hd_drop_conv_nth)
  moreover have "rotate (Suc ?i mod 10) ((entry b)[?i := e]) = tl (rotate ?i (entry b)) @ [e]"
    by (rule rotate_step [OF len i])
  ultimately show ?thesis
    using full len i out
    by (simp add: aesd_circular_buffer_add_entry_def set_entry_at_def entry_at_def ring_inv_def
        ring_shape_def ring_items_def unat_next_offs)
qed

interpretation ring: bounded_history ring_inv ring_items aesd_circular_buffer_init
  aesd_circular_buffer_add_entry MAX_OPS
proof unfold_locales
  fix b v and e :: aesd_buffer_entry
  assume "ring_inv b"
  then show "length (ring_items b) \<le> MAX_OPS"
    by (auto simp: ring_items_length ring_inv_def ring_shape_def)
  show "length (ring_items b) < MAX_OPS \<Longrightarrow>
      \<exists>b'. aesd_circular_buffer_add_entry v b e = Some (v, b', False) \<and> ring_inv b' \<and>
           ring_items b' = ring_items b @ [e]"
    using \<open>ring_inv b\<close> ring_items_full [of b] by (intro add_entry_room) auto
  show "length (ring_items b) = MAX_OPS \<Longrightarrow>
      \<exists>b'. aesd_circular_buffer_add_entry v b e = Some (hd (ring_items b), b', True) \<and>
           ring_inv b' \<and> ring_items b' = tl (ring_items b) @ [e]"
    using \<open>ring_inv b\<close> ring_items_full [of b] by (intro add_entry_full) auto
qed (simp_all add: ring_simps)


subsection \<open>The position search\<close>

text \<open>
  Reference definition: which of a sequence of blocks of the given lengths holds position \<open>off\<close> of
  their concatenation, and at which offset inside the block.
\<close>

fun locate :: "nat list \<Rightarrow> nat \<Rightarrow> (nat \<times> nat) option" where
  "locate [] off = None"
| "locate (n # ns) off =
     (if off < n then Some (0, off)
      else map_option (\<lambda>(k, r). (Suc k, r)) (locate ns (off - n)))"

abbreviation sizes :: "aesd_buffer_entry list \<Rightarrow> nat list" where
  "sizes es \<equiv> map (\<lambda>e. unat (bsize e)) es"

definition ring_total :: "aesd_circular_buffer \<Rightarrow> nat" where
  "ring_total b = sum_list (sizes (ring_items b))"

lemma locate_None_iff: "locate ns off = None \<longleftrightarrow> sum_list ns \<le> off"
  by (induction ns off rule: locate.induct) auto

lemma locate_Some:
  "locate ns off = Some (k, r) \<Longrightarrow>
   k < length ns \<and> r < ns ! k \<and> off = sum_list (take k ns) + r"
  by (induction ns off arbitrary: k r rule: locate.induct) (auto split: if_splits)

lemma locate_block:
  "k < length ns \<Longrightarrow> r < ns ! k \<Longrightarrow> locate ns (sum_list (take k ns) + r) = Some (k, r)"
proof (induction ns arbitrary: k)
  case Nil
  then show ?case by simp
next
  case (Cons n ns)
  then show ?case by (cases k) auto
qed

lemma locate_skip_zeros:
  "\<forall>n \<in> set zs. n = 0 \<Longrightarrow>
   locate (zs @ ns) off = map_option (\<lambda>(k, r). (length zs + k, r)) (locate ns off)"
  by (induction zs) (auto simp: option.map_comp option.map_id0 comp_def split_def
      intro!: option.map_cong [of _ _ id, simplified])


text \<open>The loop visits the slots in the order of the rotated array and scans their sizes.\<close>

definition visit_order :: "aesd_circular_buffer \<Rightarrow> aesd_buffer_entry list" where
  "visit_order b = rotate (unat (in_offs b)) (entry b)"

lemma visit_order_nth:
  "ring_shape b \<Longrightarrow> i < 10 \<Longrightarrow> visit_order b ! i = entry b ! ((i + unat (in_offs b)) mod 10)"
  by (simp add: visit_order_def ring_shape_def nth_rotate add.commute)

lemma length_visit_order [simp]: "ring_shape b \<Longrightarrow> length (visit_order b) = 10"
  by (simp add: visit_order_def ring_shape_def)

lemma find_from_scan:
  assumes shape: "ring_shape b" and offs: "\<not> in_offs b < out_offs b"
  shows "i \<le> 10 \<Longrightarrow> unat acc \<le> unat off \<Longrightarrow>
    unat acc + sum_list (drop i (sizes (visit_order b))) < 2 ^ 64 \<Longrightarrow>
    find_from b off i acc =
      Some (map_option (\<lambda>(k, r). ((i + k + unat (in_offs b)) mod 10, of_nat r))
             (locate (drop i (sizes (visit_order b))) (unat off - unat acc)))"
proof (induction "10 - i" arbitrary: i acc)
  case 0
  then have "i = 10" by simp
  then show ?case by (simp add: find_from.simps [of b off 10 acc] shape)
next
  case (Suc n)
  let ?e = "visit_order b ! i" and ?c = "(i + unat (in_offs b)) mod 10"
  have i: "i < 10" using Suc.hyps(2) by simp
  have dr: "drop i (sizes (visit_order b)) = unat (bsize ?e) # drop (Suc i) (sizes (visit_order b))"
    using i shape by (simp add: Cons_nth_drop_Suc [symmetric])
  have at: "entry_at b ?c = Some ?e"
    using i shape by (simp add: entry_at_def visit_order_nth) (simp add: ring_shape_def)
  have sum: "unat (acc + bsize ?e) = unat acc + unat (bsize ?e)"
    using Suc.prems(3) dr by (intro unat_plus_size_t) simp
  have step: "find_from b off i acc =
      (if off < acc + bsize ?e then Some (Some (?c, off - acc))
       else find_from b off (Suc i) (acc + bsize ?e))"
    using i offs at by (simp add: find_from.simps [of b off i acc] Let_def)
  show ?case
  proof (cases "off < acc + bsize ?e")
    case True
    then have lt: "unat off - unat acc < unat (bsize ?e)"
      using Suc.prems(2) sum by (simp add: word_less_nat_alt)
    have "off - acc = of_nat (unat off - unat acc)"
      using Suc.prems(2) by (simp add: of_nat_diff)
    then show ?thesis using True lt step dr by simp
  next
    case False
    then have ge: "unat acc + unat (bsize ?e) \<le> unat off"
      using sum by (simp add: word_less_nat_alt)
    have "find_from b off (Suc i) (acc + bsize ?e) =
        Some (map_option (\<lambda>(k, r). ((Suc i + k + unat (in_offs b)) mod 10, of_nat r))
          (locate (drop (Suc i) (sizes (visit_order b))) (unat off - unat (acc + bsize ?e))))"
      using Suc.hyps(2) Suc.prems(3) i ge sum dr by (intro Suc.hyps(1)) simp_all
    then show ?thesis
      using False ge step dr sum
      by (simp add: option.map_comp comp_def split_def diff_diff_left)
  qed
qed

text \<open>The visited slots are the unused ones, of size 0, followed by the entries by age.\<close>

lemma visit_order_items:
  assumes "ring_inv b"
  shows "\<exists>zs. visit_order b = zs @ ring_items b \<and> set zs \<subseteq> {zero_entry} \<and>
           (length zs + unat (in_offs b)) mod 10 = unat (out_offs b)"
proof (cases "full b")
  case True
  then have "visit_order b = [] @ ring_items b" and "unat (in_offs b) = unat (out_offs b)"
    and "unat (in_offs b) < 10"
    using assms by (simp_all add: visit_order_def ring_items_def ring_inv_def ring_shape_def)
  then show ?thesis by force
next
  case False
  let ?i = "unat (in_offs b)"
  have len: "length (entry b) = 10" and i: "?i < 10" and "out_offs b = 0"
    and "set (drop ?i (entry b)) \<subseteq> {zero_entry}"
    using assms False by (auto simp: ring_inv_def ring_shape_def ring_unused_def)
  moreover have "visit_order b = drop ?i (entry b) @ ring_items b"
    using False len i by (simp add: visit_order_def ring_items_def rotate_drop_take)
  ultimately show ?thesis by force
qed

lemma locate_visit_order:
  assumes "ring_inv b"
  shows "map_option (\<lambda>(k, r). ((k + unat (in_offs b)) mod 10, r)) (locate (sizes (visit_order b)) n) =
         map_option (\<lambda>(k, r). ((unat (out_offs b) + k) mod 10, r)) (locate (sizes (ring_items b)) n)"
proof -
  obtain zs where zs: "visit_order b = zs @ ring_items b" "set zs \<subseteq> {zero_entry}"
      "(length zs + unat (in_offs b)) mod 10 = unat (out_offs b)"
    using visit_order_items [OF assms] by blast
  have "\<forall>n \<in> set (sizes zs). n = 0" using zs(2) by auto
  then have "locate (sizes (visit_order b)) n =
      map_option (\<lambda>(k, r). (length zs + k, r)) (locate (sizes (ring_items b)) n)"
    using zs(1) locate_skip_zeros [of "sizes zs" "sizes (ring_items b)" n] by simp
  moreover have "(length zs + k + unat (in_offs b)) mod 10 = (unat (out_offs b) + k) mod 10" for k
    using zs(3) by (metis add.assoc add.commute mod_add_left_eq)
  ultimately show ?thesis
    by (simp add: option.map_comp comp_def split_def)
qed

lemma ring_total_visit_order: "ring_inv b \<Longrightarrow> sum_list (sizes (visit_order b)) = ring_total b"
  using visit_order_items [of b]
  by (force simp: ring_total_def sum_list_eq_0_iff)

lemma find_correct:
  assumes inv: "ring_inv b" and total: "ring_total b < 2 ^ 64"
  shows "aesd_circular_buffer_find_entry_offset_for_fpos b off =
    Some (map_option (\<lambda>(k, r). ((unat (out_offs b) + k) mod 10, of_nat r))
           (locate (sizes (ring_items b)) (unat off)))"
proof -
  have shape: "ring_shape b" and offs: "\<not> in_offs b < out_offs b"
    using inv by (auto simp: ring_inv_def split: if_splits)
  have "find_from b off 0 0 =
    Some (map_option (\<lambda>(k, r). ((k + unat (in_offs b)) mod 10, of_nat r))
             (locate (sizes (visit_order b)) (unat off)))"
    using find_from_scan [OF shape offs, of 0 0 off] total ring_total_visit_order [OF inv] by simp
  moreover have "map_option (\<lambda>(k, r). ((k + unat (in_offs b)) mod 10, of_nat r :: size_t))
        (locate (sizes (visit_order b)) (unat off)) =
      map_option (\<lambda>(k, r). ((unat (out_offs b) + k) mod 10, of_nat r))
        (locate (sizes (ring_items b)) (unat off))"
    using arg_cong [OF locate_visit_order [OF inv, of "unat off"],
        of "map_option (\<lambda>(k, r). (k, of_nat r))"]
    by (simp add: option.map_comp comp_def split_def)
  ultimately show ?thesis
    by (simp add: aesd_circular_buffer_find_entry_offset_for_fpos_def)
qed

text \<open>The slot index names the entry of the same age.\<close>

lemma ring_items_nth:
  assumes "ring_inv b" and "k < length (ring_items b)"
  shows "entry_at b ((unat (out_offs b) + k) mod 10) = Some (ring_items b ! k)"
proof (cases "full b")
  case True
  then show ?thesis
    using assms by (simp add: ring_inv_def ring_shape_def ring_items_def entry_at_def nth_rotate)
next
  case False
  then show ?thesis
    using assms by (simp add: ring_inv_def ring_shape_def ring_items_def entry_at_def)
qed

end
