(* ===== verification/Line_Log.thy ===== *)
theory Line_Log
  imports Prelude Circular_Buffer
begin

text \<open>
  The abstract specification of the device \<open>/dev/aesdchar\<close>: a log of the newest ten complete
  lines, and the pending bytes after the last newline. It has no memory, no pointers and no word
  arithmetic; the driver is shown to implement it.
\<close>

record line_log =
  lines :: "byte list list"
  pending :: "byte list"

subsection \<open>Cutting a byte stream into lines\<close>

text \<open>\<open>feed p bs\<close> continues a line of which \<open>p\<close> is already there.\<close>

fun feed :: "byte list \<Rightarrow> byte list \<Rightarrow> byte list list \<times> byte list" where
  "feed p [] = ([], p)"
| "feed p (c # cs) =
     (if c = NEWLINE then (let (ls, q) = feed [] cs in ((p @ [c]) # ls, q))
      else feed (p @ [c]) cs)"

definition is_line :: "byte list \<Rightarrow> bool" where
  "is_line l \<longleftrightarrow> l \<noteq> [] \<and> last l = NEWLINE \<and> NEWLINE \<notin> set (butlast l)"

lemma feed_append:
  "feed p (xs @ ys) =
     (let (l1, q1) = feed p xs; (l2, q2) = feed q1 ys in (l1 @ l2, q2))"
  by (induction p xs rule: feed.induct) (auto simp: Let_def split: prod.splits)

lemma feed_concat: "feed p xs = (ls, q) \<Longrightarrow> concat ls @ q = p @ xs"
  by (induction p xs arbitrary: ls rule: feed.induct)
    (auto simp: Let_def split: prod.splits if_splits)

lemma feed_wf:
  "feed p xs = (ls, q) \<Longrightarrow> NEWLINE \<notin> set p \<Longrightarrow> list_all is_line ls \<and> NEWLINE \<notin> set q"
  by (induction p xs arbitrary: ls rule: feed.induct)
    (auto simp: is_line_def Let_def split: prod.splits if_splits)

lemma feed_no_newline: "NEWLINE \<notin> set xs \<Longrightarrow> feed p xs = ([], p @ xs)"
  by (induction p xs rule: feed.induct) auto

lemma feed_start: "NEWLINE \<notin> set p \<Longrightarrow> feed [] (p @ xs) = feed p xs"
  by (simp add: feed_append feed_no_newline)

lemma feed_line: "is_line l \<Longrightarrow> feed [] l = ([l], [])"
proof -
  assume l: "is_line l"
  then have "l = butlast l @ [NEWLINE]" by (metis append_butlast_last_id is_line_def)
  moreover have "feed [] (butlast l @ [NEWLINE]) = ([butlast l @ [NEWLINE]], [])"
    using l by (simp add: is_line_def feed_append feed_no_newline)
  ultimately show ?thesis by simp
qed

text \<open>Cutting is the only way to see a stream as lines and a rest.\<close>

lemma feed_unique:
  "list_all is_line ls \<Longrightarrow> NEWLINE \<notin> set q \<Longrightarrow> feed [] (concat ls @ q) = (ls, q)"
  by (induction ls) (simp_all add: feed_no_newline feed_append feed_line)

subsection \<open>The operations of the log\<close>

definition log_empty :: line_log where
  "log_empty = \<lparr>lines = [], pending = []\<rparr>"

definition log_wf :: "line_log \<Rightarrow> bool" where
  "log_wf L \<longleftrightarrow> length (lines L) \<le> MAX_OPS \<and> list_all is_line (lines L) \<and> NEWLINE \<notin> set (pending L)"

definition log_write :: "byte list \<Rightarrow> line_log \<Rightarrow> line_log" where
  "log_write d L =
     (let (ls, q) = feed (pending L) d
      in \<lparr>lines = take_last MAX_OPS (lines L @ ls), pending = q\<rparr>)"

text \<open>A write that runs out of memory keeps the first \<open>k\<close> of its lines.\<close>

definition log_write_partial :: "nat \<Rightarrow> byte list \<Rightarrow> line_log \<Rightarrow> line_log" where
  "log_write_partial k d L =
     \<lparr>lines = take_last MAX_OPS (lines L @ take k (fst (feed (pending L) d))),
      pending = (if k = 0 then pending L else [])\<rparr>"

definition log_content :: "line_log \<Rightarrow> byte list" where
  "log_content L = concat (lines L)"

text \<open>A read stays within one line.\<close>

definition log_read :: "nat \<Rightarrow> nat \<Rightarrow> line_log \<Rightarrow> byte list" where
  "log_read pos n L =
     (case locate (map length (lines L)) pos of
        None \<Rightarrow> []
      | Some (k, r) \<Rightarrow> take n (drop r (lines L ! k)))"

definition log_seek :: "nat \<Rightarrow> nat \<Rightarrow> line_log \<Rightarrow> nat option" where
  "log_seek cmd off L =
     (if cmd < length (lines L) \<and> off < length (lines L ! cmd)
      then Some (sum_list (take cmd (map length (lines L))) + off) else None)"

lemma log_wf_empty [simp]: "log_wf log_empty"
  by (simp add: log_wf_def log_empty_def)

lemma log_wf_write: "log_wf L \<Longrightarrow> log_wf (log_write d L)"
  using feed_wf [of "pending L" d] set_take_last_subset [of MAX_OPS "lines L @ fst (feed (pending L) d)"]
  by (auto simp: log_wf_def log_write_def list_all_iff split: prod.splits)

lemma log_wf_write_partial: "log_wf L \<Longrightarrow> log_wf (log_write_partial k d L)"
proof -
  assume L: "log_wf L"
  obtain ls q where f: "feed (pending L) d = (ls, q)" by fastforce
  have "list_all is_line (lines L @ take k ls)"
    using L feed_wf [OF f] by (auto simp: log_wf_def list_all_iff dest: in_set_takeD)
  then have "list_all is_line (take_last MAX_OPS (lines L @ take k ls))"
    using set_take_last_subset [of MAX_OPS "lines L @ take k ls"] by (auto simp: list_all_iff)
  then show ?thesis using L f by (simp add: log_wf_def log_write_partial_def)
qed

text \<open>How a stream is cut into writes does not matter.\<close>

lemma log_write_append: "log_write (xs @ ys) L = log_write ys (log_write xs L)"
  using take_last_append_take_last
  by (auto simp: log_write_def feed_append Let_def take_last_append_take_last append.assoc [symmetric]
      simp del: append_assoc split: prod.splits)

lemma log_write_Nil: "log_wf L \<Longrightarrow> log_write [] L = L"
  by (simp add: log_write_def log_wf_def)

lemma log_writes: "log_wf L \<Longrightarrow> fold log_write ds L = log_write (concat ds) L"
proof (induction ds arbitrary: L)
  case Nil
  then show ?case by (simp add: log_write_Nil)
next
  case (Cons d ds)
  then show ?case by (simp add: log_wf_write log_write_append)
qed

lemma log_write_all_or_none:
  "log_write d L = \<lparr>lines = lines (log_write_partial (length (fst (feed (pending L) d))) d L),
                    pending = snd (feed (pending L) d)\<rparr>"
  by (simp add: log_write_def log_write_partial_def split: prod.splits)

subsection \<open>Reading\<close>

lemma locate_concat:
  assumes "locate (map length ls) pos = Some (k, r)"
  shows "drop pos (concat ls) = drop r (ls ! k) @ concat (drop (Suc k) ls)"
  using assms
proof (induction ls arbitrary: pos k)
  case Nil
  then show ?case by simp
next
  case (Cons l ls)
  show ?case
  proof (cases "pos < length l")
    case True
    then show ?thesis using Cons.prems by auto
  next
    case False
    then obtain k' where "k = Suc k'" "locate (map length ls) (pos - length l) = Some (k', r)"
      using Cons.prems by auto
    then show ?thesis using Cons.IH [of "pos - length l" k'] False by simp
  qed
qed

lemma length_concat_sum: "length (concat ls) = sum_list (map length ls)"
  by (induction ls) auto

lemma log_read_prefix:
  "\<exists>m \<le> n. log_read pos n L = take m (drop pos (log_content L))"
proof (cases "locate (map length (lines L)) pos")
  case None
  then show ?thesis by (auto simp: log_read_def)
next
  case (Some kr)
  obtain k r where kr: "kr = (k, r)" by (cases kr)
  have "drop pos (log_content L) = drop r (lines L ! k) @ concat (drop (Suc k) (lines L))"
    unfolding log_content_def using locate_concat Some kr by blast
  then have "log_read pos n L = take (min n (length (drop r (lines L ! k)))) (drop pos (log_content L))"
    using Some kr by (simp add: log_read_def min_def)
  then show ?thesis by (intro exI [of _ "min n (length (drop r (lines L ! k)))"]) simp
qed

lemma log_read_nonempty:
  assumes "0 < n" and "pos < length (log_content L)"
  shows "log_read pos n L \<noteq> []"
proof -
  have "locate (map length (lines L)) pos \<noteq> None"
    using assms(2) by (simp add: locate_None_iff log_content_def length_concat_sum not_le)
  then obtain k r where kr: "locate (map length (lines L)) pos = Some (k, r)" by auto
  then have "k < length (lines L)" "r < length (lines L ! k)"
    using locate_Some [OF kr] by auto
  then show ?thesis using kr assms(1) by (simp add: log_read_def)
qed

lemma log_read_end: "length (log_content L) \<le> pos \<Longrightarrow> log_read pos n L = []"
  using locate_None_iff [of "map length (lines L)" pos]
  by (simp add: log_read_def log_content_def length_concat_sum)

lemma log_read_length: "length (log_read pos n L) \<le> n"
  by (auto simp: log_read_def split: option.splits)

lemma log_read_is_prefix:
  "log_read pos n L = take (length (log_read pos n L)) (drop pos (log_content L))"
proof -
  obtain m where m: "log_read pos n L = take m (drop pos (log_content L))"
    using log_read_prefix by blast
  then show ?thesis by (metis length_take min.commute take_all_iff take_take linorder_le_cases min_def)
qed

text \<open>A successful seek ends at a position of the content, on the requested byte.\<close>

lemma log_seek_content:
  assumes "log_seek cmd off L = Some pos"
  shows "pos < length (log_content L)" and "log_content L ! pos = lines L ! cmd ! off"
proof -
  have c: "cmd < length (lines L)" "off < length (lines L ! cmd)"
    and p: "pos = sum_list (take cmd (map length (lines L))) + off"
    using assms by (auto simp: log_seek_def split: if_splits)
  have loc: "locate (map length (lines L)) pos = Some (cmd, off)"
    unfolding p using c by (intro locate_block) simp_all
  have "\<not> length (log_content L) \<le> pos"
    using loc locate_None_iff [of "map length (lines L)" pos]
    by (auto simp: log_content_def length_concat_sum)
  then show lt: "pos < length (log_content L)" by simp
  have "log_content L ! pos = hd (drop pos (log_content L))"
    using lt by (simp add: hd_drop_conv_nth)
  also have "\<dots> = lines L ! cmd ! off"
    unfolding log_content_def locate_concat [OF loc] using c by (simp add: hd_append hd_drop_conv_nth)
  finally show "log_content L ! pos = lines L ! cmd ! off" .
qed

end
