(* ===== verification/Char_Driver.thy ===== *)
theory Char_Driver
  imports Line_Log
begin

text \<open>
  The file operations of \<open>aesd-char-driver/main.c\<close>, with the structs of \<open>aesdchar.h\<close> and
  \<open>aesd_ioctl.h\<close>, translated statement by statement. The proofs about them are in
  \<open>Driver_Correct\<close>.

  What the kernel provides is a parameter \<open>kernel\<close>: whether \<open>kmalloc\<close> serves a request and at which
  address, whether \<open>mutex_lock_interruptible\<close> is interrupted, how many bytes \<open>copy_from_user\<close> and
  \<open>copy_to_user\<close> leave uncopied, and the result of \<open>fixed_size_llseek\<close>. All but the last depend on
  the number of external calls made so far, so each call has its own outcome.

  The operations of the device run one at a time, as its mutex makes them: a thread that finds the
  mutex taken waits, and taking it twice or releasing it when free is undefined.
\<close>

subsection \<open>State\<close>

record aesd_dev =
  lock :: bool                           \<comment> \<open>\<open>struct mutex lock\<close>: taken or not\<close>
  c_buffer :: aesd_circular_buffer
  partial_buffer :: aesd_buffer_entry

record kstate = cmem +
  dev :: aesd_dev
  evicted_entry :: aesd_buffer_entry     \<comment> \<open>the static variable of \<open>aesd_circular_buffer_add_entry\<close>\<close>

record kernel =
  k_alloc :: allocator
  k_intr :: "nat \<Rightarrow> bool"
  k_uncopied :: "nat \<Rightarrow> nat \<Rightarrow> nat"
  k_llseek :: "loff_t \<Rightarrow> loff_t \<Rightarrow> int \<Rightarrow> loff_t \<Rightarrow> loff_t \<times> loff_t"

text \<open>The documented behaviour of these functions: \<open>kmalloc\<close> never serves \<open>2 ^ 31\<close> bytes or more
  and hands out free memory only; no more bytes stay uncopied than were asked for;
  \<open>fixed_size_llseek\<close> either returns the new position, between 0 and the size, and stores it in the
  file, or fails with a negative result and leaves the position alone.\<close>

definition kernel_ok :: "kernel \<Rightarrow> bool" where
  "kernel_ok K \<longleftrightarrow> allocator_ok INT_MAX (k_alloc K) \<and> (\<forall>c n. k_uncopied K c n \<le> n) \<and>
     (\<forall>p off wh sz. let (r, p') = k_llseek K p off wh sz in
        (if 0 \<le> sint r then p' = r \<and> sint r \<le> sint sz else p' = p))"

text \<open>\<open>struct file\<close> and \<open>struct inode\<close>, as far as the driver uses them. \<open>aesd_device\<close> is a static
  object outside the heap; its member \<open>cdev\<close> comes first, so \<open>container_of\<close> keeps the address.\<close>

record struct_file =
  f_pos :: loff_t
  private_data :: ptr

record inode =
  i_cdev :: ptr

definition aesd_device :: ptr where
  "aesd_device = Ptr 0"

definition container_of_cdev :: "ptr \<Rightarrow> ptr" where
  "container_of_cdev p = p"

text \<open>Dereferencing \<open>filp->private_data\<close>: anything but the device is undefined.\<close>

definition get_dev :: "struct_file \<Rightarrow> kstate \<Rightarrow> aesd_dev option" where
  "get_dev filp s = (if private_data filp = aesd_device then Some (dev s) else None)"

subsection \<open>Kernel calls\<close>

definition mutex_lock_interruptible :: "kernel \<Rightarrow> kstate \<Rightarrow> (bool \<times> kstate) option" where
  "mutex_lock_interruptible K s =
     (let t = s\<lparr>calls := Suc (calls s)\<rparr> in
      if k_intr K (calls s) then Some (True, t)
      else if lock (dev s) then None
      else Some (False, t\<lparr>dev := (dev s)\<lparr>lock := True\<rparr>\<rparr>))"

definition mutex_lock :: "kstate \<Rightarrow> kstate option" where
  "mutex_lock s = (if lock (dev s) then None else Some (s\<lparr>dev := (dev s)\<lparr>lock := True\<rparr>\<rparr>))"

definition mutex_unlock :: "kstate \<Rightarrow> kstate option" where
  "mutex_unlock s = (if lock (dev s) then Some (s\<lparr>dev := (dev s)\<lparr>lock := False\<rparr>\<rparr>) else None)"

text \<open>\<open>ubuf\<close> is the memory of the user process from the passed address on.\<close>

definition copy_from_user ::
  "kernel \<Rightarrow> ptr \<Rightarrow> (nat \<Rightarrow> byte) \<Rightarrow> nat \<Rightarrow> kstate \<Rightarrow> (nat \<times> kstate) option" where
  "copy_from_user K dst ubuf n s =
     (let r = k_uncopied K (calls s) n in
      do { h \<leftarrow> store_cells (heap s) dst 0 (map (\<lambda>i. Some (ubuf i)) [0..<n - r]);
           Some (r, s\<lparr>heap := h, calls := Suc (calls s)\<rparr>) })"

definition copy_to_user ::
  "kernel \<Rightarrow> ptr \<Rightarrow> nat \<Rightarrow> nat \<Rightarrow> kstate \<Rightarrow> (nat \<times> byte list \<times> kstate) option" where
  "copy_to_user K src off n s =
     (let r = k_uncopied K (calls s) n in
      do { bs \<leftarrow> load_bytes (heap s) src off n;
           Some (r, take (n - r) bs, s\<lparr>calls := Suc (calls s)\<rparr>) })"

declare get_dev_def [c_defs] mutex_lock_interruptible_def [c_defs] mutex_lock_def [c_defs]
  mutex_unlock_def [c_defs] copy_from_user_def [c_defs] copy_to_user_def [c_defs]

definition set_partial :: "aesd_buffer_entry \<Rightarrow> kstate \<Rightarrow> kstate" where
  "set_partial e s = s\<lparr>dev := (dev s)\<lparr>partial_buffer := e\<rparr>\<rparr>"

abbreviation partial :: "kstate \<Rightarrow> aesd_buffer_entry" where
  "partial s \<equiv> partial_buffer (dev s)"

subsection \<open>Open and release\<close>

definition aesd_open :: "inode \<Rightarrow> struct_file \<Rightarrow> int \<times> struct_file" where
  "aesd_open ino filp = (0, filp\<lparr>private_data := container_of_cdev (i_cdev ino)\<rparr>)"

definition aesd_release :: "inode \<Rightarrow> struct_file \<Rightarrow> int \<times> struct_file" where
  "aesd_release ino filp = (0, filp)"

subsection \<open>Read\<close>

text \<open>The result is the return value, the bytes that reach the user's buffer, the value of
  \<open>*f_pos\<close> and the state.\<close>

definition aesd_read ::
  "kernel \<Rightarrow> struct_file \<Rightarrow> size_t \<Rightarrow> loff_t \<Rightarrow> kstate \<Rightarrow> (int \<times> byte list \<times> loff_t \<times> kstate) option" where
  "aesd_read K filp count fpos s =
     do { _ \<leftarrow> get_dev filp s;
          (intr, s) \<leftarrow> mutex_lock_interruptible K s;
          if intr then Some (- ERESTARTSYS, [], fpos, s)
          else do {
            found \<leftarrow> aesd_circular_buffer_find_entry_offset_for_fpos (c_buffer (dev s)) fpos;
            case found of
              None \<Rightarrow> do { s \<leftarrow> mutex_unlock s; Some (0, [], fpos, s) }
            | Some (idx, entry_offset) \<Rightarrow> do {
                found_entry \<leftarrow> entry_at (c_buffer (dev s)) idx;
                let count = (if count + entry_offset \<ge> bsize found_entry
                             then bsize found_entry - entry_offset else count);
                (remaining_bytes, out, s) \<leftarrow>
                  copy_to_user K (buffptr found_entry) (unat entry_offset) (unat count) s;
                s \<leftarrow> mutex_unlock s;
                if remaining_bytes \<noteq> 0 then Some (- EFAULT, out, fpos, s)
                else Some (sint count, out, fpos + count, s) } } }"

subsection \<open>Write\<close>

text \<open>The bytes \<open>start\<close> to \<open>end\<close> of the copied data are joined to the partial entry; false means
  that \<open>kmalloc\<close> failed. The indices are below \<open>count\<close>, so they are exact; the sizes are words.\<close>

definition store_line :: "kernel \<Rightarrow> ptr \<Rightarrow> nat \<Rightarrow> nat \<Rightarrow> kstate \<Rightarrow> (bool \<times> kstate) option" where
  "store_line K am start end0 s =
     (if bsize (partial s) = 0 then
        let (p, s) = c_alloc (k_alloc K) (of_nat end0 - of_nat start + 1) s;
            s = set_partial ((partial s)\<lparr>buffptr := p\<rparr>) s
        in if p = NULL then Some (False, s)
           else do {
             let s = set_partial ((partial s)\<lparr>bsize := of_nat end0 - of_nat start + 1\<rparr>) s;
             s \<leftarrow> c_memcpy (buffptr (partial s)) 0 am start (end0 - start + 1) s;
             Some (True, s) }
      else
        let old_size = bsize (partial s);
            new_size = old_size + of_nat end0 - of_nat start + 1;
            (new_data, s) = c_alloc (k_alloc K) new_size s
        in if new_data = NULL then Some (False, s)
           else do {
             s \<leftarrow> c_memcpy new_data 0 (buffptr (partial s)) 0 (unat old_size) s;
             s \<leftarrow> c_memcpy new_data (unat old_size) am start (end0 - start + 1) s;
             s \<leftarrow> c_free (buffptr (partial s)) s;
             Some (True, set_partial ((partial s)\<lparr>buffptr := new_data, bsize := new_size\<rparr>) s) })"

text \<open>The partial entry, now a complete line, moves into the circular buffer.\<close>

definition add_line :: "kstate \<Rightarrow> kstate option" where
  "add_line s =
     do { (ev, b, overwritten) \<leftarrow>
            aesd_circular_buffer_add_entry (evicted_entry s) (c_buffer (dev s)) (partial s);
          let s = s\<lparr>evicted_entry := ev, dev := (dev s)\<lparr>c_buffer := b\<rparr>\<rparr>;
          s \<leftarrow> (if overwritten then
                  do { s \<leftarrow> c_free (buffptr (evicted_entry s)) s;
                       Some (s\<lparr>evicted_entry := (evicted_entry s)\<lparr>bsize := 0, buffptr := NULL\<rparr>\<rparr>) }
                else Some s);
          Some (set_partial ((partial s)\<lparr>buffptr := NULL, bsize := 0\<rparr>) s) }"

text \<open>The common exit: \<open>kfree(allocated_memory); mutex_unlock(&dev->lock)\<close>.\<close>

definition free_and_unlock :: "ptr \<Rightarrow> kstate \<Rightarrow> kstate option" where
  "free_and_unlock am s = do { s \<leftarrow> c_free am s; mutex_unlock s }"

datatype flow = Returned int | Going nat

text \<open>The loop over the copied bytes. It ends by returning from the function or with the index
  \<open>start\<close> of the first byte after the last newline.\<close>

function write_loop ::
  "kernel \<Rightarrow> ptr \<Rightarrow> nat \<Rightarrow> nat \<Rightarrow> nat \<Rightarrow> kstate \<Rightarrow> (flow \<times> kstate) option" where
  "write_loop K am count j start s =
     (if j < count then
        do { c \<leftarrow> load_byte (heap s) am j;
             if c = NEWLINE then
               do { (stored, s) \<leftarrow> store_line K am start j s;
                    if stored then
                      do { s \<leftarrow> add_line s;
                           write_loop K am count (Suc j) (Suc j) s }
                    else do { s \<leftarrow> free_and_unlock am s; Some (Returned (- ENOMEM), s) } }
             else write_loop K am count (Suc j) start s }
      else Some (Going start, s))"
  by pat_completeness auto
termination
  by (relation "measure (\<lambda>(K, am, count, j, start, s). count - j)") auto

declare write_loop.simps [simp del]

text \<open>The bytes after the last newline are joined to the partial entry; false means that \<open>kmalloc\<close>
  failed.\<close>

definition store_rest :: "kernel \<Rightarrow> ptr \<Rightarrow> nat \<Rightarrow> nat \<Rightarrow> kstate \<Rightarrow> (bool \<times> kstate) option" where
  "store_rest K am start count s =
     (let remaining = of_nat count - of_nat start :: size_t in
      if bsize (partial s) = 0 then
        let (p, s) = c_alloc (k_alloc K) remaining s;
            s = set_partial ((partial s)\<lparr>buffptr := p\<rparr>) s
        in if p = NULL then Some (False, s)
           else do {
             s \<leftarrow> c_memcpy (buffptr (partial s)) 0 am start (unat remaining) s;
             Some (True, set_partial ((partial s)\<lparr>bsize := remaining\<rparr>) s) }
      else
        let new_size = bsize (partial s) + remaining;
            (new_data, s) = c_alloc (k_alloc K) new_size s
        in if new_data = NULL then Some (False, s)
           else do {
             s \<leftarrow> c_memcpy new_data 0 (buffptr (partial s)) 0 (unat (bsize (partial s))) s;
             s \<leftarrow> c_memcpy new_data (unat (bsize (partial s))) am start (unat remaining) s;
             s \<leftarrow> c_free (buffptr (partial s)) s;
             Some (True, set_partial ((partial s)\<lparr>buffptr := new_data, bsize := new_size\<rparr>) s) })"

definition aesd_write ::
  "kernel \<Rightarrow> struct_file \<Rightarrow> (nat \<Rightarrow> byte) \<Rightarrow> size_t \<Rightarrow> kstate \<Rightarrow> (int \<times> kstate) option" where
  "aesd_write K filp ubuf count s =
     (if count = 0 then Some (0, s)
      else do {
        _ \<leftarrow> get_dev filp s;
        (intr, s) \<leftarrow> mutex_lock_interruptible K s;
        if intr then Some (- ERESTARTSYS, s)
        else
          let (am, s) = c_alloc (k_alloc K) count s in
          if am = NULL then do { s \<leftarrow> mutex_unlock s; Some (- ENOMEM, s) }
          else do {
            (not_copied_bytes, s) \<leftarrow> copy_from_user K am ubuf (unat count) s;
            if not_copied_bytes \<noteq> 0 then
              do { s \<leftarrow> free_and_unlock am s; Some (- EFAULT, s) }
            else do {
              (fl, s) \<leftarrow> write_loop K am (unat count) 0 0 s;
              case fl of
                Returned r \<Rightarrow> Some (r, s)
              | Going start \<Rightarrow> do {
                  (stored, s) \<leftarrow> (if start < unat count
                                 then store_rest K am start (unat count) s else Some (True, s));
                  s \<leftarrow> free_and_unlock am s;
                  Some (if stored then sint count else - ENOMEM, s) } } } })"

subsection \<open>Seeking\<close>

text \<open>The sizes of all ten slots are added; the sum is that of a 64-bit machine word.\<close>

function total_from :: "aesd_circular_buffer \<Rightarrow> nat \<Rightarrow> loff_t \<Rightarrow> loff_t option" where
  "total_from b i acc =
     (if i < MAX_OPS
      then do { e \<leftarrow> entry_at b i; total_from b (Suc i) (acc + bsize e) }
      else Some acc)"
  by pat_completeness auto
termination
  by (relation "measure (\<lambda>(b, i, acc). MAX_OPS - i)") auto

declare total_from.simps [simp del]

definition get_total_size :: "aesd_circular_buffer \<Rightarrow> loff_t option" where
  "get_total_size b = total_from b 0 0"

definition aesd_lseek ::
  "kernel \<Rightarrow> struct_file \<Rightarrow> loff_t \<Rightarrow> int \<Rightarrow> kstate \<Rightarrow> (int \<times> struct_file \<times> kstate) option" where
  "aesd_lseek K filp off whence s =
     do { _ \<leftarrow> get_dev filp s;
          (intr, s) \<leftarrow> mutex_lock_interruptible K s;
          if intr then Some (- ERESTARTSYS, filp, s)
          else do {
            total_size \<leftarrow> get_total_size (c_buffer (dev s));
            s \<leftarrow> mutex_unlock s;
            let (r, pos) = k_llseek K (f_pos filp) off whence total_size;
            Some (sint r, filp\<lparr>f_pos := pos\<rparr>, s) } }"

text \<open>The loop over the commands before the requested one; the inner \<open>None\<close> is the exit with
  \<open>-EINVAL\<close>.\<close>

function adjust_from ::
  "aesd_circular_buffer \<Rightarrow> nat \<Rightarrow> nat \<Rightarrow> loff_t \<Rightarrow> loff_t option option" where
  "adjust_from b write_cmd i new_pos =
     (if i < write_cmd
      then do { e \<leftarrow> entry_at b ((i + unat (out_offs b)) mod MAX_OPS);
                if buffptr e = NULL \<and> bsize e = 0 then Some None
                else adjust_from b write_cmd (Suc i) (new_pos + bsize e) }
      else Some (Some new_pos))"
  by pat_completeness auto
termination
  by (relation "measure (\<lambda>(b, c, i, pos). c - i)") auto

declare adjust_from.simps [simp del]

definition adjust_aesd_file_offset ::
  "kernel \<Rightarrow> struct_file \<Rightarrow> uint32_t \<Rightarrow> uint32_t \<Rightarrow> kstate \<Rightarrow> (int \<times> struct_file \<times> kstate) option" where
  "adjust_aesd_file_offset K filp write_cmd write_cmd_offset s =
     do { _ \<leftarrow> get_dev filp s;
          (intr, s) \<leftarrow> mutex_lock_interruptible K s;
          if intr then Some (- ERESTARTSYS, filp, s)
          else if unat write_cmd \<ge> MAX_OPS then do { s \<leftarrow> mutex_unlock s; Some (- EINVAL, filp, s) }
          else do {
            let buffer = c_buffer (dev s);
            let target_index = (unat write_cmd + unat (out_offs buffer)) mod MAX_OPS;
            found \<leftarrow> adjust_from buffer (unat write_cmd) 0 0;
            case found of
              None \<Rightarrow> do { s \<leftarrow> mutex_unlock s; Some (- EINVAL, filp, s) }
            | Some new_pos \<Rightarrow> do {
                target \<leftarrow> entry_at buffer target_index;
                if buffptr target = NULL \<or> ucast write_cmd_offset \<ge> bsize target
                then do { s \<leftarrow> mutex_unlock s; Some (- EINVAL, filp, s) }
                else do {
                  let new_pos = new_pos + ucast write_cmd_offset;
                  s \<leftarrow> mutex_unlock s;
                  Some (sint new_pos, filp\<lparr>f_pos := new_pos\<rparr>, s) } } } }"

record aesd_seekto =
  write_cmd :: uint32_t
  write_cmd_offset :: uint32_t

text \<open>The request number \<open>_IOWR(0x16, 1, struct aesd_seekto)\<close> in the generic encoding: direction
  read and write (3) in bits 30 and 31, the size of the struct (8) from bit 16, the magic number
  from bit 8, the command number in the low byte.\<close>

definition AESDCHAR_IOCSEEKTO :: uint32_t where
  "AESDCHAR_IOCSEEKTO = 3 * 2 ^ 30 + 8 * 2 ^ 16 + 0x16 * 2 ^ 8 + 1"

text \<open>\<open>arg\<close> is the struct at the passed user address.\<close>

definition aesd_ioctl ::
  "kernel \<Rightarrow> struct_file \<Rightarrow> uint32_t \<Rightarrow> aesd_seekto \<Rightarrow> kstate \<Rightarrow> (int \<times> struct_file \<times> kstate) option" where
  "aesd_ioctl K filp cmd arg s =
     (if cmd = AESDCHAR_IOCSEEKTO then
        let r = k_uncopied K (calls s) 8; s = s\<lparr>calls := Suc (calls s)\<rparr> in
        if r \<noteq> 0 then Some (- EFAULT, filp, s)
        else adjust_aesd_file_offset K filp (write_cmd arg) (write_cmd_offset arg) s
      else Some (- ENOTTY, filp, s))"

subsection \<open>Loading and unloading the module\<close>

text \<open>Besides the device, the module owns a range of device numbers and a registered \<open>cdev\<close>.\<close>

record mstate =
  ks :: kstate
  aesd_major :: uint32_t
  region :: "uint32_t option"        \<comment> \<open>the device number that is allocated\<close>
  cdev_live :: "uint32_t option"     \<comment> \<open>the number under which \<open>cdev\<close> is registered\<close>

definition MAJOR :: "uint32_t \<Rightarrow> uint32_t" where "MAJOR d = drop_bit 20 d"
definition MKDEV :: "uint32_t \<Rightarrow> uint32_t \<Rightarrow> uint32_t" where "MKDEV ma mi = or (push_bit 20 ma) mi"

definition aesd_minor :: uint32_t where "aesd_minor = 0"

text \<open>\<open>add_err\<close> is the result of \<open>cdev_add\<close>, which registers the device if it is 0.\<close>

definition aesd_setup_cdev :: "int \<Rightarrow> mstate \<Rightarrow> int \<times> mstate" where
  "aesd_setup_cdev add_err m =
     (let devno = MKDEV (aesd_major m) aesd_minor in
      (add_err, if add_err = 0 then m\<lparr>cdev_live := Some devno\<rparr> else m))"

definition unregister_chrdev_region :: "uint32_t \<Rightarrow> mstate \<Rightarrow> mstate" where
  "unregister_chrdev_region d m = (if region m = Some d then m\<lparr>region := None\<rparr> else m)"

definition zero_dev :: aesd_dev where
  "zero_dev = \<lparr>lock = False,
     c_buffer = \<lparr>entry = replicate MAX_OPS zero_entry, in_offs = 0, out_offs = 0, full = False\<rparr>,
     partial_buffer = zero_entry\<rparr>"

text \<open>\<open>alloc_res\<close> and \<open>devno\<close> are the result of \<open>alloc_chrdev_region\<close> and the number it stores; a
  failed call stores nothing.\<close>

definition aesd_init_module :: "int \<Rightarrow> uint32_t \<Rightarrow> int \<Rightarrow> mstate \<Rightarrow> int \<times> mstate" where
  "aesd_init_module alloc_res devno add_err m =
     (let d = (if alloc_res < 0 then 0 else devno);
          m = (if alloc_res < 0 then m else m\<lparr>region := Some devno\<rparr>);
          m = m\<lparr>aesd_major := MAJOR d\<rparr>
      in if alloc_res < 0 then (alloc_res, m)
         else
           let dv = zero_dev\<lparr>lock := False, c_buffer := aesd_circular_buffer_init\<rparr>;
               m = m\<lparr>ks := (ks m)\<lparr>dev := dv\<rparr>\<rparr>;
               (result, m) = aesd_setup_cdev add_err m
           in (result, if result \<noteq> 0 then unregister_chrdev_region d m else m))"

function trim_from :: "nat \<Rightarrow> kstate \<Rightarrow> kstate option" where
  "trim_from i s =
     (if i < MAX_OPS then
        do { e \<leftarrow> entry_at (c_buffer (dev s)) i;
             s \<leftarrow> (if buffptr e \<noteq> NULL then
                     do { s \<leftarrow> c_free (buffptr e) s;
                          b \<leftarrow> set_entry_at i zero_entry (c_buffer (dev s));
                          Some (s\<lparr>dev := (dev s)\<lparr>c_buffer := b\<rparr>\<rparr>) }
                   else Some s);
             trim_from (Suc i) s }
      else Some s)"
  by pat_completeness auto
termination
  by (relation "measure (\<lambda>(i, s). MAX_OPS - i)") auto

declare trim_from.simps [simp del]

definition aesd_trim :: "kstate \<Rightarrow> (int \<times> kstate) option" where
  "aesd_trim s =
     do { s \<leftarrow> trim_from 0 s;
          Some (0, s\<lparr>dev := (dev s)\<lparr>c_buffer :=
                       (c_buffer (dev s))\<lparr>full := False, in_offs := 0, out_offs := 0\<rparr>\<rparr>\<rparr>) }"

definition aesd_cleanup_module :: "mstate \<Rightarrow> mstate option" where
  "aesd_cleanup_module m =
     do { let devno = MKDEV (aesd_major m) aesd_minor;
          let m = m\<lparr>cdev_live := None\<rparr>;
          s \<leftarrow> mutex_lock (ks m);
          (_, s) \<leftarrow> aesd_trim s;
          s \<leftarrow> c_free (buffptr (partial s)) s;
          s \<leftarrow> mutex_unlock s;
          Some (unregister_chrdev_region devno (m\<lparr>ks := s\<rparr>)) }"

end
