(* ===== verification/Driver_Correct.thy ===== *)
theory Driver_Correct
  imports Char_Driver
begin

text \<open>
  The memory invariant of the driver and the correctness of \<open>aesd_write\<close> against the line log.

  \<open>dev_repr s ls p\<close> says that the device owns one allocated, fully initialised block per line of
  \<open>ls\<close> and, when \<open>p\<close> is not empty, one for the pending bytes, all at different addresses.
  \<open>foreign s\<close> is the rest of the heap: that an operation keeps it means at once that it touches no
  block of anybody else, that it frees nothing twice and that it leaks nothing.
\<close>

subsection \<open>Ownership\<close>

definition holds :: "heap \<Rightarrow> aesd_buffer_entry \<Rightarrow> byte list \<Rightarrow> bool" where
  "holds h e bs \<longleftrightarrow>
     (case buffptr e of NULL \<Rightarrow> False | Ptr a \<Rightarrow> h a = Some (map Some bs)) \<and>
     unat (bsize e) = length bs \<and> bs \<noteq> [] \<and> length bs \<le> INT_MAX"

lemma holds_iff:
  "holds h e bs \<longleftrightarrow> (\<exists>a. buffptr e = Ptr a \<and> h a = Some (map Some bs)) \<and>
     unat (bsize e) = length bs \<and> bs \<noteq> [] \<and> length bs \<le> INT_MAX"
  by (auto simp: holds_def split: ptr.splits)

definition slot_holds :: "heap \<Rightarrow> aesd_buffer_entry \<Rightarrow> byte list \<Rightarrow> bool" where
  "slot_holds h e bs \<longleftrightarrow> (if bs = [] then e = zero_entry else holds h e bs)"

fun ptr_addrs :: "ptr \<Rightarrow> nat list" where
  "ptr_addrs NULL = []"
| "ptr_addrs (Ptr a) = [a]"

definition addrs :: "aesd_buffer_entry list \<Rightarrow> nat list" where
  "addrs es = concat (map (\<lambda>e. ptr_addrs (buffptr e)) es)"

lemma addrs_simps [simp]:
  "addrs [] = []" "addrs (e # es) = ptr_addrs (buffptr e) @ addrs es"
  "addrs (es @ fs) = addrs es @ addrs fs"
  by (simp_all add: addrs_def)

abbreviation items :: "kstate \<Rightarrow> aesd_buffer_entry list" where
  "items s \<equiv> ring_items (c_buffer (dev s))"

definition owned :: "kstate \<Rightarrow> nat list" where
  "owned s = addrs (items s @ [partial s])"

definition foreign :: "kstate \<Rightarrow> heap" where
  "foreign s = heap s |` (- set (owned s))"

definition dev_repr :: "kstate \<Rightarrow> byte list list \<Rightarrow> byte list \<Rightarrow> bool" where
  "dev_repr s ls p \<longleftrightarrow> ring_inv (c_buffer (dev s)) \<and> list_all2 (holds (heap s)) (items s) ls \<and>
     slot_holds (heap s) (partial s) p \<and> distinct (owned s)"

definition same :: "kstate \<Rightarrow> kstate \<Rightarrow> bool" where
  "same s s' \<longleftrightarrow> foreign s' = foreign s \<and> lock (dev s') = lock (dev s)"

lemma same_refl [simp]: "same s s"
  by (simp add: same_def)

lemma same_trans [trans]: "same s t \<Longrightarrow> same t u \<Longrightarrow> same s u"
  by (simp add: same_def)

lemma holds_addrs: "holds h e bs \<Longrightarrow> x \<in> set (ptr_addrs (buffptr e)) \<Longrightarrow> h x \<noteq> None"
  by (auto simp: holds_iff)

lemma holds_list_addrs: "list_all2 (holds h) es ls \<Longrightarrow> x \<in> set (addrs es) \<Longrightarrow> h x \<noteq> None"
  by (induction rule: list_all2_induct) (auto dest: holds_addrs)

lemma slot_addrs: "slot_holds h e bs \<Longrightarrow> x \<in> set (ptr_addrs (buffptr e)) \<Longrightarrow> h x \<noteq> None"
  by (auto simp: slot_holds_def dest: holds_addrs split: if_splits)

lemma holds_upd [simp]:
  "x \<notin> set (ptr_addrs (buffptr e)) \<Longrightarrow> holds (h(x := c)) e bs = holds h e bs"
  by (auto simp: holds_iff)

lemma holds_list_upd [simp]:
  "x \<notin> set (addrs es) \<Longrightarrow> list_all2 (holds (h(x := c))) es ls = list_all2 (holds h) es ls"
  by (induction es arbitrary: ls) (auto simp: list_all2_Cons1)

lemma dev_repr_length: "dev_repr s ls p \<Longrightarrow> length ls \<le> MAX_OPS"
  by (auto simp: dev_repr_def dest!: list_all2_lengthD ring.items_bounded)

lemma owned_allocated:
  assumes "dev_repr s ls p" and "heap s x = None"
  shows "x \<notin> set (addrs (items s))" and "x \<notin> set (ptr_addrs (buffptr (partial s)))"
  using assms by (auto simp: dev_repr_def dest: holds_list_addrs slot_addrs)

lemma foreign_block:
  assumes "heap s x = Some b" and "x \<notin> set (owned s)" and "foreign s' = foreign s"
  shows "heap s' x = Some b" and "x \<notin> set (owned s')"
proof -
  have "foreign s' x = Some b" using assms by (simp add: foreign_def restrict_map_def)
  then show "heap s' x = Some b" "x \<notin> set (owned s')"
    by (auto simp: foreign_def restrict_map_def split: if_splits)
qed

subsection \<open>Extending the partial entry\<close>

text \<open>Both places of the write that join bytes to the partial entry do the same.\<close>

definition extend_partial :: "kernel \<Rightarrow> ptr \<Rightarrow> nat \<Rightarrow> nat \<Rightarrow> kstate \<Rightarrow> (bool \<times> kstate) option" where
  "extend_partial K am start n s =
     (if bsize (partial s) = 0 then
        let (p, t) = c_alloc (k_alloc K) (of_nat n) s
        in if p = NULL then Some (False, set_partial ((partial s)\<lparr>buffptr := p\<rparr>) t)
           else do { t \<leftarrow> c_memcpy p 0 am start n t;
                     Some (True, set_partial \<lparr>buffptr = p, bsize = of_nat n\<rparr> t) }
      else
        let (p, t) = c_alloc (k_alloc K) (bsize (partial s) + of_nat n) s
        in if p = NULL then Some (False, t)
           else do {
             t \<leftarrow> c_memcpy p 0 (buffptr (partial s)) 0 (unat (bsize (partial s))) t;
             t \<leftarrow> c_memcpy p (unat (bsize (partial s))) am start n t;
             t \<leftarrow> c_free (buffptr (partial s)) t;
             Some (True, set_partial \<lparr>buffptr = p, bsize = bsize (partial s) + of_nat n\<rparr> t) })"

lemma dev_c_alloc: "c_alloc al n s = (p, t) \<Longrightarrow> dev t = dev s"
  by (auto simp: c_alloc_def split: option.splits)

lemma dev_c_memcpy: "c_memcpy d i q j n s = Some t \<Longrightarrow> dev t = dev s"
  by (auto simp: c_memcpy_def bind_eq_Some_conv)

lemma dev_c_free: "c_free p s = Some t \<Longrightarrow> dev t = dev s"
  by (auto simp: c_free_def split: ptr.splits option.splits)

lemma partial_set_partial [simp]: "partial (set_partial e s) = e"
  by (simp add: set_partial_def)

lemma set_partial_twice [simp]: "set_partial e (set_partial f s) = set_partial e s"
  by (simp add: set_partial_def)

lemma c_memcpy_set_partial:
  "c_memcpy d i q j n (set_partial e s) = map_option (set_partial e) (c_memcpy d i q j n s)"
  by (cases s) (auto simp: c_memcpy_def set_partial_def map_option_bind comp_def)

lemma entry_updates [simp]: "e\<lparr>buffptr := p, bsize := n\<rparr> = \<lparr>buffptr = p, bsize = n\<rparr>"
  by (cases e) simp

lemmas extend_simps = extend_partial_def Let_def c_memcpy_set_partial map_option_bind comp_def
  bind_map_option

lemma store_line_extend:
  assumes "start \<le> j"
  shows "store_line K am start j s = extend_partial K am start (j - start + 1) s"
  using assms
  by (auto simp: store_line_def extend_simps of_nat_diff algebra_simps
      dest!: dev_c_memcpy dev_c_free dev_c_alloc split: prod.splits intro!: Option.bind_cong)

lemma store_rest_extend:
  assumes "start \<le> n" and "n < 2 ^ 64"
  shows "store_rest K am start n s = extend_partial K am start (n - start) s"
proof -
  have r: "(of_nat n - of_nat start :: size_t) = of_nat (n - start)"
    using assms(1) by (simp add: of_nat_diff)
  have "unat (of_nat (n - start) :: size_t) = n - start"
    using assms by (intro unat_of_nat_size_t) simp
  then show ?thesis
    unfolding store_rest_def r
    by (auto simp: extend_simps dest!: dev_c_memcpy dev_c_free dev_c_alloc
        split: prod.splits intro!: Option.bind_cong)
qed

lemma dev_set_partial [simp]:
  "c_buffer (dev (set_partial e s)) = c_buffer (dev s)"
  "lock (dev (set_partial e s)) = lock (dev s)"
  "heap (set_partial e s) = heap s"
  "calls (set_partial e s) = calls s"
  "evicted_entry (set_partial e s) = evicted_entry s"
  by (simp_all add: set_partial_def)

lemma dev_repr_calls [simp]: "dev_repr (s\<lparr>calls := n\<rparr>) ls p = dev_repr s ls p"
  by (simp add: dev_repr_def owned_def)

lemma same_calls [simp]: "same s (s\<lparr>calls := n\<rparr>)"
  by (simp add: same_def foreign_def owned_def)

text \<open>The partial entry is replaced by a fresh block at \<open>a\<close>.\<close>

lemma dev_repr_new_partial:
  assumes repr: "dev_repr s ls p" and fresh: "heap s a = None" and bs: "bs \<noteq> []" "length bs \<le> INT_MAX"
    and p: "p \<noteq> [] \<Longrightarrow> buffptr (partial s) = Ptr q" and p0: "p = [] \<Longrightarrow> q = a"
    and t: "dev t = dev s" "heap t = (heap s)(q := None, a \<mapsto> map Some bs)"
    and n: "unat n = length bs"
  shows "dev_repr (set_partial \<lparr>buffptr = Ptr a, bsize = n\<rparr> t) ls bs"
    and "same s (set_partial \<lparr>buffptr = Ptr a, bsize = n\<rparr> t)"
proof -
  let ?u = "set_partial \<lparr>buffptr = Ptr a, bsize = n\<rparr> t"
  have a: "a \<notin> set (addrs (items s))" "a \<notin> set (ptr_addrs (buffptr (partial s)))"
    using owned_allocated [OF repr fresh] by auto
  have d: "distinct (addrs (items s))"
    and slot: "p = [] \<Longrightarrow> ptr_addrs (buffptr (partial s)) = []"
    and q: "q \<notin> set (addrs (items s))"
    using repr a p p0 by (cases "p = []"; auto simp: dev_repr_def owned_def slot_holds_def)+
  have "list_all2 (holds (heap ?u)) (items s) ls"
    using repr q a by (simp add: dev_repr_def t)
  moreover have "slot_holds (heap ?u) (partial ?u) bs"
    using bs n t by (simp add: slot_holds_def holds_iff)
  ultimately show "dev_repr ?u ls bs"
    using repr a d by (simp add: dev_repr_def owned_def t)
  have "foreign ?u = foreign s"
  proof
    fix x
    show "foreign ?u x = foreign s x"
      using fresh slot p p0 a by (cases "p = []") (auto simp: foreign_def owned_def restrict_map_def t)
  qed
  then show "same s ?u" by (simp add: same_def t)
qed

lemma dev_repr_partial:
  assumes "dev_repr s ls p"
  shows "p = [] \<Longrightarrow> partial s = zero_entry"
    and "p \<noteq> [] \<Longrightarrow> \<exists>q. buffptr (partial s) = Ptr q \<and> heap s q = Some (map Some p) \<and>
           unat (bsize (partial s)) = length p \<and> bsize (partial s) \<noteq> 0 \<and> length p \<le> INT_MAX \<and>
           q \<in> set (owned s)"
proof -
  show "p = [] \<Longrightarrow> partial s = zero_entry" using assms by (simp add: dev_repr_def slot_holds_def)
  assume p: "p \<noteq> []"
  then have h: "holds (heap s) (partial s) p" using assms by (simp add: dev_repr_def slot_holds_def)
  then have "bsize (partial s) \<noteq> 0" using p by (auto simp: holds_iff)
  then show "\<exists>q. buffptr (partial s) = Ptr q \<and> heap s q = Some (map Some p) \<and>
      unat (bsize (partial s)) = length p \<and> bsize (partial s) \<noteq> 0 \<and> length p \<le> INT_MAX \<and>
      q \<in> set (owned s)"
    using h by (auto simp: holds_iff owned_def)
qed

lemma extend_empty_ok:
  assumes al: "allocator_ok INT_MAX (k_alloc K)" and repr: "dev_repr s ls []"
    and am: "heap s a = Some (map Some data)" "a \<notin> set (owned s)"
    and n: "start + n \<le> length data" "0 < n" "length data \<le> INT_MAX"
  shows "\<exists>ok s'. extend_partial K (Ptr a) start n s = Some (ok, s') \<and> same s s' \<and>
     dev_repr s' ls (if ok then take n (drop start data) else [])"
proof -
  let ?bs = "take n (drop start data)"
  have len: "length ?bs = n" using n by simp
  have un: "unat (of_nat n :: size_t) = n" using n by (intro unat_of_nat_size_t) simp
  have z: "partial s = zero_entry" by (rule dev_repr_partial [OF repr]) simp
  show ?thesis
    using al
  proof (cases rule: c_alloc_cases [of INT_MAX "k_alloc K" "of_nat n" s])
    case fail
    have z2: "set_partial zero_entry (s\<lparr>calls := Suc (calls s)\<rparr>) = s\<lparr>calls := Suc (calls s)\<rparr>"
      using z by (cases s, cases "dev s") (simp add: set_partial_def zero_entry_def)
    then show ?thesis
      using fail z repr by (auto simp: extend_simps z2)
  next
    case (ok b)
    then have "b \<noteq> a" using am by auto
    let ?t = "s\<lparr>heap := (heap s)(b \<mapsto> map Some ?bs), calls := Suc (calls s)\<rparr>"
    have ext: "extend_partial K (Ptr a) start n s =
        Some (True, set_partial \<lparr>buffptr = Ptr b, bsize = of_nat n\<rparr> ?t)"
      using ok z \<open>b \<noteq> a\<close> am n un
      by (simp add: extend_simps c_memcpy_Ptr take_map drop_map)
    have "dev_repr (set_partial \<lparr>buffptr = Ptr b, bsize = of_nat n\<rparr> ?t) ls ?bs"
      and "same s (set_partial \<lparr>buffptr = Ptr b, bsize = of_nat n\<rparr> ?t)"
      using dev_repr_new_partial [OF repr ok(2), of ?bs b ?t "of_nat n"] len n un
      by (simp_all add: take_eq_Nil)
    then show ?thesis using ext by (intro exI [of _ True]) simp
  qed
qed

lemma extend_nonempty_ok:
  assumes al: "allocator_ok INT_MAX (k_alloc K)" and repr: "dev_repr s ls p" and p: "p \<noteq> []"
    and am: "heap s a = Some (map Some data)" "a \<notin> set (owned s)"
    and n: "start + n \<le> length data" "0 < n" "length data \<le> INT_MAX"
  shows "\<exists>ok s'. extend_partial K (Ptr a) start n s = Some (ok, s') \<and> same s s' \<and>
     dev_repr s' ls (if ok then p @ take n (drop start data) else p)"
proof -
  let ?bs = "take n (drop start data)"
  have len: "length ?bs = n" using n by simp
  have un: "unat (of_nat n :: size_t) = n" using n by (intro unat_of_nat_size_t) simp
  obtain q where q: "buffptr (partial s) = Ptr q" "heap s q = Some (map Some p)"
      "unat (bsize (partial s)) = length p" "bsize (partial s) \<noteq> 0" "length p \<le> INT_MAX"
      "q \<in> set (owned s)"
    using dev_repr_partial(2) [OF repr p] by blast
  have sz: "unat (bsize (partial s) + of_nat n) = length p + n"
    using q n un by (subst unat_plus_size_t) simp_all
  show ?thesis
    using al
  proof (cases rule: c_alloc_cases [of INT_MAX "k_alloc K" "bsize (partial s) + of_nat n" s])
    case fail
    then show ?thesis using q(4) repr by (auto simp: extend_simps)
  next
    case (ok b)
    then have ne: "b \<noteq> a" "b \<noteq> q" "a \<noteq> q" using am q by auto
    let ?t = "s\<lparr>heap := (heap s)(b \<mapsto> map Some (p @ ?bs), q := None), calls := Suc (calls s)\<rparr>"
    have ext: "extend_partial K (Ptr a) start n s = Some (True,
        set_partial \<lparr>buffptr = Ptr b, bsize = bsize (partial s) + of_nat n\<rparr> ?t)"
      using ok(1) q ne am n sz
      by (simp add: extend_simps c_memcpy_Ptr c_free_Ptr take_map drop_map)
    have "dev_repr (set_partial \<lparr>buffptr = Ptr b, bsize = bsize (partial s) + of_nat n\<rparr> ?t) ls (p @ ?bs)"
      and "same s (set_partial \<lparr>buffptr = Ptr b, bsize = bsize (partial s) + of_nat n\<rparr> ?t)"
      using dev_repr_new_partial [OF repr ok(2), of "p @ ?bs" q ?t
          "bsize (partial s) + of_nat n"] p ok(3) ne q(1) len sz
      by (simp_all add: fun_upd_twist)
    then show ?thesis using ext by (intro exI [of _ True]) simp
  qed
qed

lemma extend_partial_ok:
  assumes "allocator_ok INT_MAX (k_alloc K)" and "dev_repr s ls p"
    and "heap s a = Some (map Some data)" "a \<notin> set (owned s)"
    and "start + n \<le> length data" "0 < n" "length data \<le> INT_MAX"
  shows "\<exists>ok s'. extend_partial K (Ptr a) start n s = Some (ok, s') \<and> same s s' \<and>
     dev_repr s' ls (if ok then p @ take n (drop start data) else p)"
proof (cases "p = []")
  case True
  show ?thesis
    using extend_empty_ok [OF assms(1) _ assms(3-7), of ls] assms(2) unfolding True append_Nil .
next
  case False
  then show ?thesis by (rule extend_nonempty_ok [OF assms(1,2) _ assms(3-7)])
qed

subsection \<open>Moving a line into the buffer\<close>

lemma zero_entry_eq: "\<lparr>buffptr = NULL, bsize = 0\<rparr> = zero_entry"
  by (simp add: zero_entry_def)

lemma add_line_ok:
  assumes repr: "dev_repr s ls p" and p: "p \<noteq> []"
  shows "\<exists>s'. add_line s = Some s' \<and> same s s' \<and> dev_repr s' (take_last MAX_OPS (ls @ [p])) []"
proof -
  have ring: "ring_inv (c_buffer (dev s))" and all: "list_all2 (holds (heap s)) (items s @ [partial s]) (ls @ [p])"
    and dist: "distinct (addrs (items s @ [partial s]))"
    using repr p by (auto simp: dev_repr_def slot_holds_def owned_def list_all2_appendI)
  have len: "length ls = length (items s)" using repr by (auto simp: dev_repr_def dest: list_all2_lengthD)
  obtain v b ow where push:
      "aesd_circular_buffer_add_entry (evicted_entry s) (c_buffer (dev s)) (partial s) = Some (v, b, ow)"
      "ring_inv b" "(if ow then [v] else []) @ ring_items b = items s @ [partial s]"
      "ow \<longleftrightarrow> length (items s) = MAX_OPS"
    using ring.push_step [OF ring] by metis
  let ?t = "s\<lparr>evicted_entry := v, dev := (dev s)\<lparr>c_buffer := b\<rparr>\<rparr>"
  show ?thesis
  proof (cases ow)
    case False
    have "length (items s) \<le> MAX_OPS" using ring by (rule ring.items_bounded)
    then have tl: "take_last MAX_OPS (ls @ [p]) = ls @ [p]"
      using False push(4) len by simp
    let ?s' = "set_partial zero_entry ?t"
    have "add_line s = Some ?s'"
      using push False by (simp add: add_line_def zero_entry_eq)
    moreover have "dev_repr ?s' (ls @ [p]) []"
      using push(2,3) False all dist by (simp add: dev_repr_def slot_holds_def owned_def)
    moreover have "same s ?s'"
      using push(3) False by (simp add: same_def foreign_def owned_def)
    ultimately show ?thesis using tl by simp
  next
    case True
    then have es: "items s @ [partial s] = v # ring_items b" and l: "length ls = MAX_OPS"
      using push(3,4) len by auto
    obtain l0 rest where lr: "ls @ [p] = l0 # rest" by (cases "ls @ [p]") auto
    have "length rest = MAX_OPS" using l arg_cong [OF lr, of length] by simp
    then have tl: "take_last MAX_OPS (ls @ [p]) = rest"
      unfolding lr take_last_def by simp
    have "holds (heap s) v l0" and rest: "list_all2 (holds (heap s)) (ring_items b) rest"
      using all es lr by simp_all
    then obtain q where q: "buffptr v = Ptr q" "heap s q \<noteq> None"
      by (auto simp: holds_iff)
    have dq: "q \<notin> set (addrs (ring_items b))" "distinct (addrs (ring_items b))"
      using dist es q(1) by simp_all
    let ?s' = "set_partial zero_entry
      (?t\<lparr>heap := (heap s)(q := None), evicted_entry := zero_entry\<rparr>)"
    obtain c where "heap s q = Some c" using q by blast
    then have "add_line s = Some ?s'"
      using push True q by (simp add: add_line_def c_free_def zero_entry_eq)
    moreover have "dev_repr ?s' rest []"
      using push(2) rest dq by (simp add: dev_repr_def slot_holds_def owned_def)
    moreover have "same s ?s'"
    proof -
      have o: "set (owned s) = insert q (set (addrs (ring_items b)))"
        unfolding owned_def es using q by simp
      have "foreign ?s' = foreign s"
        by (rule ext) (simp add: foreign_def restrict_map_def o, simp add: owned_def)
      then show ?thesis by (simp add: same_def)
    qed
    ultimately show ?thesis using tl by blast
  qed
qed

subsection \<open>The loop over the copied bytes\<close>

lemma free_and_unlock_ok:
  assumes repr: "dev_repr s ls p" and a: "heap s a = Some b" "a \<notin> set (owned s)" and "lock (dev s)"
  shows "\<exists>s'. free_and_unlock (Ptr a) s = Some s' \<and> dev_repr s' ls p \<and> \<not> lock (dev s') \<and>
           foreign s' = (foreign s)(a := None)"
proof -
  let ?s' = "s\<lparr>heap := (heap s)(a := None), dev := (dev s)\<lparr>lock := False\<rparr>\<rparr>"
  have ne: "a \<notin> set (addrs (items s))" "a \<notin> set (ptr_addrs (buffptr (partial s)))"
    using a by (simp_all add: owned_def)
  have "free_and_unlock (Ptr a) s = Some ?s'"
    using assms by (simp add: free_and_unlock_def c_free_def mutex_unlock_def)
  moreover have "dev_repr ?s' ls p"
    using repr ne by (auto simp: dev_repr_def owned_def slot_holds_def)
  moreover have "foreign ?s' = (foreign s)(a := None)"
    by (rule ext) (simp add: foreign_def owned_def restrict_map_def)
  ultimately show ?thesis by simp
qed

text \<open>What the loop leaves: it was cut short by a failed allocation after \<open>k\<close> lines, or every
  line is stored and \<open>drop st data\<close> is still to be joined to the partial entry.\<close>

definition loop_post ::
  "kstate \<Rightarrow> nat \<Rightarrow> byte list list \<Rightarrow> byte list \<Rightarrow> byte list \<Rightarrow> byte list list \<Rightarrow> byte list \<Rightarrow>
   flow \<Rightarrow> kstate \<Rightarrow> bool" where
  "loop_post s a ls p data new q fl s' \<longleftrightarrow>
     (case fl of
        Going st \<Rightarrow> same s s' \<and> st \<le> length data \<and>
          dev_repr s' (take_last MAX_OPS (ls @ new)) (if new = [] then p else []) \<and>
          (if new = [] then p else []) @ drop st data = q
      | Returned r \<Rightarrow> r = - ENOMEM \<and> \<not> lock (dev s') \<and> foreign s' = (foreign s)(a := None) \<and>
          (\<exists>k < length new. dev_repr s' (take_last MAX_OPS (ls @ take k new))
                              (if k = 0 then p else [])))"

lemma loop_post_cons:
  assumes "same s t"
    and "loop_post t a (take_last MAX_OPS (ls @ [l])) [] data new q fl s'"
  shows "loop_post s a ls p data (l # new) q fl s'"
proof (cases fl)
  case (Going st)
  then show ?thesis
    using assms take_last_append_take_last [of MAX_OPS "ls @ [l]" new]
    by (auto simp: loop_post_def elim: same_trans split: if_splits)
next
  case (Returned r)
  then obtain k where k: "k < length new"
      "dev_repr s' (take_last MAX_OPS (take_last MAX_OPS (ls @ [l]) @ take k new)) []"
    using assms(2) by (auto simp: loop_post_def)
  have "dev_repr s' (take_last MAX_OPS (ls @ take (Suc k) (l # new))) []"
    using k(2) take_last_append_take_last [of MAX_OPS "ls @ [l]" "take k new"] by simp
  then have "\<exists>k < length (l # new). dev_repr s' (take_last MAX_OPS (ls @ take k (l # new)))
      (if k = 0 then p else [])"
    using k(1) by (intro exI [of _ "Suc k"]) simp
  then show ?thesis using assms Returned by (auto simp: loop_post_def same_def)
qed

lemma take_slice_Suc:
  assumes "start \<le> j" and "j < length xs"
  shows "take (Suc j - start) (drop start xs) = take (j - start) (drop start xs) @ [xs ! j]"
  using assms by (simp add: Suc_diff_le take_Suc_conv_app_nth)

text \<open>A newline at \<open>j\<close>: the line is stored and added, or everything is put back.\<close>

lemma newline_step:
  assumes al: "allocator_ok INT_MAX (k_alloc K)" and repr: "dev_repr s ls p"
    and am: "heap s a = Some (map Some data)" "a \<notin> set (owned s)"
    and j: "start \<le> j" "j < length data" "length data \<le> INT_MAX" and lk: "lock (dev s)"
  obtains (fail) t u where "store_line K (Ptr a) start j s = Some (False, t)"
      and "free_and_unlock (Ptr a) t = Some u" and "dev_repr u ls p" and "\<not> lock (dev u)"
      and "foreign u = (foreign s)(a := None)"
  | (ok) t u where "store_line K (Ptr a) start j s = Some (True, t)" and "add_line t = Some u"
      and "same s u" and "lock (dev u)" and "heap u a = Some (map Some data)" and "a \<notin> set (owned u)"
      and "dev_repr u (take_last MAX_OPS (ls @ [p @ take (Suc j - start) (drop start data)])) []"
proof -
  have e: "Suc j - start = j - start + 1" and le: "start + (j - start + 1) \<le> length data" "0 < j - start + 1"
    using j by simp_all
  let ?l = "p @ take (Suc j - start) (drop start data)"
  obtain stored t where st: "store_line K (Ptr a) start j s = Some (stored, t)" "same s t"
      "dev_repr t ls (if stored then ?l else p)"
    using extend_partial_ok [OF al repr am le j(3)]
    unfolding store_line_extend [OF j(1), symmetric] e by blast
  have at: "heap t a = Some (map Some data)" "a \<notin> set (owned t)" and lt: "lock (dev t)"
    using foreign_block [OF am] st(2) lk by (auto simp: same_def)
  show thesis
  proof (cases stored)
    case False
    then show thesis
      using free_and_unlock_ok [OF _ at lt, of ls p] st fail by (auto simp: same_def)
  next
    case True
    have "?l \<noteq> []" using j by (simp add: take_eq_Nil)
    then obtain u where u: "add_line t = Some u" "same t u" "dev_repr u (take_last MAX_OPS (ls @ [?l])) []"
      using add_line_ok [of t ls ?l] st(3) True by auto
    have "heap u a = Some (map Some data)" "a \<notin> set (owned u)" "lock (dev u)"
      using foreign_block [OF at] u(2) lt by (auto simp: same_def)
    then show thesis
      using ok [of t u] st True u by (auto intro: same_trans)
  qed
qed

lemma write_loop_ok:
  assumes al: "allocator_ok INT_MAX (k_alloc K)" and small: "length data \<le> INT_MAX"
  shows "dev_repr s ls p \<Longrightarrow> heap s a = Some (map Some data) \<Longrightarrow> a \<notin> set (owned s) \<Longrightarrow>
    start \<le> j \<Longrightarrow> j \<le> length data \<Longrightarrow> lock (dev s) \<Longrightarrow>
    feed (p @ take (j - start) (drop start data)) (drop j data) = (new, q) \<Longrightarrow>
    \<exists>fl s'. write_loop K (Ptr a) (length data) j start s = Some (fl, s') \<and>
      loop_post s a ls p data new q fl s'"
proof (induction "length data - j" arbitrary: s ls p j start new rule: less_induct)
  case less
  note prems = less.prems and step = write_loop.simps [of K "Ptr a" "length data" j start s]
  show ?case
  proof (cases "j < length data")
    case False
    then have "j = length data" using prems by simp
    then have "new = []" "q = p @ drop start data" using prems by simp_all
    then have "loop_post s a ls p data new q (Going start) s"
      using prems(1,4,5) dev_repr_length [OF prems(1)] by (simp add: loop_post_def)
    then show ?thesis using step False by auto
  next
    case True
    let ?c = "data ! j" and ?l = "p @ take (Suc j - start) (drop start data)"
    have ld: "load_byte (heap s) (Ptr a) j = Some ?c"
      using prems(2) True by (simp add: load_byte_Ptr)
    have dr: "drop j data = ?c # drop (Suc j) data" using True by (simp add: Cons_nth_drop_Suc)
    have x: "(p @ take (j - start) (drop start data)) @ [?c] = ?l"
      using prems(4) True by (simp add: take_slice_Suc)
    show ?thesis
    proof (cases "?c = NEWLINE")
      case False
      have "feed ?l (drop (Suc j) data) = (new, q)"
        using prems(7) False unfolding dr x [symmetric] by simp
      then have "\<exists>fl s'. write_loop K (Ptr a) (length data) (Suc j) start s = Some (fl, s') \<and>
          loop_post s a ls p data new q fl s'"
        using prems True by (intro less.hyps) simp_all
      then show ?thesis using step True ld False by simp
    next
      case nl: True
      obtain new' where new: "new = ?l # new'" and rest: "feed [] (drop (Suc j) data) = (new', q)"
        using prems(7) nl unfolding dr x [symmetric] by (auto split: prod.splits)
      show ?thesis
      proof (cases rule: newline_step [OF al prems(1-4) True small prems(6)])
        case (1 t u)
        then have "loop_post s a ls p data new q (Returned (- ENOMEM)) u"
          using new dev_repr_length [OF prems(1)] by (auto simp: loop_post_def intro!: exI [of _ 0])
        then show ?thesis using step True ld nl 1(1,2) by auto
      next
        case (2 t u)
        then have "\<exists>fl s'. write_loop K (Ptr a) (length data) (Suc j) (Suc j) u = Some (fl, s') \<and>
            loop_post u a (take_last MAX_OPS (ls @ [?l])) [] data new' q fl s'"
          using True rest by (intro less.hyps) simp_all
        then show ?thesis
          using step True ld nl 2(1,2) loop_post_cons [OF 2(3)] unfolding new by fastforce
      qed
    qed
  qed
qed

subsection \<open>The device as a log\<close>

definition content :: "heap \<Rightarrow> aesd_buffer_entry \<Rightarrow> byte list" where
  "content h e = (case buffptr e of
      NULL \<Rightarrow> []
    | Ptr a \<Rightarrow> (case h a of None \<Rightarrow> [] | Some cs \<Rightarrow> map the cs))"

definition dev_log :: "kstate \<Rightarrow> line_log" where
  "dev_log s = \<lparr>lines = map (content (heap s)) (items s), pending = content (heap s) (partial s)\<rparr>"

definition dev_inv :: "kstate \<Rightarrow> bool" where
  "dev_inv s \<longleftrightarrow> dev_repr s (lines (dev_log s)) (pending (dev_log s)) \<and> log_wf (dev_log s) \<and>
     \<not> lock (dev s)"

lemma content_holds: "holds h e bs \<Longrightarrow> content h e = bs"
  by (auto simp: holds_iff content_def comp_def)

lemma content_slot: "slot_holds h e bs \<Longrightarrow> content h e = bs"
  by (auto simp: slot_holds_def content_def dest: content_holds split: if_splits)

lemma content_list: "list_all2 (holds h) es ls \<Longrightarrow> map (content h) es = ls"
  by (induction rule: list_all2_induct) (simp_all add: content_holds)

lemma log_eta: "\<lparr>lines = lines L, pending = pending L\<rparr> = L"
  by simp

lemma dev_log_repr: "dev_repr s ls p \<Longrightarrow> dev_log s = \<lparr>lines = ls, pending = p\<rparr>"
  by (simp add: dev_repr_def dev_log_def content_list content_slot)

lemma dev_invI: "dev_repr s ls p \<Longrightarrow> log_wf \<lparr>lines = ls, pending = p\<rparr> \<Longrightarrow> \<not> lock (dev s) \<Longrightarrow> dev_inv s"
  by (simp add: dev_inv_def dev_log_repr)

lemma dev_invD:
  assumes "dev_inv s"
  shows "dev_repr s (lines (dev_log s)) (pending (dev_log s))" and "log_wf (dev_log s)"
    and "\<not> lock (dev s)"
  using assms by (simp_all add: dev_inv_def)

subsection \<open>Write\<close>

definition user_bytes :: "(nat \<Rightarrow> byte) \<Rightarrow> size_t \<Rightarrow> byte list" where
  "user_bytes ubuf n = map ubuf [0..<unat n]"

text \<open>Everything a write may do to the log, with its return value.\<close>

definition write_result :: "int \<Rightarrow> byte list \<Rightarrow> line_log \<Rightarrow> line_log \<Rightarrow> bool" where
  "write_result r d L L' \<longleftrightarrow>
     r = int (length d) \<and> L' = log_write d L \<or>
     (r = - ERESTARTSYS \<or> r = - EFAULT) \<and> L' = L \<or>
     r = - ENOMEM \<and> (\<exists>k \<le> length (fst (feed (pending L) d)). L' = log_write_partial k d L)"

lemma write_result_wf: "write_result r d L L' \<Longrightarrow> log_wf L \<Longrightarrow> log_wf L'"
  by (auto simp: write_result_def log_wf_write log_wf_write_partial)

lemma alloc_repr:
  assumes repr: "dev_repr s ls p" and fresh: "heap s a = None"
  shows "dev_repr (s\<lparr>heap := (heap s)(a \<mapsto> b), calls := c\<rparr>) ls p"
    and "a \<notin> set (owned (s\<lparr>heap := (heap s)(a \<mapsto> b), calls := c\<rparr>))"
    and "foreign (s\<lparr>heap := (heap s)(a \<mapsto> b), calls := c\<rparr>) = (foreign s)(a \<mapsto> b)"
    and "foreign s a = None"
proof -
  let ?t = "s\<lparr>heap := (heap s)(a \<mapsto> b), calls := c\<rparr>"
  have a: "a \<notin> set (addrs (items s))" "a \<notin> set (ptr_addrs (buffptr (partial s)))"
    using owned_allocated [OF assms] by auto
  show "dev_repr ?t ls p"
    using repr a by (auto simp: dev_repr_def owned_def slot_holds_def)
  show "a \<notin> set (owned ?t)" using a by (simp add: owned_def)
  show "foreign ?t = (foreign s)(a \<mapsto> b)"
    using a by (intro ext) (simp add: foreign_def owned_def restrict_map_def)
  show "foreign s a = None" using fresh by (simp add: foreign_def restrict_map_def)
qed

lemma store_rest_ok:
  assumes al: "allocator_ok INT_MAX (k_alloc K)" and repr: "dev_repr s ls p"
    and am: "heap s a = Some (map Some data)" "a \<notin> set (owned s)"
    and st: "st \<le> length data" "length data \<le> INT_MAX"
  shows "\<exists>ok s'. (if st < length data then store_rest K (Ptr a) st (length data) s else Some (True, s)) =
      Some (ok, s') \<and> same s s' \<and> dev_repr s' ls (if ok then p @ drop st data else p)"
proof (cases "st < length data")
  case True
  have "length data < 2 ^ 64" using st(2) by simp
  then have e: "store_rest K (Ptr a) st (length data) s = extend_partial K (Ptr a) st (length data - st) s"
    by (rule store_rest_extend [OF st(1)])
  have tk: "take (length data - st) (drop st data) = drop st data" by simp
  have le: "st + (length data - st) \<le> length data" "0 < length data - st" using True by simp_all
  then obtain ok s' where "store_rest K (Ptr a) st (length data) s = Some (ok, s')" "same s s'"
      "dev_repr s' ls (if ok then p @ drop st data else p)"
    using extend_partial_ok [OF al repr am le st(2)] unfolding tk e by blast
  then show ?thesis using True by (intro exI [of _ ok] exI [of _ s']) simp
next
  case False
  then show ?thesis using repr by auto
qed

text \<open>The part of the write that runs once the bytes are copied.\<close>

definition write_body :: "kernel \<Rightarrow> ptr \<Rightarrow> size_t \<Rightarrow> kstate \<Rightarrow> (int \<times> kstate) option" where
  "write_body K am n s =
     do { (fl, s) \<leftarrow> write_loop K am (unat n) 0 0 s;
          case fl of
            Returned r \<Rightarrow> Some (r, s)
          | Going start \<Rightarrow> do {
              (stored, s) \<leftarrow> (if start < unat n then store_rest K am start (unat n) s else Some (True, s));
              s \<leftarrow> free_and_unlock am s;
              Some (if stored then sint n else - ENOMEM, s) } }"

lemma write_body_ok:
  assumes al: "allocator_ok INT_MAX (k_alloc K)" and repr: "dev_repr s ls p"
    and am: "heap s a = Some (map Some data)" "a \<notin> set (owned s)" and lk: "lock (dev s)"
    and n: "unat n = length data" "length data \<le> INT_MAX"
  shows "\<exists>r s' ls' p'. write_body K (Ptr a) n s = Some (r, s') \<and> dev_repr s' ls' p' \<and> \<not> lock (dev s') \<and>
    foreign s' = (foreign s)(a := None) \<and>
    write_result r data \<lparr>lines = ls, pending = p\<rparr> \<lparr>lines = ls', pending = p'\<rparr>"
proof -
  obtain new q where f: "feed p data = (new, q)" by fastforce
  have f0: "feed (p @ take (0 - 0) (drop 0 data)) (drop 0 data) = (new, q)" using f by simp
  obtain fl t where loop: "write_loop K (Ptr a) (length data) 0 0 s = Some (fl, t)"
      "loop_post s a ls p data new q fl t"
    using write_loop_ok [OF al n(2) repr am _ _ lk f0] by auto
  show ?thesis
  proof (cases fl)
    case (Returned r)
    then obtain k where k: "k < length new"
        "dev_repr t (take_last MAX_OPS (ls @ take k new)) (if k = 0 then p else [])"
      using loop(2) by (auto simp: loop_post_def)
    have "write_result r data \<lparr>lines = ls, pending = p\<rparr>
        \<lparr>lines = take_last MAX_OPS (ls @ take k new), pending = if k = 0 then p else []\<rparr>"
      using loop(2) Returned k(1) f
      by (auto simp: loop_post_def write_result_def log_write_partial_def intro!: exI [of _ k])
    then show ?thesis
      using loop n Returned k(2) by (auto simp: write_body_def loop_post_def)
  next
    case (Going st)
    let ?ls = "take_last MAX_OPS (ls @ new)" and ?p = "if new = [] then p else []"
    have post: "same s t" "st \<le> length data" "dev_repr t ?ls ?p" "?p @ drop st data = q"
      using loop(2) Going by (auto simp: loop_post_def)
    have at: "heap t a = Some (map Some data)" "a \<notin> set (owned t)"
      using foreign_block [OF am] post(1) by (auto simp: same_def)
    obtain ok u where u: "(if st < length data then store_rest K (Ptr a) st (length data) t
        else Some (True, t)) = Some (ok, u)" "same t u" "dev_repr u ?ls (if ok then q else ?p)"
      using store_rest_ok [OF al post(3) at post(2) n(2)] unfolding post(4) by blast
    have au: "heap u a = Some (map Some data)" "a \<notin> set (owned u)" "lock (dev u)"
      using foreign_block [OF at] u(2) post(1) lk by (auto simp: same_def)
    obtain v where v: "free_and_unlock (Ptr a) u = Some v" "dev_repr v ?ls (if ok then q else ?p)"
        "\<not> lock (dev v)" "foreign v = (foreign u)(a := None)"
      using free_and_unlock_ok [OF u(3) au] by blast
    have "sint n = int (length data)" using n by (subst sint_size_t_small) simp_all
    then have "write_body K (Ptr a) n s = Some (if ok then int (length data) else - ENOMEM, v)"
      using loop(1) Going u(1) v(1) n(1)
      by (cases ok; cases "st < length data") (simp_all add: write_body_def)
    moreover have "write_result (if ok then int (length data) else - ENOMEM) data
        \<lparr>lines = ls, pending = p\<rparr> \<lparr>lines = ?ls, pending = if ok then q else ?p\<rparr>"
      using f by (auto simp: write_result_def log_write_def log_write_partial_def
          intro!: exI [of _ "length new"])
    moreover have "foreign v = (foreign s)(a := None)"
      using v(4) u(2) post(1) by (simp add: same_def)
    ultimately show ?thesis using v(2,3) by blast
  qed
qed

lemma write_copied_ok:
  assumes al: "allocator_ok INT_MAX (k_alloc K)" and repr: "dev_repr s ls p" and lk: "lock (dev s)"
    and fresh: "heap s a = None" and n: "unat n \<le> INT_MAX"
  shows "\<exists>r s' ls' p'.
    do { (not_copied_bytes, s) \<leftarrow> copy_from_user K (Ptr a) ubuf (unat n)
           (s\<lparr>heap := (heap s)(a \<mapsto> replicate (unat n) None), calls := Suc (calls s)\<rparr>);
         if not_copied_bytes \<noteq> 0 then do { s \<leftarrow> free_and_unlock (Ptr a) s; Some (- EFAULT, s) }
         else write_body K (Ptr a) n s } = Some (r, s') \<and> dev_repr s' ls' p' \<and> \<not> lock (dev s') \<and>
    foreign s' = foreign s \<and>
    write_result r (user_bytes ubuf n) \<lparr>lines = ls, pending = p\<rparr> \<lparr>lines = ls', pending = p'\<rparr>"
proof -
  let ?r = "k_uncopied K (Suc (calls s)) (unat n)"
  let ?b = "map (\<lambda>i. Some (ubuf i)) [0..<unat n - ?r] @ drop (unat n - ?r) (replicate (unat n) None)"
  let ?t = "s\<lparr>heap := (heap s)(a \<mapsto> ?b), calls := Suc (Suc (calls s))\<rparr>"
  have cp: "copy_from_user K (Ptr a) ubuf (unat n)
      (s\<lparr>heap := (heap s)(a \<mapsto> replicate (unat n) None), calls := Suc (calls s)\<rparr>) = Some (?r, ?t)"
    by (simp add: copy_from_user_def store_cells_def Let_def)
  note t = alloc_repr(1-3) [OF repr fresh, where b = ?b and c = "Suc (Suc (calls s))"]
  have restored: "(foreign ?t)(a := None) = foreign s"
    using t(3) alloc_repr(4) [OF repr fresh] by (simp add: fun_upd_idem)
  have at: "heap ?t a = Some ?b" "lock (dev ?t)" using lk by simp_all
  show ?thesis
  proof (cases "?r = 0")
    case True
    then have "?b = map Some (user_bytes ubuf n)" by (simp add: user_bytes_def)
    moreover have "unat n = length (user_bytes ubuf n)" by (simp add: user_bytes_def)
    ultimately show ?thesis
      using write_body_ok [OF al t(1) _ t(2) at(2), of "user_bytes ubuf n" n] at(1) n cp True restored by simp
  next
    case False
    obtain u where "free_and_unlock (Ptr a) ?t = Some u" "dev_repr u ls p" "\<not> lock (dev u)"
        "foreign u = foreign s"
      using free_and_unlock_ok [OF t(1) at(1) t(2) at(2)] restored by auto
    then show ?thesis using cp False by (auto simp: write_result_def)
  qed
qed

lemma aesd_write_unfold:
  "aesd_write K filp ubuf n s =
     (if n = 0 then Some (0, s)
      else do {
        _ \<leftarrow> get_dev filp s;
        (intr, s) \<leftarrow> mutex_lock_interruptible K s;
        if intr then Some (- ERESTARTSYS, s)
        else
          let (am, s) = c_alloc (k_alloc K) n s in
          if am = NULL then do { s \<leftarrow> mutex_unlock s; Some (- ENOMEM, s) }
          else do {
            (not_copied_bytes, s) \<leftarrow> copy_from_user K am ubuf (unat n) s;
            if not_copied_bytes \<noteq> 0 then
              do { s \<leftarrow> free_and_unlock am s; Some (- EFAULT, s) }
            else write_body K am n s } })"
  unfolding aesd_write_def write_body_def by (rule refl)

lemma lock_repr:
  assumes "dev_repr s ls p"
  shows "dev_repr (s\<lparr>calls := c, dev := (dev s)\<lparr>lock := l\<rparr>\<rparr>) ls p"
    and "foreign (s\<lparr>calls := c, dev := (dev s)\<lparr>lock := l\<rparr>\<rparr>) = foreign s"
  using assms by (simp_all add: dev_repr_def owned_def foreign_def)

lemma aesd_write_repr:
  assumes K: "kernel_ok K" and repr: "dev_repr s ls p" and lk: "\<not> lock (dev s)"
    and f: "private_data filp = aesd_device"
  shows "\<exists>r s' ls' p'. aesd_write K filp ubuf n s = Some (r, s') \<and> dev_repr s' ls' p' \<and>
    \<not> lock (dev s') \<and> foreign s' = foreign s \<and>
    write_result r (user_bytes ubuf n) \<lparr>lines = ls, pending = p\<rparr> \<lparr>lines = ls', pending = p'\<rparr>"
proof -
  have al: "allocator_ok INT_MAX (k_alloc K)" using K by (simp add: kernel_ok_def)
  have idle: "write_result (- ENOMEM) d \<lparr>lines = ls, pending = p\<rparr> \<lparr>lines = ls, pending = p\<rparr>" for d
    using dev_repr_length [OF repr]
    by (auto simp: write_result_def log_write_partial_def intro!: exI [of _ 0])
  consider "n = 0" | "n \<noteq> 0" "k_intr K (calls s)" | "n \<noteq> 0" "\<not> k_intr K (calls s)" by blast
  then show ?thesis
  proof cases
    case 1
    then show ?thesis
      using repr lk dev_repr_length [OF repr]
      by (auto simp: aesd_write_unfold write_result_def user_bytes_def log_write_def)
  next
    case 2
    then show ?thesis
      using repr lk f by (auto simp: aesd_write_unfold get_dev_def mutex_lock_interruptible_def
          Let_def write_result_def same_calls [unfolded same_def])
  next
    case 3
    let ?s1 = "s\<lparr>calls := Suc (calls s), dev := (dev s)\<lparr>lock := True\<rparr>\<rparr>"
    have s1: "dev_repr ?s1 ls p" "foreign ?s1 = foreign s" "lock (dev ?s1)"
      using lock_repr [OF repr] by simp_all
    have lock: "mutex_lock_interruptible K s = Some (False, ?s1)"
      using 3 lk by (simp add: mutex_lock_interruptible_def)
    show ?thesis
      using al
    proof (cases rule: c_alloc_cases [of INT_MAX "k_alloc K" n ?s1])
      case fail
      let ?u = "s\<lparr>calls := Suc (Suc (calls s)), dev := (dev s)\<lparr>lock := False\<rparr>\<rparr>"
      have "aesd_write K filp ubuf n s = Some (- ENOMEM, ?u)"
        using 3 f lock fail by (simp add: aesd_write_unfold get_dev_def mutex_unlock_def)
      moreover have "dev_repr ?u ls p" "foreign ?u = foreign s" "\<not> lock (dev ?u)"
        using lock_repr [OF repr] by simp_all
      ultimately show ?thesis using idle by blast
    next
      case (ok a)
      show ?thesis
        using write_copied_ok [OF al s1(1,3) ok(2,3), of ubuf] s1(2) 3 f lock ok(1)
        by (simp add: aesd_write_unfold get_dev_def)
    qed
  qed
qed

text \<open>A write from a good state: it returns, it never has undefined behaviour, the mutex is free
  again, nothing leaks, and the log changes as the return value says.\<close>

lemma aesd_write_ok:
  assumes K: "kernel_ok K" and inv: "dev_inv s" and f: "private_data filp = aesd_device"
  shows "\<exists>r s'. aesd_write K filp ubuf n s = Some (r, s') \<and> dev_inv s' \<and> foreign s' = foreign s \<and>
    write_result r (user_bytes ubuf n) (dev_log s) (dev_log s')"
proof -
  obtain r s' ls' p' where w: "aesd_write K filp ubuf n s = Some (r, s')" "dev_repr s' ls' p'"
      "\<not> lock (dev s')" "foreign s' = foreign s"
      "write_result r (user_bytes ubuf n) (dev_log s) \<lparr>lines = ls', pending = p'\<rparr>"
    using aesd_write_repr [OF K dev_invD(1,3) [OF inv] f] unfolding log_eta by blast
  have "log_wf \<lparr>lines = ls', pending = p'\<rparr>"
    using w(5) dev_invD(2) [OF inv] by (rule write_result_wf)
  then have "dev_inv s'" using w(2,3) by (intro dev_invI)
  then show ?thesis using w dev_log_repr [OF w(2)] by auto
qed

end
