(* ===== verification/Driver_Access.thy ===== *)
theory Driver_Access
  imports Driver_Correct
begin

text \<open>
  Correctness of the operations that look at the device: \<open>aesd_read\<close>, \<open>aesd_lseek\<close> and the seek
  request of \<open>aesd_ioctl\<close>. None of them changes the log; each returns what the log operation of the
  same name does.
\<close>

subsection \<open>What the invariant says about the buffer\<close>

lemma unat_sum_list_words:
  "sum_list (map unat ws) < 2 ^ 64 \<Longrightarrow> unat (sum_list (ws :: size_t list)) = sum_list (map unat ws)"
proof (induction ws)
  case Nil
  then show ?case by simp
next
  case (Cons w ws)
  then have "unat (sum_list ws) = sum_list (map unat ws)" by simp
  then show ?case using Cons.prems by (simp add: unat_plus_size_t)
qed

lemma repr_sizes: "dev_repr s ls p \<Longrightarrow> sizes (items s) = map length ls"
proof -
  assume "dev_repr s ls p"
  then have "list_all2 (holds (heap s)) (items s) ls" by (simp add: dev_repr_def)
  then show ?thesis by (induction rule: list_all2_induct) (simp_all add: holds_iff)
qed

lemma repr_nth: "dev_repr s ls p \<Longrightarrow> k < length ls \<Longrightarrow> holds (heap s) (items s ! k) (ls ! k)"
  by (auto simp: dev_repr_def dest: list_all2_nthD2)

lemma repr_length: "dev_repr s ls p \<Longrightarrow> length (items s) = length ls"
  by (auto simp: dev_repr_def dest: list_all2_lengthD)

lemma repr_ring: "dev_repr s ls p \<Longrightarrow> ring_inv (c_buffer (dev s))"
  by (simp add: dev_repr_def)

lemma repr_total:
  assumes "dev_repr s ls p"
  shows "sum_list (map length ls) \<le> 10 * INT_MAX"
proof -
  have "\<And>x. x \<in> set (map length ls) \<Longrightarrow> x \<le> INT_MAX"
    using repr_nth [OF assms] by (auto simp: in_set_conv_nth holds_iff)
  then have "sum_list (map length ls) \<le> length (map length ls) * INT_MAX"
    by (rule sum_list_bound)
  also have "\<dots> \<le> 10 * INT_MAX" using dev_repr_length [OF assms] by simp
  finally show ?thesis .
qed

lemma repr_find:
  assumes "dev_repr s ls p"
  shows "aesd_circular_buffer_find_entry_offset_for_fpos (c_buffer (dev s)) off =
    Some (map_option (\<lambda>(k, r). ((unat (out_offs (c_buffer (dev s))) + k) mod 10, of_nat r))
           (locate (map length ls) (unat off)))"
  using find_correct [OF repr_ring [OF assms], of off] repr_total [OF assms] repr_sizes [OF assms]
  by (simp add: ring_total_def)

text \<open>The state after an operation that only took and released the mutex.\<close>

abbreviation idle :: "nat \<Rightarrow> kstate \<Rightarrow> kstate" where
  "idle c s \<equiv> s\<lparr>calls := c, dev := (dev s)\<lparr>lock := False\<rparr>\<rparr>"

lemma idle_ok:
  assumes "dev_inv s"
  shows "dev_inv (idle c s)" and "dev_log (idle c s) = dev_log s" and "foreign (idle c s) = foreign s"
proof -
  note r = dev_invD [OF assms]
  note i = lock_repr [OF r(1), where c = c and l = False]
  show "foreign (idle c s) = foreign s" by (rule i(2))
  show l: "dev_log (idle c s) = dev_log s" using dev_log_repr [OF i(1)] by simp
  show "dev_inv (idle c s)" using i(1) r(2) by (simp add: dev_inv_def l)
qed

lemma dev_inv_lock_False: "dev_inv s \<Longrightarrow> (dev s)\<lparr>lock := False\<rparr> = dev s"
  by (cases "dev s") (simp add: dev_inv_def)

subsection \<open>Read\<close>

definition read_result ::
  "int \<Rightarrow> byte list \<Rightarrow> size_t \<Rightarrow> loff_t \<Rightarrow> loff_t \<Rightarrow> line_log \<Rightarrow> bool" where
  "read_result r out n fpos pos L \<longleftrightarrow>
     r = - ERESTARTSYS \<and> out = [] \<and> pos = fpos \<or>
     r = - EFAULT \<and> pos = fpos \<and> (\<exists>m. out = take m (log_read (unat fpos) (unat n) L)) \<or>
     out = log_read (unat fpos) (unat n) L \<and> r = int (length out) \<and> pos = fpos + of_nat (length out)"

text \<open>The clamp of the count, without overflow for the counts that reach a driver.\<close>

lemma read_clamp:
  fixes n sz :: size_t
  assumes "unat n \<le> MAX_RW_COUNT" and "off < unat sz" and "unat sz \<le> INT_MAX"
  defines "c \<equiv> (if n + of_nat off \<ge> sz then sz - of_nat off else n)"
  shows "unat c = min (unat n) (unat sz - off)"
proof -
  have o: "unat (of_nat off :: size_t) = off" using assms(2,3) by (intro unat_of_nat_size_t) simp
  have s: "unat (n + of_nat off) = unat n + off"
    using assms(1-3) o by (subst unat_plus_size_t) simp_all
  have "(of_nat off :: size_t) \<le> sz" using assms(2) o by (simp add: word_le_nat_alt)
  then have "unat (sz - of_nat off) = unat sz - off" using o by (simp add: unat_minus_size_t)
  then show ?thesis using s assms(2) by (auto simp: c_def word_le_nat_alt)
qed

lemma read_result_copy:
  assumes "out = log_read (unat fpos) (unat n) L" and "length out = unat c"
    and "sint c = int (length out)" and "c = of_nat (length out)"
  shows "read_result (if r \<noteq> 0 then - EFAULT else sint c) (take (unat c - r) out) n fpos
    (if r \<noteq> 0 then fpos else fpos + c) L"
proof (cases "r = 0")
  case True
  then have "take (unat c - r) out = out" using assms(2) by simp
  then show ?thesis using True assms(1,3,4) by (simp only: read_result_def) simp
next
  case False
  then show ?thesis using assms(1) by (auto simp: read_result_def)
qed

lemma aesd_read_ok:
  assumes K: "kernel_ok K" and inv: "dev_inv s" and f: "private_data filp = aesd_device"
    and n: "unat n \<le> MAX_RW_COUNT"
  shows "\<exists>r out pos s'. aesd_read K filp n fpos s = Some (r, out, pos, s') \<and> dev_inv s' \<and>
    foreign s' = foreign s \<and> dev_log s' = dev_log s \<and> read_result r out n fpos pos (dev_log s)"
proof -
  let ?L = "dev_log s" and ?b = "c_buffer (dev s)"
  note repr = dev_invD(1) [OF inv]
  note i = idle_ok [OF inv]
  consider "k_intr K (calls s)" | "\<not> k_intr K (calls s)" "locate (map length (lines ?L)) (unat fpos) = None"
    | k off where "\<not> k_intr K (calls s)" "locate (map length (lines ?L)) (unat fpos) = Some (k, off)"
    by (metis old.prod.exhaust option.exhaust)
  then show ?thesis
  proof cases
    case 1
    then show ?thesis
      using f i [of "Suc (calls s)"]
      by (auto simp: aesd_read_def get_dev_def mutex_lock_interruptible_def read_result_def
          dev_inv_lock_False [OF inv])
  next
    case 2
    then have "aesd_read K filp n fpos s = Some (0, [], fpos, idle (Suc (calls s)) s)"
      using f repr_find [OF repr, of fpos] dev_invD(3) [OF inv]
      by (simp add: aesd_read_def get_dev_def mutex_lock_interruptible_def mutex_unlock_def)
    moreover have "read_result 0 [] n fpos fpos ?L"
      using 2 by (simp add: read_result_def log_read_def)
    ultimately show ?thesis using i by blast
  next
    case 3
    let ?e = "items s ! k" and ?l = "lines ?L ! k"
    have k: "k < length (lines ?L)" "off < length ?l"
      using locate_Some [OF 3(2)] by auto
    obtain a where e: "buffptr ?e = Ptr a" "heap s a = Some (map Some ?l)"
        "unat (bsize ?e) = length ?l" "length ?l \<le> INT_MAX"
      using repr_nth [OF repr k(1)] by (auto simp: holds_iff)
    have at: "entry_at ?b ((unat (out_offs ?b) + k) mod 10) = Some ?e"
      using ring_items_nth [OF repr_ring [OF repr]] k(1) repr_length [OF repr] by simp
    let ?c = "if n + of_nat off \<ge> bsize ?e then bsize ?e - of_nat off else n"
    let ?r = "k_uncopied K (Suc (calls s)) (unat ?c)" and ?out = "take (unat ?c) (drop off ?l)"
    have c: "unat ?c = min (unat n) (length ?l - off)"
      using read_clamp [of n off "bsize ?e"] n k(2) e(3,4) by simp
    have out: "?out = log_read (unat fpos) (unat n) ?L"
      using 3(2) by (simp add: log_read_def c min_def)
    have len: "length ?out = unat ?c" by (simp add: c)
    have "unat (of_nat off :: size_t) = off"
      using k(2) e(4) by (intro unat_of_nat_size_t) simp
    then have "copy_to_user K (Ptr a) (unat (of_nat off :: size_t)) (unat ?c)
        (s\<lparr>calls := Suc (calls s), dev := (dev s)\<lparr>lock := True\<rparr>\<rparr>) =
        Some (?r, take (unat ?c - ?r) ?out,
          s\<lparr>calls := Suc (Suc (calls s)), dev := (dev s)\<lparr>lock := True\<rparr>\<rparr>)"
      using e(2) k(2) c by (simp add: copy_to_user_def Let_def load_bytes_Ptr)
    then have read: "aesd_read K filp n fpos s = Some
        (if ?r \<noteq> 0 then - EFAULT else sint ?c, take (unat ?c - ?r) ?out,
         if ?r \<noteq> 0 then fpos else fpos + ?c, idle (Suc (Suc (calls s))) s)"
      using f 3 at e(1) repr_find [OF repr, of fpos] dev_invD(3) [OF inv]
      by (simp add: aesd_read_def get_dev_def mutex_lock_interruptible_def mutex_unlock_def Let_def)
    have "unat ?c < 2 ^ 63" using c e(4) by simp
    then have "sint ?c = int (length ?out)" "?c = of_nat (length ?out)"
      unfolding len by (simp_all add: sint_size_t_small)
    note read_result_copy [OF out len this, of ?r]
    then show ?thesis using read i by blast
  qed
qed

subsection \<open>The size of the device\<close>

lemma total_from_sum:
  "length (entry b) = 10 \<Longrightarrow> i \<le> 10 \<Longrightarrow>
   total_from b i acc = Some (acc + sum_list (map bsize (drop i (entry b))))"
proof (induction "10 - i" arbitrary: i acc)
  case 0
  then have "i = 10" by simp
  then show ?case using 0 by (simp add: total_from.simps [of b 10])
next
  case (Suc m)
  then have "i < 10" by simp
  then have "total_from b i acc = total_from b (Suc i) (acc + bsize (entry b ! i))"
    using Suc.prems by (simp add: total_from.simps [of b i] entry_at_def)
  also have "\<dots> = Some (acc + bsize (entry b ! i) + sum_list (map bsize (drop (Suc i) (entry b))))"
    using Suc by (intro Suc.hyps(1)) simp_all
  finally show ?case
    using \<open>i < 10\<close> Suc.prems by (simp add: Cons_nth_drop_Suc [symmetric] add.assoc)
qed

lemma sum_zero_entries: "set es \<subseteq> {zero_entry} \<Longrightarrow> sum_list (map bsize es) = 0"
  by (induction es) auto

lemma ring_items_sum:
  assumes "ring_inv b"
  shows "sum_list (map bsize (entry b)) = sum_list (map bsize (ring_items b))"
proof (cases "full b")
  case True
  have "sum_list (map bsize (rotate k (entry b))) = sum_list (map bsize (entry b))" for k
    by (simp add: rotate_drop_take, subst add.commute)
      (simp flip: sum_list.append map_append)
  then show ?thesis using True by (simp add: ring_items_def)
next
  case False
  let ?i = "unat (in_offs b)"
  have "sum_list (map bsize (drop ?i (entry b))) = 0"
    using assms False by (intro sum_zero_entries) (simp add: ring_inv_def ring_unused_def)
  moreover have "sum_list (map bsize (entry b)) =
      sum_list (map bsize (take ?i (entry b))) + sum_list (map bsize (drop ?i (entry b)))"
    by (simp flip: sum_list.append map_append)
  ultimately show ?thesis using False by (simp add: ring_items_def)
qed

lemma get_total_size_ok:
  assumes "dev_repr s ls p"
  shows "\<exists>t. get_total_size (c_buffer (dev s)) = Some t \<and> unat t = length (concat ls)"
proof -
  let ?b = "c_buffer (dev s)" and ?t = "sum_list (map bsize (items s))"
  have inv: "ring_inv ?b" by (rule repr_ring [OF assms])
  then have "get_total_size ?b = Some ?t"
    using total_from_sum [of ?b 0 0] ring_items_sum [OF inv]
    by (simp add: get_total_size_def ring_inv_def ring_shape_def)
  moreover have "map unat (map bsize (items s)) = map length ls"
    using repr_sizes [OF assms] by (simp add: comp_def)
  then have "unat ?t = sum_list (map length ls)"
    using repr_total [OF assms] unat_sum_list_words [of "map bsize (items s)"] by simp
  ultimately show ?thesis by (simp add: length_concat_sum)
qed

text \<open>What \<open>aesd_lseek\<close> may return: the size passed on is the length of the content.\<close>

definition lseek_result ::
  "kernel \<Rightarrow> loff_t \<Rightarrow> int \<Rightarrow> struct_file \<Rightarrow> int \<Rightarrow> struct_file \<Rightarrow> line_log \<Rightarrow> bool" where
  "lseek_result K off whence filp r filp' L \<longleftrightarrow>
     r = - ERESTARTSYS \<and> filp' = filp \<or>
     (r, filp') = (let (x, pos) = k_llseek K (f_pos filp) off whence (of_nat (length (log_content L)))
                   in (sint x, filp\<lparr>f_pos := pos\<rparr>))"

lemma aesd_lseek_ok:
  assumes inv: "dev_inv s" and f: "private_data filp = aesd_device"
  shows "\<exists>r filp' s'. aesd_lseek K filp off whence s = Some (r, filp', s') \<and> dev_inv s' \<and>
    foreign s' = foreign s \<and> dev_log s' = dev_log s \<and> lseek_result K off whence filp r filp' (dev_log s)"
proof -
  obtain t where t: "get_total_size (c_buffer (dev s)) = Some t"
      "unat t = length (log_content (dev_log s))"
    using get_total_size_ok [OF dev_invD(1) [OF inv]] by (auto simp: log_content_def)
  have tt: "t = of_nat (length (log_content (dev_log s)))"
    by (simp flip: t(2))
  show ?thesis
  proof (cases "k_intr K (calls s)")
    case True
    then have "aesd_lseek K filp off whence s = Some (- ERESTARTSYS, filp, idle (Suc (calls s)) s)"
      using f by (simp add: aesd_lseek_def get_dev_def mutex_lock_interruptible_def
          dev_inv_lock_False [OF inv])
    then show ?thesis using idle_ok [OF inv] by (auto simp: lseek_result_def)
  next
    case False
    let ?x = "k_llseek K (f_pos filp) off whence t"
    have "aesd_lseek K filp off whence s =
        Some (sint (fst ?x), filp\<lparr>f_pos := snd ?x\<rparr>, idle (Suc (calls s)) s)"
      using f False t(1) dev_invD(3) [OF inv]
      by (simp add: aesd_lseek_def get_dev_def mutex_lock_interruptible_def mutex_unlock_def
          split_def Let_def)
    moreover have "lseek_result K off whence filp (sint (fst ?x)) (filp\<lparr>f_pos := snd ?x\<rparr>) (dev_log s)"
      unfolding lseek_result_def tt by (simp add: split_def Let_def)
    ultimately show ?thesis using idle_ok [OF inv] by blast
  qed
qed

subsection \<open>The seek request\<close>

text \<open>The slots by age: the entries, then unused slots.\<close>

lemma ring_slot:
  assumes inv: "ring_inv b" and i: "i < 10"
  shows "entry_at b ((i + unat (out_offs b)) mod 10) =
    Some (if i < length (ring_items b) then ring_items b ! i else zero_entry)"
proof (cases "i < length (ring_items b)")
  case True
  then show ?thesis using ring_items_nth [OF inv True] by (simp add: add.commute)
next
  case False
  then have nf: "\<not> full b" and ge: "unat (in_offs b) \<le> i"
    using ring_items_length [OF inv] i by (auto split: if_splits)
  then have len: "length (entry b) = 10" and out: "out_offs b = 0"
    and un: "set (drop (unat (in_offs b)) (entry b)) \<subseteq> {zero_entry}"
    using inv by (auto simp: ring_inv_def ring_shape_def ring_unused_def)
  have "entry b ! i = drop (unat (in_offs b)) (entry b) ! (i - unat (in_offs b))"
    using ge len i by simp
  also have "\<dots> \<in> set (drop (unat (in_offs b)) (entry b))"
    using ge len i by (intro nth_mem) simp
  finally have "entry b ! i = zero_entry" using un by blast
  then show ?thesis using False out len i by (simp add: entry_at_def)
qed

lemma adjust_from_ok:
  assumes inv: "ring_inv b" and nn: "\<forall>e \<in> set (ring_items b). buffptr e \<noteq> NULL" and c: "c < 10"
  shows "i \<le> c \<Longrightarrow> i \<le> length (ring_items b) \<Longrightarrow>
    adjust_from b c i pos = Some (if c \<le> length (ring_items b)
      then Some (pos + sum_list (map bsize (drop i (take c (ring_items b))))) else None)"
proof (induction "c - i" arbitrary: i pos)
  case 0
  then have "c = i" by simp
  then show ?case using 0 by (simp add: adjust_from.simps [of b i i])
next
  case (Suc m)
  have i: "i < c" "i < 10" using Suc.hyps(2) c by simp_all
  have step: "adjust_from b c i pos = do { e \<leftarrow> entry_at b ((i + unat (out_offs b)) mod 10);
      if buffptr e = NULL \<and> bsize e = 0 then Some None else adjust_from b c (Suc i) (pos + bsize e) }"
    using i(1) by (simp add: adjust_from.simps [of b c i])
  show ?case
  proof (cases "i < length (ring_items b)")
    case True
    then have "adjust_from b c i pos = adjust_from b c (Suc i) (pos + bsize (ring_items b ! i))"
      using step ring_slot [OF inv i(2)] nn by simp
    also have "\<dots> = Some (if c \<le> length (ring_items b)
        then Some (pos + bsize (ring_items b ! i) + sum_list (map bsize (drop (Suc i) (take c (ring_items b)))))
        else None)"
      using Suc.hyps(2) True by (intro Suc.hyps(1)) simp_all
    finally show ?thesis
      using True i by (auto simp: Cons_nth_drop_Suc [symmetric] add.assoc)
  next
    case False
    then show ?thesis using step ring_slot [OF inv i(2)] i by simp
  qed
qed

definition seek_result ::
  "int \<Rightarrow> struct_file \<Rightarrow> struct_file \<Rightarrow> nat \<Rightarrow> nat \<Rightarrow> line_log \<Rightarrow> bool" where
  "seek_result r filp filp' cmd off L \<longleftrightarrow>
     r = - ERESTARTSYS \<and> filp' = filp \<or>
     (case log_seek cmd off L of
        None \<Rightarrow> r = - EINVAL \<and> filp' = filp
      | Some pos \<Rightarrow> r = int pos \<and> filp' = filp\<lparr>f_pos := of_nat pos\<rparr>)"

lemma repr_item_not_null: "dev_repr s ls p \<Longrightarrow> \<forall>e \<in> set (items s). buffptr e \<noteq> NULL"
  using repr_nth [of s ls p] repr_length [of s ls p] by (fastforce simp: in_set_conv_nth holds_iff)

lemma repr_prefix_sum:
  assumes "dev_repr s ls p"
  shows "unat (sum_list (map bsize (take k (items s)))) = sum_list (take k (map length ls))"
    and "sum_list (take k (map length ls)) \<le> 10 * INT_MAX"
proof -
  have "sum_list (take k (map length ls)) \<le> sum_list (map length ls)"
    by (metis append_take_drop_id le_add1 sum_list.append)
  then show b: "sum_list (take k (map length ls)) \<le> 10 * INT_MAX"
    using repr_total [OF assms] by (rule le_trans)
  have "map unat (map bsize (take k (items s))) = take k (map length ls)"
    using arg_cong [OF repr_sizes [OF assms], of "take k"] by (simp add: take_map comp_def)
  then show "unat (sum_list (map bsize (take k (items s)))) = sum_list (take k (map length ls))"
    using b unat_sum_list_words [of "map bsize (take k (items s))"] by simp
qed

lemma unat_ucast_u32 [simp]: "unat (ucast (x :: uint32_t) :: size_t) = unat x"
proof -
  have "unat x < 2 ^ 64" using unat_u32 [of x] by simp
  then show ?thesis by (simp add: unsigned_ucast_eq take_bit_nat_eq_self)
qed

text \<open>The three ways a seek that gets the mutex can end.\<close>

lemma adjust_locked:
  assumes inv: "dev_inv s" and f: "private_data filp = aesd_device" and ni: "\<not> k_intr K (calls s)"
  defines "L \<equiv> dev_log s" and "t \<equiv> idle (Suc (calls s)) s"
  shows "adjust_aesd_file_offset K filp cmd off s =
    Some (case log_seek (unat cmd) (unat off) L of
        None \<Rightarrow> (- EINVAL, filp, t)
      | Some pos \<Rightarrow> (int pos, filp\<lparr>f_pos := of_nat pos\<rparr>, t))"
proof -
  let ?b = "c_buffer (dev s)" and ?c = "unat cmd"
  note repr = dev_invD(1) [OF inv, folded L_def]
  note ring = repr_ring [OF repr]
  have len: "length (items s) = length (lines L)" "length (lines L) \<le> 10"
    using repr_length [OF repr] dev_repr_length [OF repr] by simp_all
  let ?target = "if ?c < length (lines L) then items s ! ?c else zero_entry"
  let ?sum = "sum_list (map bsize (take ?c (items s)))"
  have adj: "?c < 10 \<Longrightarrow> adjust_from ?b ?c 0 0 = Some (if ?c \<le> length (lines L) then Some ?sum else None)"
    using adjust_from_ok [OF ring repr_item_not_null [OF repr], of ?c 0 0] len by simp
  have tgt: "?c < 10 \<Longrightarrow> entry_at ?b ((?c + unat (out_offs ?b)) mod 10) = Some ?target"
    using ring_slot [OF ring, of ?c] len by simp
  have run: "adjust_aesd_file_offset K filp cmd off s =
      Some (if 10 \<le> ?c \<or> \<not> ?c \<le> length (lines L) \<or> buffptr ?target = NULL \<or> bsize ?target \<le> ucast off
            then (- EINVAL, filp, t)
            else (sint (?sum + ucast off), filp\<lparr>f_pos := ?sum + ucast off\<rparr>, t))"
    using f ni adj tgt dev_invD(3) [OF inv]
    by (simp add: adjust_aesd_file_offset_def get_dev_def mutex_lock_interruptible_def
        mutex_unlock_def Let_def t_def)
  show ?thesis
  proof (cases "?c < length (lines L) \<and> unat off < length (lines L ! ?c)")
    case True
    then have h: "holds (heap s) (items s ! ?c) (lines L ! ?c)" by (intro repr_nth [OF repr]) simp
    then have t: "buffptr ?target \<noteq> NULL" "\<not> bsize ?target \<le> ucast off"
      using True by (auto simp: holds_iff word_le_nat_alt)
    let ?pos = "sum_list (take ?c (map length (lines L))) + unat off"
    have small: "?pos < 2 ^ 63"
      using repr_prefix_sum(2) [OF repr, of ?c] unat_u32 [of off] by simp
    then have u: "unat (?sum + ucast off) = ?pos"
      using repr_prefix_sum(1) [OF repr, of ?c] by (subst unat_plus_size_t) simp_all
    then have "sint (?sum + ucast off) = int ?pos" "?sum + ucast off = of_nat ?pos"
      using small by (simp_all only: sint_size_t_small flip: u) simp
    then show ?thesis
      using run t True len by (simp add: log_seek_def)
  next
    case False
    have "buffptr ?target = NULL \<or> bsize ?target \<le> ucast off"
      using False repr_nth [OF repr, of ?c] by (auto simp: holds_iff word_le_nat_alt)
    then show ?thesis using run False by (auto simp: log_seek_def)
  qed
qed

lemma adjust_ok:
  assumes inv: "dev_inv s" and f: "private_data filp = aesd_device"
  shows "\<exists>r filp' s'. adjust_aesd_file_offset K filp cmd off s = Some (r, filp', s') \<and> dev_inv s' \<and>
    foreign s' = foreign s \<and> dev_log s' = dev_log s \<and>
    seek_result r filp filp' (unat cmd) (unat off) (dev_log s)"
proof (cases "k_intr K (calls s)")
  case True
  then have "adjust_aesd_file_offset K filp cmd off s = Some (- ERESTARTSYS, filp, idle (Suc (calls s)) s)"
    using f by (simp add: adjust_aesd_file_offset_def get_dev_def mutex_lock_interruptible_def
        dev_inv_lock_False [OF inv])
  then show ?thesis using idle_ok [OF inv] by (auto simp: seek_result_def)
next
  case False
  then show ?thesis
    using adjust_locked [OF inv f False, of cmd off] idle_ok [OF inv]
    by (auto simp: seek_result_def split: option.split)
qed

text \<open>The requests of \<open>aesd_ioctl\<close>.\<close>

definition ioctl_result ::
  "int \<Rightarrow> struct_file \<Rightarrow> struct_file \<Rightarrow> uint32_t \<Rightarrow> aesd_seekto \<Rightarrow> line_log \<Rightarrow> bool" where
  "ioctl_result r filp filp' cmd arg L \<longleftrightarrow>
     (if cmd = AESDCHAR_IOCSEEKTO
      then r = - EFAULT \<and> filp' = filp \<or>
           seek_result r filp filp' (unat (write_cmd arg)) (unat (write_cmd_offset arg)) L
      else r = - ENOTTY \<and> filp' = filp)"

lemma calls_ok:
  assumes "dev_inv s"
  shows "dev_inv (s\<lparr>calls := c\<rparr>)" and "dev_log (s\<lparr>calls := c\<rparr>) = dev_log s"
    and "foreign (s\<lparr>calls := c\<rparr>) = foreign s"
  using assms by (simp_all add: dev_inv_def dev_log_def foreign_def owned_def)

lemma aesd_ioctl_ok:
  assumes inv: "dev_inv s" and f: "private_data filp = aesd_device"
  shows "\<exists>r filp' s'. aesd_ioctl K filp cmd arg s = Some (r, filp', s') \<and> dev_inv s' \<and>
    foreign s' = foreign s \<and> dev_log s' = dev_log s \<and> ioctl_result r filp filp' cmd arg (dev_log s)"
proof (cases "cmd = AESDCHAR_IOCSEEKTO \<and> k_uncopied K (calls s) 8 = 0")
  case True
  then show ?thesis
    using adjust_ok [OF calls_ok(1) [OF inv, of "Suc (calls s)"] f, of K] calls_ok(2,3) [OF inv]
    by (simp add: aesd_ioctl_def Let_def ioctl_result_def) blast
next
  case False
  then show ?thesis
    using inv calls_ok [OF inv, of "Suc (calls s)"]
    by (auto simp: aesd_ioctl_def Let_def ioctl_result_def)
qed

end
