(* ===== verification/Driver_Module.thy ===== *)
theory Driver_Module
  imports Driver_Access
begin

text \<open>
  Loading and unloading the module, and the driver as a system: several open files, any sequence of
  calls of the members of \<open>aesd_fops\<close>. The step relation has one rule per member; every call that
  the virtual file system may make has a step, and every reachable state satisfies the invariant of
  the driver.
\<close>

subsection \<open>Trimming\<close>

text \<open>The array is the entries by age cut into two pieces, or the entries followed by unused slots.\<close>

lemma ring_entry_split:
  assumes "ring_inv b"
  obtains xs ys where "entry b = xs @ ys"
    and "ring_items b = ys @ xs \<or> ring_items b = xs \<and> set ys \<subseteq> {zero_entry}"
proof (cases "full b")
  case True
  let ?k = "unat (out_offs b)"
  have "ring_items b = drop ?k (entry b) @ take ?k (entry b)"
    using assms True by (simp add: ring_items_def ring_inv_def ring_shape_def rotate_drop_take)
  then show thesis using that [of "take ?k (entry b)" "drop ?k (entry b)"] by simp
next
  case False
  let ?k = "unat (in_offs b)"
  show thesis
    using that [of "take ?k (entry b)" "drop ?k (entry b)"] assms False
    by (simp add: ring_items_def ring_inv_def ring_unused_def)
qed

lemma addrs_zero: "set es \<subseteq> {zero_entry} \<Longrightarrow> addrs es = []"
  by (induction es) auto

lemma ring_addrs:
  assumes "ring_inv b"
  shows "set (addrs (entry b)) = set (addrs (ring_items b)) \<and>
    distinct (addrs (entry b)) = distinct (addrs (ring_items b))"
proof -
  obtain xs ys where e: "entry b = xs @ ys"
    and i: "ring_items b = ys @ xs \<or> ring_items b = xs \<and> set ys \<subseteq> {zero_entry}"
    using ring_entry_split [OF assms] by blast
  from i show ?thesis
  proof
    assume "ring_items b = ys @ xs"
    then show ?thesis by (auto simp: e)
  next
    assume "ring_items b = xs \<and> set ys \<subseteq> {zero_entry}"
    then show ?thesis using addrs_zero [of ys] by (simp add: e)
  qed
qed

definition cleared :: "aesd_buffer_entry \<Rightarrow> aesd_buffer_entry" where
  "cleared e = (if buffptr e = NULL then e else zero_entry)"

lemma trim_from_ok:
  "length (entry (c_buffer (dev s))) = 10 \<Longrightarrow> i \<le> 10 \<Longrightarrow>
   distinct (addrs (drop i (entry (c_buffer (dev s))))) \<Longrightarrow>
   \<forall>a \<in> set (addrs (drop i (entry (c_buffer (dev s))))). heap s a \<noteq> None \<Longrightarrow>
   \<exists>s'. trim_from i s = Some s' \<and> calls s' = calls s \<and> evicted_entry s' = evicted_entry s \<and>
     heap s' = heap s |` (- set (addrs (drop i (entry (c_buffer (dev s)))))) \<and>
     dev s' = (dev s)\<lparr>c_buffer := (c_buffer (dev s))\<lparr>entry :=
       take i (entry (c_buffer (dev s))) @ map cleared (drop i (entry (c_buffer (dev s))))\<rparr>\<rparr>"
proof (induction "10 - i" arbitrary: i s)
  case 0
  then have "i = 10" by simp
  then show ?case using 0 by (simp add: trim_from.simps [of 10])
next
  case (Suc m)
  let ?es = "entry (c_buffer (dev s))"
  let ?e = "?es ! i"
  have i: "i < 10" using Suc.hyps(2) by simp
  have dr: "drop i ?es = ?e # drop (Suc i) ?es" using i Suc.prems(1) by (simp add: Cons_nth_drop_Suc)
  have at: "entry_at (c_buffer (dev s)) i = Some ?e" using i Suc.prems(1) by (simp add: entry_at_def)
  have tk: "take (Suc i) (?es[i := x]) @ xs = take i ?es @ x # xs" for x xs
    using i Suc.prems(1) by (simp add: take_Suc_conv_app_nth)
  show ?case
  proof (cases "buffptr ?e")
    case NULL
    have tk: "take (Suc i) ?es = take i ?es @ [?e]"
      using i Suc.prems(1) by (simp add: take_Suc_conv_app_nth)
    have "trim_from i s = trim_from (Suc i) s"
      using i at NULL by (simp add: trim_from.simps [of i s])
    moreover have "\<exists>s'. trim_from (Suc i) s = Some s' \<and> calls s' = calls s \<and>
        evicted_entry s' = evicted_entry s \<and> heap s' = heap s |` (- set (addrs (drop (Suc i) ?es))) \<and>
        dev s' = (dev s)\<lparr>c_buffer := (c_buffer (dev s))\<lparr>entry :=
          take (Suc i) ?es @ map cleared (drop (Suc i) ?es)\<rparr>\<rparr>"
      using Suc.hyps(2) Suc.prems i dr NULL by (intro Suc.hyps(1)) simp_all
    ultimately show ?thesis
      using NULL dr by (simp add: tk cleared_def)
  next
    case (Ptr a)
    then obtain bl where a: "heap s a = Some bl" "a \<notin> set (addrs (drop (Suc i) ?es))"
      using Suc.prems(3,4) dr by auto
    let ?t = "s\<lparr>heap := (heap s)(a := None), dev := (dev s)\<lparr>c_buffer :=
        (c_buffer (dev s))\<lparr>entry := ?es[i := zero_entry]\<rparr>\<rparr>\<rparr>"
    have step: "trim_from i s = trim_from (Suc i) ?t"
      using i at Ptr a(1) Suc.prems(1)
      by (simp add: trim_from.simps [of i s] c_free_def set_entry_at_def)
    have "\<exists>s'. trim_from (Suc i) ?t = Some s' \<and> calls s' = calls ?t \<and>
        evicted_entry s' = evicted_entry ?t \<and>
        heap s' = heap ?t |` (- set (addrs (drop (Suc i) (entry (c_buffer (dev ?t)))))) \<and>
        dev s' = (dev ?t)\<lparr>c_buffer := (c_buffer (dev ?t))\<lparr>entry :=
          take (Suc i) (entry (c_buffer (dev ?t))) @ map cleared (drop (Suc i) (entry (c_buffer (dev ?t))))\<rparr>\<rparr>"
      using Suc.hyps(2) Suc.prems i dr a(2) Ptr by (intro Suc.hyps(1)) auto
    moreover have "(heap s)(a := None) |` (- X) = heap s |` (- insert a X)" for X
      by (rule ext) (simp add: restrict_map_def)
    ultimately show ?thesis
      using step dr Ptr by (simp add: tk cleared_def)
  qed
qed

lemma trimmed_entries:
  assumes inv: "ring_inv b" and nn: "\<forall>e \<in> set (ring_items b). buffptr e \<noteq> NULL"
  shows "map cleared (entry b) = replicate 10 zero_entry"
proof -
  have "set (entry b) \<subseteq> set (ring_items b) \<union> {zero_entry}"
    using ring_entry_split [OF inv] by (metis Un_commute Un_mono order_refl set_append sup_ge1)
  then have "\<forall>x \<in> set (map cleared (entry b)). x = zero_entry"
    using nn by (auto simp: cleared_def)
  moreover have "length (map cleared (entry b)) = 10"
    using inv by (simp add: ring_inv_def ring_shape_def)
  ultimately show ?thesis by (metis replicate_length_same)
qed

lemma aesd_trim_ok:
  assumes repr: "dev_repr s ls p"
  shows "\<exists>s'. aesd_trim s = Some (0, s') \<and> calls s' = calls s \<and> evicted_entry s' = evicted_entry s \<and>
    heap s' = heap s |` (- set (addrs (items s))) \<and>
    dev s' = (dev s)\<lparr>c_buffer := aesd_circular_buffer_init\<rparr>"
proof -
  let ?b = "c_buffer (dev s)"
  have inv: "ring_inv ?b" by (rule repr_ring [OF repr])
  have "distinct (addrs (items s))" "\<forall>a \<in> set (addrs (items s)). heap s a \<noteq> None"
    using repr holds_list_addrs by (auto simp: dev_repr_def owned_def)
  then obtain t where "trim_from 0 s = Some t" "calls t = calls s" "evicted_entry t = evicted_entry s"
      "heap t = heap s |` (- set (addrs (items s)))"
      "dev t = (dev s)\<lparr>c_buffer := ?b\<lparr>entry := replicate 10 zero_entry\<rparr>\<rparr>"
    using trim_from_ok [of s 0] inv ring_addrs [OF inv]
      trimmed_entries [OF inv repr_item_not_null [OF repr]]
    by (auto simp: ring_inv_def ring_shape_def)
  then show ?thesis
    by (simp add: aesd_trim_def aesd_circular_buffer_init_def)
qed


subsection \<open>Unloading\<close>

text \<open>Everything the device owns is released, the partial entry included; \<open>foreign\<close> is what the
  rest of the kernel owns.\<close>

lemma foreign_split: "foreign s = (heap s |` (- set (addrs (items s)))) |` (- set (ptr_addrs (buffptr (partial s))))"
  by (rule ext) (simp add: foreign_def owned_def restrict_map_def)

lemma free_partial_ok:
  assumes "dev_repr s ls p" and "heap t = heap s |` (- set (addrs (items s)))"
  shows "c_free (buffptr (partial s)) t = Some (t\<lparr>heap := foreign s\<rparr>)"
proof (cases "buffptr (partial s)")
  case NULL
  then show ?thesis
    using assms(2) by (simp add: foreign_split [of s])
next
  case (Ptr a)
  then have "p \<noteq> []" using dev_repr_partial(1) [OF assms(1)] by auto
  then obtain c where "heap s a = Some c" "a \<notin> set (addrs (items s))"
    using dev_repr_partial(2) [OF assms(1)] assms(1) Ptr by (auto simp: dev_repr_def owned_def)
  moreover have "(h :: heap)(a := None) = h |` (- {a})" for h
    by (rule ext) (simp add: restrict_map_def)
  ultimately show ?thesis
    using assms(2) Ptr by (simp add: c_free_def foreign_split [of s])
qed

lemma aesd_cleanup_ok:
  assumes "dev_inv (ks m)" and "region m = Some (MKDEV (aesd_major m) aesd_minor)"
  shows "\<exists>m'. aesd_cleanup_module m = Some m' \<and> heap (ks m') = foreign (ks m) \<and>
    region m' = None \<and> cdev_live m' = None \<and> \<not> lock (dev (ks m'))"
proof -
  note repr = dev_invD(1) [OF assms(1)]
  let ?s = "ks m" and ?t = "ks m\<lparr>dev := (dev (ks m))\<lparr>lock := True\<rparr>\<rparr>"
  have t: "dev_repr ?t (lines (dev_log ?s)) (pending (dev_log ?s))"
    using lock_repr(1) [OF repr, where c = "calls ?s" and l = True] by (cases ?s) simp
  obtain u where u: "aesd_trim ?t = Some (0, u)" "heap u = heap ?s |` (- set (addrs (items ?s)))"
      "dev u = (dev ?s)\<lparr>lock := True, c_buffer := aesd_circular_buffer_init\<rparr>"
    using aesd_trim_ok [OF t] by auto
  have "c_free (buffptr (partial u)) u = Some (u\<lparr>heap := foreign ?s\<rparr>)"
    using free_partial_ok [OF repr u(2)] u(3) by simp
  then show ?thesis
    using u dev_invD(3) [OF assms(1)] assms(2)
    by (simp add: aesd_cleanup_module_def mutex_lock_def mutex_unlock_def Let_def
        unregister_chrdev_region_def)
qed

subsection \<open>Loading\<close>

lemma empty_dev_repr:
  assumes "dev s = zero_dev"
  shows "dev_repr s [] []" and "foreign s = heap s"
  using assms ring_init_inv ring_init_items
  by (simp_all add: zero_dev_def dev_repr_def owned_def slot_holds_def foreign_def
      aesd_circular_buffer_init_def restrict_map_def)

text \<open>Either the module is loaded, with its number range and its \<open>cdev\<close> registered and an empty
  log, or the call fails and nothing stays registered. No memory is allocated either way.\<close>

lemma MKDEV_MAJOR: "take_bit 20 d = 0 \<Longrightarrow> MKDEV (MAJOR d) aesd_minor = d"
  using bits_ident [of 20 d] by (simp add: MKDEV_def MAJOR_def aesd_minor_def)

lemma aesd_init_ok:
  assumes init: "aesd_init_module alloc_res devno add_err m = (r, m')" and fresh: "region m = None"
    "cdev_live m = None" and d: "take_bit 20 devno = 0" and a: "alloc_res \<le> 0" "add_err \<le> 0"
  shows "if r = 0
    then dev_inv (ks m') \<and> dev_log (ks m') = log_empty \<and> foreign (ks m') = heap (ks m) \<and>
         region m' = Some (MKDEV (aesd_major m') aesd_minor) \<and> cdev_live m' = region m'
    else r < 0 \<and> region m' = None \<and> cdev_live m' = None \<and> heap (ks m') = heap (ks m)"
proof (cases "alloc_res < 0")
  case True
  then show ?thesis
    using init fresh by (auto simp: aesd_init_module_def Let_def)
next
  case False
  let ?s = "ks m\<lparr>dev := zero_dev\<rparr>"
  have z: "zero_dev\<lparr>lock := False, c_buffer := aesd_circular_buffer_init\<rparr> = zero_dev"
    by (simp add: zero_dev_def aesd_circular_buffer_init_def)
  have e: "dev_repr ?s [] []" "foreign ?s = heap (ks m)"
    using empty_dev_repr [of ?s] by simp_all
  have "dev_log ?s = log_empty" "dev_inv ?s"
    using dev_log_repr [OF e(1)] dev_invI [OF e(1)]
    by (simp_all add: log_empty_def log_wf_def zero_dev_def)
  then show ?thesis
    using init False a e(2) MKDEV_MAJOR [OF d] fresh
    by (auto simp: aesd_init_module_def Let_def z aesd_setup_cdev_def unregister_chrdev_region_def
        split: if_splits)
qed

end
