(* ===== verification/Driver_System.thy ===== *)
theory Driver_System
  imports Driver_Module
begin

text \<open>
  The driver as a system: any number of open files on the one device, and any sequence of the calls
  that the members of \<open>aesd_fops\<close> serve. \<open>dev_step\<close> is the detailed step relation, one rule per
  member, with the position of a file kept the way the virtual file system keeps it; \<open>log_step\<close> is
  the abstract one, over a line log and a map of positions. The simulation shows that the driver
  implements the abstract system.
\<close>

subsection \<open>The detailed system\<close>

record sys =
  kst :: kstate
  files :: "nat \<rightharpoonup> struct_file"

datatype fop =
    Open nat
  | Release nat
  | Read nat size_t
  | Write nat "nat \<Rightarrow> byte" size_t
  | Llseek nat loff_t int
  | Ioctl nat uint32_t aesd_seekto

text \<open>The node of the device refers to the \<open>cdev\<close> registered by \<open>aesd_setup_cdev\<close>; a fresh
  \<open>struct file\<close> starts at position 0 and with no private data.\<close>

definition aesd_inode :: inode where
  "aesd_inode = \<lparr>i_cdev = aesd_device\<rparr>"

definition fresh_file :: struct_file where
  "fresh_file = \<lparr>f_pos = 0, private_data = NULL\<rparr>"

text \<open>The label of a step is the call, its return value and the bytes that reach the user. The
  virtual file system cuts the count of a read or a write to \<open>MAX_RW_COUNT\<close>.\<close>

inductive dev_step :: "kernel \<Rightarrow> sys \<Rightarrow> fop \<Rightarrow> int \<Rightarrow> byte list \<Rightarrow> sys \<Rightarrow> bool" for K where
  step_open: "files y fd = None \<Longrightarrow> aesd_open aesd_inode fresh_file = (r, f) \<Longrightarrow>
    dev_step K y (Open fd) r [] (y\<lparr>files := (files y)(fd \<mapsto> f)\<rparr>)"
| step_release: "files y fd = Some f \<Longrightarrow> aesd_release aesd_inode f = (r, f') \<Longrightarrow>
    dev_step K y (Release fd) r [] (y\<lparr>files := (files y)(fd := None)\<rparr>)"
| step_read: "files y fd = Some f \<Longrightarrow> unat n \<le> MAX_RW_COUNT \<Longrightarrow>
    aesd_read K f n (f_pos f) (kst y) = Some (r, out, pos, s) \<Longrightarrow>
    dev_step K y (Read fd n) r out (y\<lparr>kst := s, files := (files y)(fd \<mapsto> f\<lparr>f_pos := pos\<rparr>)\<rparr>)"
| step_write: "files y fd = Some f \<Longrightarrow> unat n \<le> MAX_RW_COUNT \<Longrightarrow>
    aesd_write K f ubuf n (kst y) = Some (r, s) \<Longrightarrow>
    dev_step K y (Write fd ubuf n) r [] (y\<lparr>kst := s\<rparr>)"
| step_llseek: "files y fd = Some f \<Longrightarrow> aesd_lseek K f off whence (kst y) = Some (r, f', s) \<Longrightarrow>
    dev_step K y (Llseek fd off whence) r [] (y\<lparr>kst := s, files := (files y)(fd \<mapsto> f')\<rparr>)"
| step_ioctl: "files y fd = Some f \<Longrightarrow> aesd_ioctl K f cmd arg (kst y) = Some (r, f', s) \<Longrightarrow>
    dev_step K y (Ioctl fd cmd arg) r [] (y\<lparr>kst := s, files := (files y)(fd \<mapsto> f')\<rparr>)"

inductive_cases dev_step_cases: "dev_step K y op r out y'"

inductive_simps dev_step_simps:
  "dev_step K y (Open fd) r out y'"
  "dev_step K y (Release fd) r out y'"

text \<open>A call that the virtual file system may make in a state.\<close>

fun fop_enabled :: "sys \<Rightarrow> fop \<Rightarrow> bool" where
  "fop_enabled y (Open fd) = (files y fd = None)"
| "fop_enabled y (Release fd) = (files y fd \<noteq> None)"
| "fop_enabled y (Read fd n) = (files y fd \<noteq> None \<and> unat n \<le> MAX_RW_COUNT)"
| "fop_enabled y (Write fd ubuf n) = (files y fd \<noteq> None \<and> unat n \<le> MAX_RW_COUNT)"
| "fop_enabled y (Llseek fd off whence) = (files y fd \<noteq> None)"
| "fop_enabled y (Ioctl fd cmd arg) = (files y fd \<noteq> None)"

inductive dev_run :: "kernel \<Rightarrow> sys \<Rightarrow> (fop \<times> int \<times> byte list) list \<Rightarrow> sys \<Rightarrow> bool" for K where
  run_Nil: "dev_run K y [] y"
| run_Cons: "dev_step K y op r out y1 \<Longrightarrow> dev_run K y1 tr y2 \<Longrightarrow> dev_run K y ((op, r, out) # tr) y2"

inductive_cases dev_run_ConsE: "dev_run K y (x # tr) y'"

subsection \<open>The abstract system\<close>

record log_sys =
  slog :: line_log
  positions :: "nat \<rightharpoonup> loff_t"

text \<open>
  A call either does what the log operation of its name does or fails with one of its error numbers
  and no effect; a write that runs out of memory may have stored a prefix of its lines.
\<close>

inductive log_step :: "log_sys \<Rightarrow> fop \<Rightarrow> int \<Rightarrow> byte list \<Rightarrow> log_sys \<Rightarrow> bool" where
  abs_open: "positions a fd = None \<Longrightarrow>
    log_step a (Open fd) 0 [] (a\<lparr>positions := (positions a)(fd \<mapsto> 0)\<rparr>)"
| abs_release: "positions a fd = Some p \<Longrightarrow>
    log_step a (Release fd) 0 [] (a\<lparr>positions := (positions a)(fd := None)\<rparr>)"
| abs_read: "positions a fd = Some p \<Longrightarrow> out = log_read (unat p) (unat n) (slog a) \<Longrightarrow>
    log_step a (Read fd n) (int (length out)) out
      (a\<lparr>positions := (positions a)(fd \<mapsto> p + of_nat (length out))\<rparr>)"
| abs_read_intr: "positions a fd = Some p \<Longrightarrow> log_step a (Read fd n) (- ERESTARTSYS) [] a"
| abs_read_fault: "positions a fd = Some p \<Longrightarrow>
    log_step a (Read fd n) (- EFAULT) (take m (log_read (unat p) (unat n) (slog a))) a"
| abs_write: "positions a fd = Some p \<Longrightarrow> d = user_bytes ubuf n \<Longrightarrow>
    log_step a (Write fd ubuf n) (int (length d)) [] (a\<lparr>slog := log_write d (slog a)\<rparr>)"
| abs_write_none: "positions a fd = Some p \<Longrightarrow> r = - ERESTARTSYS \<or> r = - EFAULT \<Longrightarrow>
    log_step a (Write fd ubuf n) r [] a"
| abs_write_nomem: "positions a fd = Some p \<Longrightarrow> d = user_bytes ubuf n \<Longrightarrow>
    k \<le> length (fst (feed (pending (slog a)) d)) \<Longrightarrow>
    log_step a (Write fd ubuf n) (- ENOMEM) [] (a\<lparr>slog := log_write_partial k d (slog a)\<rparr>)"
| abs_llseek: "positions a fd = Some p \<Longrightarrow> pos \<le> length (log_content (slog a)) \<Longrightarrow>
    log_step a (Llseek fd off whence) (int pos) [] (a\<lparr>positions := (positions a)(fd \<mapsto> of_nat pos)\<rparr>)"
| abs_llseek_fails: "positions a fd = Some p \<Longrightarrow> r < 0 \<Longrightarrow> log_step a (Llseek fd off whence) r [] a"
| abs_seek: "positions a fd = Some p \<Longrightarrow> cmd = AESDCHAR_IOCSEEKTO \<Longrightarrow>
    log_seek (unat (write_cmd arg)) (unat (write_cmd_offset arg)) (slog a) = Some pos \<Longrightarrow>
    log_step a (Ioctl fd cmd arg) (int pos) [] (a\<lparr>positions := (positions a)(fd \<mapsto> of_nat pos)\<rparr>)"
| abs_seek_invalid: "positions a fd = Some p \<Longrightarrow> cmd = AESDCHAR_IOCSEEKTO \<Longrightarrow>
    log_seek (unat (write_cmd arg)) (unat (write_cmd_offset arg)) (slog a) = None \<Longrightarrow>
    log_step a (Ioctl fd cmd arg) (- EINVAL) [] a"
| abs_seek_fails: "positions a fd = Some p \<Longrightarrow> cmd = AESDCHAR_IOCSEEKTO \<Longrightarrow>
    r = - ERESTARTSYS \<or> r = - EFAULT \<Longrightarrow> log_step a (Ioctl fd cmd arg) r [] a"
| abs_ioctl_unknown: "positions a fd = Some p \<Longrightarrow> cmd \<noteq> AESDCHAR_IOCSEEKTO \<Longrightarrow>
    log_step a (Ioctl fd cmd arg) (- ENOTTY) [] a"

inductive log_run :: "log_sys \<Rightarrow> (fop \<times> int \<times> byte list) list \<Rightarrow> log_sys \<Rightarrow> bool" where
  log_run_Nil: "log_run a [] a"
| log_run_Cons: "log_step a op r out a1 \<Longrightarrow> log_run a1 tr a2 \<Longrightarrow> log_run a ((op, r, out) # tr) a2"

definition abs_sys :: "sys \<Rightarrow> log_sys" where
  "abs_sys y = \<lparr>slog = dev_log (kst y), positions = map_option f_pos \<circ> files y\<rparr>"

subsection \<open>Invariant and simulation\<close>

text \<open>\<open>X\<close> is the memory of the rest of the kernel.\<close>

definition sys_inv :: "heap \<Rightarrow> sys \<Rightarrow> bool" where
  "sys_inv X y \<longleftrightarrow> dev_inv (kst y) \<and> foreign (kst y) = X \<and>
     (\<forall>fd f. files y fd = Some f \<longrightarrow> private_data f = aesd_device)"

lemma map_option_upd: "(map_option g \<circ> m(k \<mapsto> v)) = (map_option g \<circ> m)(k \<mapsto> g v)"
  by (rule ext) simp

lemma map_option_del: "(map_option g \<circ> m(k := None)) = (map_option g \<circ> m)(k := None)"
  by (rule ext) simp

lemma abs_sys_simps [simp]:
  "slog (abs_sys y) = dev_log (kst y)"
  "positions (abs_sys y) fd = map_option f_pos (files y fd)"
  "abs_sys (y\<lparr>files := (files y)(fd \<mapsto> f)\<rparr>) = (abs_sys y)\<lparr>positions := (positions (abs_sys y))(fd \<mapsto> f_pos f)\<rparr>"
  "abs_sys (y\<lparr>files := (files y)(fd := None)\<rparr>) = (abs_sys y)\<lparr>positions := (positions (abs_sys y))(fd := None)\<rparr>"
  "abs_sys (y\<lparr>kst := s\<rparr>) = (abs_sys y)\<lparr>slog := dev_log s\<rparr>"
  by (simp_all add: abs_sys_def map_option_upd map_option_del)

lemma abs_sys_unchanged:
  "dev_log s = dev_log (kst y) \<Longrightarrow> files y fd = Some f \<Longrightarrow> f_pos f' = f_pos f \<Longrightarrow>
   abs_sys (y\<lparr>kst := s, files := (files y)(fd \<mapsto> f')\<rparr>) = abs_sys y"
  by (auto simp: abs_sys_def fun_upd_def)

lemma abs_sys_moved:
  "dev_log s = dev_log (kst y) \<Longrightarrow>
   abs_sys (y\<lparr>kst := s, files := (files y)(fd \<mapsto> f')\<rparr>) =
   (abs_sys y)\<lparr>positions := (positions (abs_sys y))(fd \<mapsto> f_pos f')\<rparr>"
  by (simp add: abs_sys_def map_option_upd)

lemma sys_inv_upd:
  "sys_inv X y \<Longrightarrow> dev_inv s \<Longrightarrow> foreign s = foreign (kst y) \<Longrightarrow> private_data f = aesd_device \<Longrightarrow>
   sys_inv X (y\<lparr>kst := s, files := (files y)(fd \<mapsto> f)\<rparr>)"
  by (simp add: sys_inv_def)

text \<open>The read, write and seek cases, from the results of the driver's functions.\<close>

lemma read_simulation:
  assumes "read_result r out n (f_pos f) pos (dev_log (kst y))" and "files y fd = Some f"
    and "dev_log s = dev_log (kst y)"
  shows "log_step (abs_sys y) (Read fd n) r out (abs_sys (y\<lparr>kst := s, files := (files y)(fd \<mapsto> f\<lparr>f_pos := pos\<rparr>)\<rparr>))"
  using assms(1) unfolding read_result_def
proof (elim disjE conjE exE)
  assume "r = - ERESTARTSYS" "out = []" "pos = f_pos f"
  then show ?thesis using assms(2,3) by (simp add: abs_sys_unchanged abs_read_intr)
next
  fix m assume "r = - EFAULT" "pos = f_pos f" "out = take m (log_read (unat (f_pos f)) (unat n) (dev_log (kst y)))"
  then show ?thesis
    using assms(2,3) abs_read_fault [of "abs_sys y" fd "f_pos f" n m] by (simp add: abs_sys_unchanged)
next
  assume "out = log_read (unat (f_pos f)) (unat n) (dev_log (kst y))" "r = int (length out)"
    "pos = f_pos f + of_nat (length out)"
  then show ?thesis
    using assms(2,3) abs_read [of "abs_sys y" fd "f_pos f" out n] by (simp add: abs_sys_moved)
qed

lemma write_simulation:
  assumes "write_result r (user_bytes ubuf n) (dev_log (kst y)) (dev_log s)" and "files y fd = Some f"
  shows "log_step (abs_sys y) (Write fd ubuf n) r [] (abs_sys (y\<lparr>kst := s\<rparr>))"
  using assms(1) unfolding write_result_def
proof (elim disjE conjE exE)
  assume "r = int (length (user_bytes ubuf n))" "dev_log s = log_write (user_bytes ubuf n) (dev_log (kst y))"
  then show ?thesis
    using assms(2) abs_write [of "abs_sys y" fd "f_pos f" "user_bytes ubuf n" ubuf n] by simp
next
  have same: "dev_log s = dev_log (kst y) \<Longrightarrow> abs_sys (y\<lparr>kst := s\<rparr>) = abs_sys y"
    by (simp add: abs_sys_def)
  {
    assume "r = - ERESTARTSYS" "dev_log s = dev_log (kst y)"
    then show ?thesis
      using assms(2) abs_write_none [of "abs_sys y" fd "f_pos f" r] by (simp add: same del: abs_sys_simps(5))
  next
    assume "r = - EFAULT" "dev_log s = dev_log (kst y)"
    then show ?thesis
      using assms(2) abs_write_none [of "abs_sys y" fd "f_pos f" r] by (simp add: same del: abs_sys_simps(5))
  }
next
  fix k assume "r = - ENOMEM" "k \<le> length (fst (feed (pending (dev_log (kst y))) (user_bytes ubuf n)))"
    "dev_log s = log_write_partial k (user_bytes ubuf n) (dev_log (kst y))"
  then show ?thesis
    using assms(2) abs_write_nomem [of "abs_sys y" fd "f_pos f" "user_bytes ubuf n" ubuf n k] by simp
qed


text \<open>The position that \<open>fixed_size_llseek\<close> reports is inside the content.\<close>

lemma content_bound: "dev_inv s \<Longrightarrow> length (log_content (dev_log s)) < 2 ^ 63"
  using repr_total [OF dev_invD(1)] by (fastforce simp: log_content_def length_concat_sum)

lemma llseek_simulation:
  assumes K: "kernel_ok K" and res: "lseek_result K off whence f r f' (dev_log (kst y))"
    and fd: "files y fd = Some f" and inv: "dev_inv (kst y)" and s: "dev_log s = dev_log (kst y)"
  shows "log_step (abs_sys y) (Llseek fd off whence) r [] (abs_sys (y\<lparr>kst := s, files := (files y)(fd \<mapsto> f')\<rparr>))"
    and "private_data f' = private_data f"
proof -
  let ?len = "length (log_content (dev_log (kst y)))"
  obtain x pos where x: "k_llseek K (f_pos f) off whence (of_nat ?len) = (x, pos)" by fastforce
  have len: "sint (of_nat ?len :: size_t) = int ?len"
    using content_bound [OF inv] by (subst sint_size_t_small) (simp_all add: unat_of_nat_size_t)
  have ok: "if 0 \<le> sint x then pos = x \<and> sint x \<le> int ?len else pos = f_pos f"
    using K x unfolding kernel_ok_def len [symmetric] by (metis (mono_tags, lifting) case_prod_conv)
  consider "r = - ERESTARTSYS" "f' = f" | "r = sint x" "f' = f\<lparr>f_pos := pos\<rparr>"
    using res x by (auto simp: lseek_result_def)
  then show "log_step (abs_sys y) (Llseek fd off whence) r [] (abs_sys (y\<lparr>kst := s, files := (files y)(fd \<mapsto> f')\<rparr>))"
  proof cases
    case 1
    then show ?thesis
      using fd s abs_llseek_fails [of "abs_sys y" fd "f_pos f" r] by (simp add: abs_sys_unchanged)
  next
    case 2
    show ?thesis
    proof (cases "0 \<le> r")
      case True
      then obtain m where m: "sint x = int m" using 2 by (metis nonneg_int_cases)
      have "x = of_int (sint x)" by simp
      also have "\<dots> = of_nat m" unfolding m by simp
      finally have "x = of_nat m" .
      then have "pos = of_nat m" "m \<le> ?len" using ok m by simp_all
      then show ?thesis
        using 2 m fd s abs_llseek [of "abs_sys y" fd "f_pos f" m] by (simp add: abs_sys_moved)
    next
      case False
      then show ?thesis
        using 2 ok fd s abs_llseek_fails [of "abs_sys y" fd "f_pos f" r] by (simp add: abs_sys_unchanged)
    qed
  qed
  show "private_data f' = private_data f"
    using res x by (auto simp: lseek_result_def)
qed

lemma ioctl_simulation:
  assumes res: "ioctl_result r f f' cmd arg (dev_log (kst y))" and fd: "files y fd = Some f"
    and s: "dev_log s = dev_log (kst y)"
  shows "log_step (abs_sys y) (Ioctl fd cmd arg) r [] (abs_sys (y\<lparr>kst := s, files := (files y)(fd \<mapsto> f')\<rparr>))"
    and "private_data f' = private_data f"
proof -
  let ?sk = "log_seek (unat (write_cmd arg)) (unat (write_cmd_offset arg)) (dev_log (kst y))"
  have same: "abs_sys (y\<lparr>kst := s, files := (files y)(fd \<mapsto> f)\<rparr>) = abs_sys y"
    using s fd by (simp add: abs_sys_unchanged)
  consider "cmd \<noteq> AESDCHAR_IOCSEEKTO" "r = - ENOTTY" "f' = f"
    | "cmd = AESDCHAR_IOCSEEKTO" "r = - ERESTARTSYS \<or> r = - EFAULT" "f' = f"
    | "cmd = AESDCHAR_IOCSEEKTO" "?sk = None" "r = - EINVAL" "f' = f"
    | pos where "cmd = AESDCHAR_IOCSEEKTO" "?sk = Some pos" "r = int pos" "f' = f\<lparr>f_pos := of_nat pos\<rparr>"
    using res by (auto simp: ioctl_result_def seek_result_def split: if_splits option.splits)
  then show "log_step (abs_sys y) (Ioctl fd cmd arg) r [] (abs_sys (y\<lparr>kst := s, files := (files y)(fd \<mapsto> f')\<rparr>))"
  proof cases
    case 1
    then show ?thesis using fd same abs_ioctl_unknown [of "abs_sys y" fd "f_pos f" cmd arg] by simp
  next
    case 2
    then show ?thesis using fd same abs_seek_fails [of "abs_sys y" fd "f_pos f" cmd r arg] by simp
  next
    case 3
    then show ?thesis using fd same abs_seek_invalid [of "abs_sys y" fd "f_pos f" cmd arg] by simp
  next
    case 4
    then show ?thesis
      using fd s abs_seek [of "abs_sys y" fd "f_pos f" cmd arg pos] by (simp add: abs_sys_moved)
  qed
  show "private_data f' = private_data f"
    using res by (auto simp: ioctl_result_def seek_result_def split: if_splits option.splits)
qed

text \<open>One step: the invariant is kept, the rest of the kernel's memory is untouched, and the
  abstract system makes the same step.\<close>

lemma dev_step_sim:
  assumes K: "kernel_ok K" and inv: "sys_inv X y" and step: "dev_step K y op r out y'"
  shows "sys_inv X y' \<and> log_step (abs_sys y) op r out (abs_sys y')"
proof -
  have i: "dev_inv (kst y)" "foreign (kst y) = X" "\<And>fd f. files y fd = Some f \<Longrightarrow> private_data f = aesd_device"
    using inv by (auto simp: sys_inv_def)
  show ?thesis
    using step
  proof cases
    case (step_open fd f)
    then show ?thesis
      using inv abs_open [of "abs_sys y" fd]
      by (auto simp: sys_inv_def aesd_open_def fresh_file_def aesd_inode_def container_of_cdev_def)
  next
    case (step_release fd f f')
    then show ?thesis
      using inv abs_release [of "abs_sys y" fd "f_pos f"] by (auto simp: sys_inv_def aesd_release_def)
  next
    case (step_read fd f n pos s)
    then have "dev_inv s" "foreign s = foreign (kst y)" "dev_log s = dev_log (kst y)"
      "read_result r out n (f_pos f) pos (dev_log (kst y))"
      using aesd_read_ok [OF K i(1) i(3), of fd f n "f_pos f"] by auto
    then show ?thesis
      using step_read inv i(3) [of fd f] read_simulation by (simp add: sys_inv_upd)
  next
    case (step_write fd f n ubuf s)
    then have "dev_inv s" "foreign s = foreign (kst y)"
      "write_result r (user_bytes ubuf n) (dev_log (kst y)) (dev_log s)"
      using aesd_write_ok [OF K i(1) i(3), of fd f ubuf n] by auto
    then show ?thesis
      using step_write inv write_simulation by (auto simp: sys_inv_def simp del: abs_sys_simps)
  next
    case (step_llseek fd f off whence f' s)
    then have "dev_inv s" "foreign s = foreign (kst y)" and l: "dev_log s = dev_log (kst y)"
      and res: "lseek_result K off whence f r f' (dev_log (kst y))"
      using aesd_lseek_ok [OF i(1) i(3), of fd f K off whence] by auto
    then show ?thesis
      using llseek_simulation [OF K res step_llseek(4) i(1) l] step_llseek inv i(3) [of fd f]
      by (simp add: sys_inv_upd)
  next
    case (step_ioctl fd f cmd arg f' s)
    then have "dev_inv s" "foreign s = foreign (kst y)" and l: "dev_log s = dev_log (kst y)"
      and res: "ioctl_result r f f' cmd arg (dev_log (kst y))"
      using aesd_ioctl_ok [OF i(1) i(3), of fd f K cmd arg] by auto
    then show ?thesis
      using ioctl_simulation [OF res step_ioctl(4) l] step_ioctl inv i(3) [of fd f]
      by (simp add: sys_inv_upd)
  qed
qed

lemma dev_run_sim:
  assumes K: "kernel_ok K" and run: "dev_run K y tr y'"
  shows "sys_inv X y \<Longrightarrow> sys_inv X y' \<and> log_run (abs_sys y) tr (abs_sys y')"
  using run
proof (induction rule: dev_run.induct)
  case (run_Nil y)
  then show ?case by (simp add: log_run_Nil)
next
  case (run_Cons y op r out y1 tr y2)
  then show ?case using dev_step_sim [OF K run_Cons.prems run_Cons.hyps(1)] by (auto intro: log_run_Cons)
qed

text \<open>Every call that may be made has a step: the driver's functions return and have no undefined
  behaviour.\<close>

lemma dev_progress:
  assumes K: "kernel_ok K" and inv: "sys_inv X y" and en: "fop_enabled y op"
  shows "\<exists>r out y'. dev_step K y op r out y'"
proof -
  have i: "dev_inv (kst y)" "\<And>fd f. files y fd = Some f \<Longrightarrow> private_data f = aesd_device"
    using inv by (auto simp: sys_inv_def)
  show ?thesis
  proof (cases op)
    case (Open fd)
    then show ?thesis using en by (auto simp: dev_step_simps aesd_open_def)
  next
    case (Release fd)
    then show ?thesis using en by (auto simp: dev_step_simps aesd_release_def)
  next
    case (Read fd n)
    then obtain f where f: "files y fd = Some f" "unat n \<le> MAX_RW_COUNT" using en by auto
    then obtain r out pos s where "aesd_read K f n (f_pos f) (kst y) = Some (r, out, pos, s)"
      using aesd_read_ok [OF K i(1) i(2), of fd f n "f_pos f"] by blast
    then show ?thesis using step_read [OF f] Read by blast
  next
    case (Write fd ubuf n)
    then obtain f where f: "files y fd = Some f" "unat n \<le> MAX_RW_COUNT" using en by auto
    then obtain r s where "aesd_write K f ubuf n (kst y) = Some (r, s)"
      using aesd_write_ok [OF K i(1) i(2), of fd f ubuf n] by blast
    then show ?thesis using step_write [OF f] Write by blast
  next
    case (Llseek fd off whence)
    then obtain f where f: "files y fd = Some f" using en by auto
    then obtain r f' s where "aesd_lseek K f off whence (kst y) = Some (r, f', s)"
      using aesd_lseek_ok [OF i(1) i(2), of fd f K off whence] by blast
    then show ?thesis using step_llseek [OF f] Llseek by blast
  next
    case (Ioctl fd cmd arg)
    then obtain f where f: "files y fd = Some f" using en by auto
    then obtain r f' s where "aesd_ioctl K f cmd arg (kst y) = Some (r, f', s)"
      using aesd_ioctl_ok [OF i(1) i(2), of fd f K cmd arg] by blast
    then show ?thesis using step_ioctl [OF f] Ioctl by blast
  qed
qed


subsection \<open>From loading to unloading\<close>

definition loaded :: "mstate \<Rightarrow> sys" where
  "loaded m = \<lparr>kst = ks m, files = Map.empty\<rparr>"

lemma loaded_inv:
  assumes "aesd_init_module alloc_res devno add_err m = (0, m1)" and "region m = None" "cdev_live m = None"
    and "take_bit 20 devno = 0" and "alloc_res \<le> 0" "add_err \<le> 0"
  shows "sys_inv (heap (ks m)) (loaded m1)" and "abs_sys (loaded m1) = \<lparr>slog = log_empty, positions = Map.empty\<rparr>"
    and "region m1 = Some (MKDEV (aesd_major m1) aesd_minor)"
  using aesd_init_ok [OF assms] by (simp_all add: sys_inv_def loaded_def abs_sys_def)

lemma run_from_load:
  assumes K: "kernel_ok K" and init: "aesd_init_module alloc_res devno add_err m = (0, m1)"
    and fresh: "region m = None" "cdev_live m = None" "take_bit 20 devno = 0" "alloc_res \<le> 0" "add_err \<le> 0"
    and run: "dev_run K (loaded m1) tr y"
  shows "sys_inv (heap (ks m)) y" and "log_run \<lparr>slog = log_empty, positions = Map.empty\<rparr> tr (abs_sys y)"
  using dev_run_sim [OF K run loaded_inv(1) [OF init fresh]] loaded_inv(2) [OF init fresh] by simp_all

text \<open>What the module allocated, whatever its users did, is given back when it is removed.\<close>

lemma unload_after_run:
  assumes "sys_inv X y" and "region m1 = Some (MKDEV (aesd_major m1) aesd_minor)"
  shows "\<exists>m2. aesd_cleanup_module (m1\<lparr>ks := kst y\<rparr>) = Some m2 \<and> heap (ks m2) = X \<and>
    region m2 = None \<and> cdev_live m2 = None"
  using aesd_cleanup_ok [of "m1\<lparr>ks := kst y\<rparr>"] assms by (auto simp: sys_inv_def)

subsection \<open>What a run leaves in the log\<close>

text \<open>The bytes that the successful writes of a run brought, and whether one of its writes ran out
  of memory.\<close>

fun written :: "(fop \<times> int \<times> byte list) list \<Rightarrow> byte list" where
  "written [] = []"
| "written ((Write fd ubuf n, r, out) # tr) = (if 0 \<le> r then user_bytes ubuf n else []) @ written tr"
| "written ((op, r, out) # tr) = written tr"

fun is_write :: "fop \<Rightarrow> bool" where
  "is_write (Write fd ubuf n) = True"
| "is_write op = False"

definition no_enomem :: "(fop \<times> int \<times> byte list) list \<Rightarrow> bool" where
  "no_enomem tr \<longleftrightarrow> list_all (\<lambda>(op, r, out). \<not> (is_write op \<and> r = - ENOMEM)) tr"

lemma log_step_wf: "log_step a op r out a' \<Longrightarrow> log_wf (slog a) \<Longrightarrow> log_wf (slog a')"
  by (induction rule: log_step.induct) (simp_all add: log_wf_write log_wf_write_partial)

lemma log_run_wf: "log_run a tr a' \<Longrightarrow> log_wf (slog a) \<Longrightarrow> log_wf (slog a')"
  by (induction rule: log_run.induct) (auto dest: log_step_wf)

lemma log_step_written:
  "log_step a op r out a' \<Longrightarrow> \<not> (is_write op \<and> r = - ENOMEM) \<Longrightarrow> log_wf (slog a) \<Longrightarrow>
   slog a' = log_write (written [(op, r, out)]) (slog a)"
  by (induction rule: log_step.induct) (auto simp: log_write_Nil)

lemma written_Cons: "written (x # tr) = written [x] @ written tr"
  by (cases x; cases "fst x") auto

lemma log_run_written:
  "log_run a tr a' \<Longrightarrow> no_enomem tr \<Longrightarrow> log_wf (slog a) \<Longrightarrow>
   slog a' = log_write (written tr) (slog a)"
proof (induction rule: log_run.induct)
  case (log_run_Nil a)
  then show ?case by (simp add: log_write_Nil)
next
  case (log_run_Cons a op r out a1 tr a2)
  then have "slog a1 = log_write (written [(op, r, out)]) (slog a)"
    by (auto simp: no_enomem_def dest: log_step_written)
  moreover have "log_wf (slog a1)" using log_run_Cons by (blast dest: log_step_wf)
  ultimately show ?case
    using log_run_Cons.IH log_run_Cons.prems(1) written_Cons [of "(op, r, out)" tr]
    by (simp add: no_enomem_def log_write_append)
qed

text \<open>From the empty log: the newest ten lines of everything that was written.\<close>

lemma log_write_from_empty:
  "log_write d log_empty = \<lparr>lines = take_last MAX_OPS (fst (feed [] d)), pending = snd (feed [] d)\<rparr>"
  by (simp add: log_write_def log_empty_def split_def Let_def)

end
