(* ===== verification/Device_File.thy ===== *)
theory Device_File
  imports Driver_System
begin

text \<open>
  The device as a user process sees it: an open file with \<open>read\<close>, \<open>write\<close> and the seek request.
  \<open>device\<close> collects the three calls, \<open>chardev\<close> is the driver behind an open file, and the locale
  \<open>device_file\<close> is the contract through which the socket server uses it: the server's reply loop is
  proved once from the contract.
\<close>

subsection \<open>The calls\<close>

record 'd device =
  d_read :: "nat \<Rightarrow> 'd \<Rightarrow> (int \<times> byte list \<times> 'd) option"
  d_write :: "byte list \<Rightarrow> 'd \<Rightarrow> (int \<times> 'd) option"
  d_seekto :: "aesd_seekto \<Rightarrow> 'd \<Rightarrow> (int \<times> 'd) option"

text \<open>The C library returns \<open>-1\<close> for every error of the kernel, and \<open>ioctl\<close> returns an \<open>int\<close>.\<close>

definition libc_result :: "int \<Rightarrow> int" where
  "libc_result r = (if r < 0 then - 1 else r)"

definition chardev :: "kernel \<Rightarrow> (kstate \<times> struct_file) device" where
  "chardev K =
     \<lparr>d_read = \<lambda>n (s, f). do {
          (r, out, pos, s) \<leftarrow> aesd_read K f (of_nat n) (f_pos f) s;
          Some (libc_result r, out, (s, f\<lparr>f_pos := pos\<rparr>)) },
      d_write = \<lambda>bs (s, f). do {
          (r, s) \<leftarrow> aesd_write K f (\<lambda>i. bs ! i) (of_nat (length bs)) s;
          Some (libc_result r, (s, f)) },
      d_seekto = \<lambda>arg (s, f). do {
          (r, f, s) \<leftarrow> aesd_ioctl K f AESDCHAR_IOCSEEKTO arg s;
          Some (signed_take_bit 31 (libc_result r), (s, f)) }\<rparr>"

text \<open>The loop \<open>while ((n = read(fd, buffer, size)) > 0) send(...)\<close>: the bytes sent so far are
  collected; the result is the value of the last \<open>read\<close>.\<close>

partial_function (option) reply_loop ::
  "'d device \<Rightarrow> nat \<Rightarrow> 'd \<Rightarrow> byte list \<Rightarrow> (int \<times> byte list \<times> 'd) option" where
  "reply_loop D bufsize d sent =
     do { (n, out, d) \<leftarrow> d_read D bufsize d;
          if 0 < n then reply_loop D bufsize d (sent @ take (nat n) out) else Some (n, sent, d) }"

declare reply_loop.simps [code]

subsection \<open>The contract\<close>

locale device_file =
  fixes D :: "'d device"
    and inv :: "'d \<Rightarrow> bool"
    and log :: "'d \<Rightarrow> line_log"
    and pos :: "'d \<Rightarrow> nat"
  assumes read_law: "inv d \<Longrightarrow> n \<le> MAX_RW_COUNT \<Longrightarrow>
      \<exists>r out d'. d_read D n d = Some (r, out, d') \<and> inv d' \<and> log d' = log d \<and>
        (r < 0 \<and> pos d' = pos d \<or>
         out = log_read (pos d) n (log d) \<and> r = int (length out) \<and> pos d' = pos d + length out)"
    and write_law: "inv d \<Longrightarrow> length bs \<le> MAX_RW_COUNT \<Longrightarrow>
      \<exists>r d'. d_write D bs d = Some (r, d') \<and> inv d' \<and> pos d' = pos d \<and>
        (r < 0 \<or> r = int (length bs) \<and> log d' = log_write bs (log d))"
    and seek_law: "inv d \<Longrightarrow>
      \<exists>r d'. d_seekto D arg d = Some (r, d') \<and> inv d' \<and> log d' = log d \<and>
        (case log_seek (unat (write_cmd arg)) (unat (write_cmd_offset arg)) (log d) of
           None \<Rightarrow> r < 0 \<and> pos d' = pos d
         | Some p \<Rightarrow> r < 0 \<and> pos d' = pos d \<or> pos d' = p \<and> (p < 2 ^ 31 \<longrightarrow> r = int p))"
begin

text \<open>The loop ends. What it has sent is a piece of the content from the position on, the whole rest
  unless a read failed.\<close>

lemma reply_loop_ok:
  assumes "inv d" and "0 < bufsize" "bufsize \<le> MAX_RW_COUNT"
  shows "\<exists>n rest d'. reply_loop D bufsize d sent = Some (n, sent @ rest, d') \<and> inv d' \<and> log d' = log d \<and>
    n \<le> 0 \<and> pos d' = pos d + length rest \<and> rest = take (length rest) (drop (pos d) (log_content (log d))) \<and>
    (n = 0 \<longrightarrow> rest = drop (pos d) (log_content (log d)))"
  using assms(1)
proof (induction "length (log_content (log d)) - pos d" arbitrary: d sent rule: less_induct)
  case less
  let ?c = "log_content (log d)" and ?out = "log_read (pos d) bufsize (log d)"
  obtain r out d1 where r: "d_read D bufsize d = Some (r, out, d1)" "inv d1" "log d1 = log d"
    and cases: "r < 0 \<and> pos d1 = pos d \<or>
      out = ?out \<and> r = int (length out) \<and> pos d1 = pos d + length out"
    using read_law [OF less.prems assms(3)] by blast
  consider (error) "r < 0" "pos d1 = pos d"
    | (at_end) "r = 0" "out = []" "?out = []" "pos d1 = pos d"
    | (more) "0 < r" "out = ?out" "r = int (length out)" "pos d1 = pos d + length out"
    using cases by (cases "?out = []") auto
  then show ?case
  proof cases
    case error
    then show ?thesis
      using r by (intro exI [of _ r] exI [of _ "[]"] exI [of _ d1]) (simp add: reply_loop.simps)
  next
    case at_end
    then have "\<not> pos d < length ?c" using log_read_nonempty [OF assms(2)] by blast
    then show ?thesis
      using at_end r
      by (intro exI [of _ 0] exI [of _ "[]"] exI [of _ d1]) (simp add: reply_loop.simps)
  next
    case more
    have out: "out = take (length out) (drop (pos d) ?c)"
      unfolding more(2) by (rule log_read_is_prefix)
    have "out \<noteq> []" using more by auto
    then have lt: "pos d < length ?c" using out log_read_end [of "log d" "pos d" bufsize] more(2) by force
    have dec: "length (log_content (log d1)) - pos d1 < length ?c - pos d"
      using lt \<open>out \<noteq> []\<close> unfolding r(3) more(4) length_greater_0_conv [symmetric] by linarith
    obtain n rest d' where IH: "reply_loop D bufsize d1 (sent @ out) = Some (n, (sent @ out) @ rest, d')" "inv d'"
        "log d' = log d1" "n \<le> 0" "pos d' = pos d1 + length rest"
        "rest = take (length rest) (drop (pos d1) (log_content (log d1)))"
        "n = 0 \<longrightarrow> rest = drop (pos d1) (log_content (log d1))"
      using less.hyps [OF dec r(2), of "sent @ out"] by blast
    have dr: "drop (pos d) ?c = out @ drop (pos d1) ?c"
      using out more(4) by (metis add.commute append_take_drop_id drop_drop)
    have "reply_loop D bufsize d sent = Some (n, sent @ (out @ rest), d')"
      using r(1) more(1,3) IH(1) by (simp add: reply_loop.simps [of D bufsize d])
    moreover have "out @ rest = take (length (out @ rest)) (drop (pos d) ?c)"
      using IH(6) r(3) by (simp add: dr)
    moreover have "n = 0 \<longrightarrow> out @ rest = drop (pos d) ?c" using IH(7) r(3) by (simp add: dr)
    moreover have "pos d' = pos d + length (out @ rest)" "log d' = log d"
      using IH(3,5) r(3) more(4) by simp_all
    ultimately show ?thesis using IH(2,4) by blast
  qed
qed

text \<open>A successful seek followed by the loop sends the content from the requested byte on.\<close>

lemma seek_and_reply:
  assumes inv: "inv d" and size: "0 < bufsize" "bufsize \<le> MAX_RW_COUNT"
    and seek: "d_seekto D arg d = Some (r, d1)" "0 \<le> r"
    and run: "reply_loop D bufsize d1 [] = Some (0, sent, d2)"
  shows "\<exists>p. log_seek (unat (write_cmd arg)) (unat (write_cmd_offset arg)) (log d) = Some p \<and>
    sent = drop p (log_content (log d)) \<and> log d2 = log d \<and> inv d2"
proof -
  obtain p where p: "log_seek (unat (write_cmd arg)) (unat (write_cmd_offset arg)) (log d) = Some p"
      "pos d1 = p" "inv d1" "log d1 = log d"
    using seek_law [OF inv, of arg] seek by (auto split: option.splits)
  then show ?thesis
    using reply_loop_ok [OF p(3) size, of "[]"] run by auto
qed

end

subsection \<open>Sequences of operations\<close>

text \<open>The two operations that the server performs as one critical section each: a write, and a seek
  request that is followed, unless it fails, by the reply loop. The result has the value of the last call
  and the bytes to be sent.\<close>

datatype dev_op = Dwrite "byte list" | Dseek aesd_seekto

fun d_op :: "'d device \<Rightarrow> dev_op \<Rightarrow> 'd \<Rightarrow> (int \<times> byte list \<times> 'd) option" where
  "d_op D (Dwrite bs) d = do { (r, d) \<leftarrow> d_write D bs d; Some (r, [], d) }"
| "d_op D (Dseek arg) d =
     do { (x, d) \<leftarrow> d_seekto D arg d;
          if x < 0 then Some (x, [], d) else reply_loop D 1024 d [] }"

fun d_ops :: "'d device \<Rightarrow> dev_op list \<Rightarrow> 'd \<Rightarrow> ((int \<times> byte list) list \<times> 'd) option" where
  "d_ops D [] d = Some ([], d)"
| "d_ops D (x # xs) d = do { (r, out, d) \<leftarrow> d_op D x d; (rs, d) \<leftarrow> d_ops D xs d; Some ((r, out) # rs, d) }"

fun op_fits :: "dev_op \<Rightarrow> bool" where
  "op_fits (Dwrite bs) \<longleftrightarrow> length bs \<le> MAX_RW_COUNT"
| "op_fits (Dseek arg) \<longleftrightarrow> True"

fun writes_of :: "dev_op \<Rightarrow> byte list list" where
  "writes_of (Dwrite bs) = [bs]"
| "writes_of (Dseek arg) = []"

lemma d_ops_snoc:
  "d_ops D xs d = Some (rs, d1) \<Longrightarrow> d_op D x d1 = Some (r, out, d2) \<Longrightarrow> d_ops D (xs @ [x]) d = Some (rs @ [(r, out)], d2)"
  by (induction xs arbitrary: d rs) (auto simp: bind_eq_Some_conv)

lemma d_ops_append:
  "d_ops D (xs @ ys) d = do { (rs, d) \<leftarrow> d_ops D xs d; (rs', d) \<leftarrow> d_ops D ys d; Some (rs @ rs', d) }"
  by (induction xs arbitrary: d) (auto split: bind_splits)

lemma length_d_ops: "d_ops D xs d = Some (rs, d') \<Longrightarrow> length rs = length xs"
  by (induction xs arbitrary: d rs) (auto simp: bind_eq_Some_conv)

text \<open>What an operation does to the log, and what it sends: a seek request that succeeds sends the content
  from the requested byte on, up to a read that fails.\<close>

definition op_result :: "dev_op \<Rightarrow> line_log \<Rightarrow> int \<Rightarrow> byte list \<Rightarrow> line_log \<Rightarrow> bool" where
  "op_result x L r out L' \<longleftrightarrow>
     (case x of
        Dwrite bs \<Rightarrow> out = [] \<and> (r < 0 \<or> r = int (length bs) \<and> L' = log_write bs L)
      | Dseek arg \<Rightarrow> L' = L \<and> r \<le> 0 \<and>
          (out = [] \<and> r < 0 \<or>
           (\<exists>p. log_seek (unat (write_cmd arg)) (unat (write_cmd_offset arg)) L = Some p \<and>
              out = take (length out) (drop p (log_content L)) \<and> (r = 0 \<longrightarrow> out = drop p (log_content L)))))"

context device_file
begin

lemma d_op_ok:
  assumes inv: "inv d" and fits: "op_fits x"
  shows "\<exists>r out d'. d_op D x d = Some (r, out, d') \<and> inv d' \<and> op_result x (log d) r out (log d')"
proof (cases x)
  case (Dwrite bs)
  then show ?thesis using write_law [OF inv, of bs] fits by (auto simp: op_result_def)
next
  case (Dseek arg)
  obtain x' d1 where s: "d_seekto D arg d = Some (x', d1)" "inv d1" "log d1 = log d"
    and c: "case log_seek (unat (write_cmd arg)) (unat (write_cmd_offset arg)) (log d) of
           None \<Rightarrow> x' < 0 \<and> pos d1 = pos d
         | Some p \<Rightarrow> x' < 0 \<and> pos d1 = pos d \<or> pos d1 = p \<and> (p < 2 ^ 31 \<longrightarrow> x' = int p)"
    using seek_law [OF inv, of arg] by blast
  show ?thesis
  proof (cases "x' < 0")
    case True
    then show ?thesis using s Dseek by (simp add: op_result_def)
  next
    case False
    then obtain p where p: "log_seek (unat (write_cmd arg)) (unat (write_cmd_offset arg)) (log d) = Some p" "pos d1 = p"
      using c by (auto split: option.splits)
    obtain n rest d2 where r: "reply_loop D 1024 d1 [] = Some (n, [] @ rest, d2)" "inv d2" "log d2 = log d1" "n \<le> 0"
        "rest = take (length rest) (drop (pos d1) (log_content (log d1)))"
        "n = 0 \<longrightarrow> rest = drop (pos d1) (log_content (log d1))"
      using reply_loop_ok [OF s(2), of 1024 "[]"] by auto
    have "d_op D x d = Some (n, rest, d2)" using False s(1) r(1) Dseek by simp
    moreover have "op_result x (log d) n rest (log d2)"
      using r(3-6) s(3) p Dseek unfolding op_result_def by auto
    ultimately show ?thesis using r(2) by blast
  qed
qed

text \<open>A whole sequence: if no write fails, the log has all the writes.\<close>

lemma d_ops_ok:
  "inv d \<Longrightarrow> \<forall>x \<in> set xs. op_fits x \<Longrightarrow> d_ops D xs d = Some (rs, d') \<Longrightarrow>
   inv d' \<and> (list_all2 (\<lambda>x r. writes_of x \<noteq> [] \<longrightarrow> 0 \<le> fst r) xs rs \<longrightarrow>
     log d' = fold log_write (concat (map writes_of xs)) (log d))"
proof (induction xs arbitrary: d rs)
  case (Cons x xs)
  obtain r out d1 rs' where d1: "d_op D x d = Some (r, out, d1)" "d_ops D xs d1 = Some (rs', d')" "rs = (r, out) # rs'"
    using Cons.prems(3) by (auto simp: bind_eq_Some_conv)
  have inv: "inv d1" "op_result x (log d) r out (log d1)"
    using d_op_ok [OF Cons.prems(1), of x] Cons.prems(2) d1(1) by auto
  have "0 \<le> r \<or> writes_of x = [] \<Longrightarrow> log d1 = fold log_write (writes_of x) (log d)"
    using inv(2) by (cases x) (auto simp: op_result_def)
  then show ?case
    using Cons.IH [OF inv(1) _ d1(2)] Cons.prems(2) d1(3) by auto
qed simp

end

subsection \<open>The driver provides the contract\<close>

definition chardev_inv :: "kernel \<Rightarrow> kstate \<times> struct_file \<Rightarrow> bool" where
  "chardev_inv K d \<longleftrightarrow> kernel_ok K \<and> dev_inv (fst d) \<and> private_data (snd d) = aesd_device"

abbreviation chardev_log :: "kstate \<times> struct_file \<Rightarrow> line_log" where
  "chardev_log d \<equiv> dev_log (fst d)"

abbreviation chardev_pos :: "kstate \<times> struct_file \<Rightarrow> nat" where
  "chardev_pos d \<equiv> unat (f_pos (snd d))"

lemma unat_of_nat_rw: "n \<le> MAX_RW_COUNT \<Longrightarrow> unat (of_nat n :: size_t) = n"
  by (rule unat_of_nat_size_t) simp

lemma user_bytes_list: "length bs \<le> MAX_RW_COUNT \<Longrightarrow> user_bytes (\<lambda>i. bs ! i) (of_nat (length bs)) = bs"
  by (simp add: user_bytes_def unat_of_nat_rw map_nth)

lemma log_read_position:
  fixes p :: loff_t
  assumes inv: "dev_inv s" and out: "out = log_read (unat p) n (dev_log s)"
  shows "unat (p + of_nat (length out)) = unat p + length out"
proof (cases "out = []")
  case True
  then show ?thesis by simp
next
  case False
  let ?c = "log_content (dev_log s)"
  have lt: "unat p < length ?c" using False out log_read_end [of "dev_log s" "unat p" n] by force
  have "length out \<le> length ?c"
    using arg_cong [OF log_read_is_prefix [of "unat p" n "dev_log s"], of length] out by auto
  then have "unat p + length out < 2 ^ 64" "length out < 2 ^ 64"
    using lt content_bound [OF inv] by simp_all
  then show ?thesis by (subst unat_plus_size_t) (simp_all add: unat_of_nat_size_t)
qed

lemma chardev_read_law:
  assumes inv: "chardev_inv K d" and n: "n \<le> MAX_RW_COUNT"
  shows "\<exists>r out d'. d_read (chardev K) n d = Some (r, out, d') \<and> chardev_inv K d' \<and>
    chardev_log d' = chardev_log d \<and> (r < 0 \<and> chardev_pos d' = chardev_pos d \<or>
    out = log_read (chardev_pos d) n (chardev_log d) \<and> r = int (length out) \<and>
    chardev_pos d' = chardev_pos d + length out)"
proof -
  obtain s f where d: "d = (s, f)" by fastforce
  have i: "dev_inv s" "private_data f = aesd_device" and K: "kernel_ok K"
    using inv by (simp_all add: chardev_inv_def d)
  have u: "unat (of_nat n :: size_t) = n" by (rule unat_of_nat_rw [OF n])
  obtain r out pos s' where r: "aesd_read K f (of_nat n) (f_pos f) s = Some (r, out, pos, s')" "dev_inv s'"
      "dev_log s' = dev_log s" "read_result r out (of_nat n) (f_pos f) pos (dev_log s)"
    using aesd_read_ok [OF K i, of "of_nat n" "f_pos f"] u n by auto
  have ex: "d_read (chardev K) n d = Some (libc_result r, out, (s', f\<lparr>f_pos := pos\<rparr>))"
    using r(1) by (simp add: chardev_def d)
  have "libc_result r < 0 \<and> unat pos = unat (f_pos f) \<or>
      out = log_read (unat (f_pos f)) n (dev_log s) \<and> libc_result r = int (length out) \<and>
      unat pos = unat (f_pos f) + length out"
    using r(4) log_read_position [OF i(1), of out "f_pos f" n]
    by (auto simp: read_result_def libc_result_def u)
  then show ?thesis
    using ex r(2,3) i(2) K by (simp add: d chardev_inv_def)
qed

lemma chardev_write_law:
  assumes inv: "chardev_inv K d" and n: "length bs \<le> MAX_RW_COUNT"
  shows "\<exists>r d'. d_write (chardev K) bs d = Some (r, d') \<and> chardev_inv K d' \<and>
    chardev_pos d' = chardev_pos d \<and>
    (r < 0 \<or> r = int (length bs) \<and> chardev_log d' = log_write bs (chardev_log d))"
proof -
  obtain s f where d: "d = (s, f)" by fastforce
  have i: "dev_inv s" "private_data f = aesd_device" and K: "kernel_ok K"
    using inv by (simp_all add: chardev_inv_def d)
  obtain r s' where r: "aesd_write K f (\<lambda>i. bs ! i) (of_nat (length bs)) s = Some (r, s')" "dev_inv s'"
      "write_result r bs (dev_log s) (dev_log s')"
    using aesd_write_ok [OF K i, of "\<lambda>i. bs ! i" "of_nat (length bs)"] user_bytes_list [OF n] by auto
  then have "d_write (chardev K) bs d = Some (libc_result r, (s', f))" by (simp add: chardev_def d)
  then show ?thesis
    using r(2,3) i(2) K by (auto simp: d chardev_inv_def write_result_def libc_result_def)
qed

lemma chardev_seek_law:
  assumes inv: "chardev_inv K d"
  shows "\<exists>r d'. d_seekto (chardev K) arg d = Some (r, d') \<and> chardev_inv K d' \<and>
    chardev_log d' = chardev_log d \<and>
    (case log_seek (unat (write_cmd arg)) (unat (write_cmd_offset arg)) (chardev_log d) of
       None \<Rightarrow> r < 0 \<and> chardev_pos d' = chardev_pos d
     | Some p \<Rightarrow> r < 0 \<and> chardev_pos d' = chardev_pos d \<or> chardev_pos d' = p \<and> (p < 2 ^ 31 \<longrightarrow> r = int p))"
proof -
  obtain s f where d: "d = (s, f)" by fastforce
  have i: "dev_inv s" "private_data f = aesd_device" and K: "kernel_ok K"
    using inv by (simp_all add: chardev_inv_def d)
  let ?sk = "log_seek (unat (write_cmd arg)) (unat (write_cmd_offset arg)) (dev_log s)"
  obtain r f' s' where r: "aesd_ioctl K f AESDCHAR_IOCSEEKTO arg s = Some (r, f', s')" "dev_inv s'"
      "dev_log s' = dev_log s" "ioctl_result r f f' AESDCHAR_IOCSEEKTO arg (dev_log s)"
    using aesd_ioctl_ok [OF i, of K AESDCHAR_IOCSEEKTO arg] by blast
  have ex: "d_seekto (chardev K) arg d = Some (signed_take_bit 31 (libc_result r), (s', f'))"
    using r(1) by (simp add: chardev_def d)
  have neg: "signed_take_bit 31 (- 1 :: int) = - 1" by simp
  consider (error) "r < 0" "f' = f" | p where "?sk = Some p" "r = int p" "f' = f\<lparr>f_pos := of_nat p\<rparr>"
    using r(4) by (auto simp: ioctl_result_def seek_result_def split: option.splits)
  then show ?thesis
  proof cases
    case error
    then show ?thesis
      using ex r(2,3) i(2) K neg by (auto simp: d chardev_inv_def libc_result_def split: option.split)
  next
    case 2
    have "p < 2 ^ 64"
      using log_seek_content(1) [OF 2(1)] content_bound [OF i(1)] by simp
    moreover have "p < 2 ^ 31 \<Longrightarrow> signed_take_bit 31 (int p) = int p"
      by (simp add: signed_take_bit_int_eq_self)
    ultimately show ?thesis
      using ex 2 r(2,3) i(2) K by (simp add: d chardev_inv_def libc_result_def unat_of_nat_size_t)
  qed
qed


interpretation chardev: device_file "chardev K" "chardev_inv K" chardev_log chardev_pos for K
  by unfold_locales (blast intro: chardev_read_law chardev_write_law chardev_seek_law)+

end
