(* ===== verification/Driver_Properties.thy ===== *)
theory Driver_Properties
  imports Device_File
begin

text \<open>
  The properties of the circular buffer and of the driver, each stated over the functions of the
  source and applied at a concrete state by its witness.
\<close>

subsection \<open>A concrete kernel and a concrete device\<close>

text \<open>No interrupt, no fault; blocks of up to 64 bytes are served at the address given by the number
  of calls so far. The device holds the line \<open>ab\<close> and the pending byte \<open>c\<close>; one block is foreign.\<close>

definition demo_kernel :: kernel where
  "demo_kernel =
     \<lparr>k_alloc = \<lambda>c h n. if h c = None \<and> n \<le> 64 then Some c else None,
      k_intr = \<lambda>_. False,
      k_uncopied = \<lambda>_ _. 0,
      k_llseek = \<lambda>p off wh sz. if wh = 0 \<and> 0 \<le> sint off \<and> sint off \<le> sint sz then (off, off)
                               else (- 22, p)\<rparr>"

definition demo_state :: kstate where
  "demo_state =
     \<lparr>heap = [1 \<mapsto> map Some [97, 98, NEWLINE], 2 \<mapsto> [Some 99], 60 \<mapsto> [Some 0]], calls = 4,
      dev = \<lparr>lock = False,
        c_buffer = \<lparr>entry = \<lparr>buffptr = Ptr 1, bsize = 3\<rparr> # replicate 9 zero_entry,
                    in_offs = 1, out_offs = 0, full = False\<rparr>,
        partial_buffer = \<lparr>buffptr = Ptr 2, bsize = 1\<rparr>\<rparr>,
      evicted_entry = zero_entry\<rparr>"

definition demo_file :: struct_file where
  "demo_file = \<lparr>f_pos = 0, private_data = aesd_device\<rparr>"

definition demo_module :: mstate where
  "demo_module =
     \<lparr>ks = \<lparr>heap = [60 \<mapsto> [Some 0]], calls = 0, dev = zero_dev, evicted_entry = zero_entry\<rparr>,
      aesd_major = 0, region = None, cdev_live = None\<rparr>"

lemma demo_kernel_ok: "kernel_ok demo_kernel"
  by (auto simp: kernel_ok_def demo_kernel_def allocator_ok_def split: if_splits)

lemma demo_file_ok: "private_data demo_file = aesd_device"
  by (simp add: demo_file_def)

lemma demo_repr: "dev_repr demo_state [[97, 98, NEWLINE]] [99]"
  by (simp add: demo_state_def dev_repr_def ring_inv_def ring_shape_def ring_unused_def ring_items_def
      slot_holds_def holds_iff owned_def)

lemma demo_log: "dev_log demo_state = \<lparr>lines = [[97, 98, NEWLINE]], pending = [99]\<rparr>"
  by (rule dev_log_repr [OF demo_repr])

lemma demo_inv: "dev_inv demo_state"
  by (rule dev_invI [OF demo_repr]) (simp_all add: log_wf_def is_line_def demo_state_def)

lemma demo_foreign: "foreign demo_state = [60 \<mapsto> [Some 0]]"
  by (rule ext) (simp add: foreign_def owned_def demo_state_def ring_items_def restrict_map_def)

subsection \<open>The circular buffer\<close>

text \<open>C1: the circular buffer keeps the newest ten entries. Starting from the initialised buffer and
  adding any list of entries, no addition has an access out of bounds, the invariant holds at the
  end, the entries of the buffer by age are the last ten of the list, and the entries handed back for
  release followed by those still in the buffer are the whole list: none is lost, none is
  duplicated.\<close>

theorem circular_buffer_keeps_newest_ten:
  "\<exists>vs b. push_all aesd_circular_buffer_add_entry v aesd_circular_buffer_init es = Some (vs, b) \<and>
     ring_inv b \<and> ring_items b = take_last 10 es \<and> vs @ ring_items b = es"
  by (rule ring.push_all_from_empty)

text \<open>One addition in any state of the invariant. With room the entry goes to the end and the
  static variable is untouched; a full buffer hands back its oldest entry, and the slot is reused.\<close>

theorem add_entry_branches:
  assumes "ring_inv b"
  shows "\<exists>v' b'. aesd_circular_buffer_add_entry v b e = Some (v', b', full b) \<and> ring_inv b' \<and>
    (if full b then v' = hd (ring_items b) \<and> ring_items b' = tl (ring_items b) @ [e]
      else v' = v \<and> ring_items b' = ring_items b @ [e]) \<and>
    full b' = (length (ring_items b) \<ge> 9)"
proof (cases "full b")
  case True
  then obtain b' where b': "aesd_circular_buffer_add_entry v b e = Some (hd (ring_items b), b', True)"
      "ring_inv b'" "ring_items b' = tl (ring_items b) @ [e]"
    using add_entry_full [OF assms] by blast
  then have "full b'" using ring_items_full [of b'] ring_items_full [OF assms] True by simp
  then show ?thesis using b' True ring_items_full [OF assms] by simp
next
  case False
  then obtain b' where b': "aesd_circular_buffer_add_entry v b e = Some (v, b', False)"
      "ring_inv b'" "ring_items b' = ring_items b @ [e]"
    using add_entry_room [OF assms] by blast
  moreover have "length (ring_items b) < 10"
    using False ring_items_full [OF assms] ring.items_bounded [OF assms] by linarith
  ultimately show ?thesis using False ring_items_full [of b'] by auto
qed

lemma add_entry_branches_witness:
  "\<exists>v' b'. aesd_circular_buffer_add_entry zero_entry aesd_circular_buffer_init \<lparr>buffptr = Ptr 7, bsize = 2\<rparr> =
     Some (v', b', full aesd_circular_buffer_init) \<and> ring_inv b'"
  using add_entry_branches [OF ring_init_inv, of zero_entry "\<lparr>buffptr = Ptr 7, bsize = 2\<rparr>"] by blast

text \<open>C2: the search for a file position agrees with the reference search in the concatenation of
  the entries by age: it fails exactly behind the end, and otherwise names the slot that holds the
  position and the offset inside it.\<close>

theorem find_entry_equivalence:
  assumes "ring_inv b" and "ring_total b < 2 ^ 64"
  shows "case aesd_circular_buffer_find_entry_offset_for_fpos b off of
      None \<Rightarrow> False
    | Some None \<Rightarrow> ring_total b \<le> unat off
    | Some (Some (idx, r)) \<Rightarrow>
        \<exists>k < length (ring_items b). entry_at b idx = Some (ring_items b ! k) \<and> r < bsize (ring_items b ! k) \<and>
          unat off = sum_list (take k (sizes (ring_items b))) + unat r"
proof -
  note f = find_correct [OF assms, of off]
  show ?thesis
  proof (cases "locate (sizes (ring_items b)) (unat off)")
    case None
    then have "ring_total b \<le> unat off"
      using locate_None_iff [of "sizes (ring_items b)" "unat off"] by (simp add: ring_total_def)
    then show ?thesis using f None by simp
  next
    case (Some kr)
    obtain k r where kr: "kr = (k, r)" by fastforce
    have l: "k < length (ring_items b)" "r < unat (bsize (ring_items b ! k))"
        "unat off = sum_list (take k (sizes (ring_items b))) + r"
      using locate_Some [of _ _ k r] Some kr by fastforce+
    have "r < 2 ^ 64" using l(3) unat_u64 [of off] by linarith
    then have u: "unat (of_nat r :: size_t) = r" by (rule unat_of_nat_size_t)
    have "entry_at b ((unat (out_offs b) + k) mod 10) = Some (ring_items b ! k)"
      by (rule ring_items_nth [OF assms(1) l(1)])
    then show ?thesis
      using f Some kr l u by (auto simp: word_less_nat_alt intro!: exI [of _ k])
  qed
qed

lemma find_entry_equivalence_witness:
  "aesd_circular_buffer_find_entry_offset_for_fpos (c_buffer (dev demo_state)) 2 = Some (Some (0, 2)) \<and>
   (\<exists>k < 1. 2 = sum_list (take k [3::nat]) + 2)"
  using find_entry_equivalence [of "c_buffer (dev demo_state)" 2] repr_ring [OF demo_repr]
    repr_find [OF demo_repr, of 2]
  by (simp add: ring_total_def demo_state_def ring_items_def)


text \<open>The macro that walks over the buffer runs its body once on each of the ten slots, in index
  order, and never leaves the array.\<close>

lemma foreach_from_fold:
  "length (entry b) = 10 \<Longrightarrow> i \<le> 10 \<Longrightarrow> foreach_from body b i s = Some (fold body (drop i (entry b)) s)"
proof (induction "10 - i" arbitrary: i s)
  case 0
  then have "i = 10" by simp
  then show ?case using 0 by (simp add: foreach_from.simps [of body b 10])
next
  case (Suc m)
  then have "i < 10" by simp
  then have "foreach_from body b i s = foreach_from body b (Suc i) (body (entry b ! i) s)"
    using Suc.prems by (simp add: foreach_from.simps [of body b i] entry_at_def)
  also have "\<dots> = Some (fold body (drop (Suc i) (entry b)) (body (entry b ! i) s))"
    using Suc by (intro Suc.hyps(1)) simp_all
  finally show ?case
    using \<open>i < 10\<close> Suc.prems by (simp add: Cons_nth_drop_Suc [symmetric])
qed

lemma foreach_visits_every_slot:
  assumes "ring_inv b"
  shows "AESD_CIRCULAR_BUFFER_FOREACH body b s = Some (fold body (entry b) s)"
  using foreach_from_fold [of b 0 body s] assms
  by (simp add: AESD_CIRCULAR_BUFFER_FOREACH_def ring_inv_def ring_shape_def)

lemma foreach_visits_every_slot_witness:
  "AESD_CIRCULAR_BUFFER_FOREACH (\<lambda>e n. n + unat (bsize e)) (c_buffer (dev demo_state)) 0 = Some 3"
proof -
  have "fold (\<lambda>e n. n + unat (bsize e)) (entry (c_buffer (dev demo_state))) 0 = 3" by code_simp
  then show ?thesis
    using foreach_visits_every_slot [OF repr_ring [OF demo_repr], of "\<lambda>e n. n + unat (bsize e)" 0] by simp
qed

subsection \<open>The operations of the driver\<close>

text \<open>C3: a write in any good state, with any behaviour of the allocator, of \<open>copy_from_user\<close> and of
  signals: it returns, without undefined behaviour; the invariant holds again, so the mutex is free
  and no entry shares memory with another; nothing but the memory of the device has changed, so the
  temporary copy is released on every path. On success the log has taken the bytes, line by line; an
  interrupted or faulting write changes nothing; one that runs out of memory has stored a prefix of
  its lines.\<close>

theorem write_correct:
  assumes "kernel_ok K" and "dev_inv s" and "private_data filp = aesd_device"
  shows "\<exists>r s'. aesd_write K filp ubuf n s = Some (r, s') \<and> dev_inv s' \<and> foreign s' = foreign s \<and>
    (r = int (unat n) \<and> dev_log s' = log_write (user_bytes ubuf n) (dev_log s) \<or>
     (r = - ERESTARTSYS \<or> r = - EFAULT) \<and> dev_log s' = dev_log s \<or>
     r = - ENOMEM \<and> (\<exists>k \<le> length (fst (feed (pending (dev_log s)) (user_bytes ubuf n))).
       dev_log s' = log_write_partial k (user_bytes ubuf n) (dev_log s)))"
  using aesd_write_ok [OF assms, of ubuf n] by (auto simp: write_result_def user_bytes_def)

lemma write_correct_witness:
  "\<exists>r s'. aesd_write demo_kernel demo_file (\<lambda>i. [100, NEWLINE, 101] ! i) 3 demo_state = Some (r, s') \<and>
     dev_inv s' \<and> foreign s' = [60 \<mapsto> [Some 0]]"
  using write_correct [OF demo_kernel_ok demo_inv demo_file_ok, of "\<lambda>i. [100, NEWLINE, 101] ! i" 3]
    demo_foreign by auto

text \<open>C4: a read returns the bytes of the line that holds the file position, from the position on, at
  most as many as asked for and never past the end of that line; 0 only at the end of the content or
  when asked for nothing. The position moves by the bytes returned. On an interruption or a fault the
  position stays; the device never changes.\<close>

theorem read_correct:
  assumes "kernel_ok K" and "dev_inv s" and "private_data filp = aesd_device" and "unat n \<le> MAX_RW_COUNT"
  shows "\<exists>r out pos s'. aesd_read K filp n fpos s = Some (r, out, pos, s') \<and> dev_inv s' \<and>
    foreign s' = foreign s \<and> dev_log s' = dev_log s \<and>
    (r = - ERESTARTSYS \<and> out = [] \<and> pos = fpos \<or>
     r = - EFAULT \<and> pos = fpos \<or>
     out = log_read (unat fpos) (unat n) (dev_log s) \<and> r = int (length out) \<and> pos = fpos + of_nat (length out) \<and>
     out = take (length out) (drop (unat fpos) (log_content (dev_log s))) \<and> length out \<le> unat n \<and>
     (r = 0 \<longrightarrow> n = 0 \<or> length (log_content (dev_log s)) \<le> unat fpos))"
proof -
  obtain r out pos s' where r: "aesd_read K filp n fpos s = Some (r, out, pos, s')" "dev_inv s'"
      "foreign s' = foreign s" "dev_log s' = dev_log s" "read_result r out n fpos pos (dev_log s)"
    using aesd_read_ok [OF assms, of fpos] by blast
  let ?out = "log_read (unat fpos) (unat n) (dev_log s)"
  have "?out = [] \<Longrightarrow> n = 0 \<or> length (log_content (dev_log s)) \<le> unat fpos"
    using log_read_nonempty [of "unat n" "unat fpos" "dev_log s"] by (auto simp: unat_gt_0 not_less [symmetric])
  then show ?thesis
    using r log_read_is_prefix [of "unat fpos" "unat n" "dev_log s"] log_read_length [of "unat fpos" "unat n" "dev_log s"]
    unfolding read_result_def by fastforce
qed

lemma read_correct_witness:
  "\<exists>r out pos s'. aesd_read demo_kernel demo_file 2 1 demo_state = Some (r, out, pos, s') \<and> dev_inv s'"
  using read_correct [OF demo_kernel_ok demo_inv demo_file_ok, of 2 1] by auto

text \<open>\<open>llseek\<close> passes the length of the content as the size of the device, so that the kernel's
  helper can only move the position inside the content; the device does not change, and the file
  position changes as the helper says.\<close>

theorem lseek_correct:
  assumes "dev_inv s" and "private_data filp = aesd_device"
  shows "\<exists>r filp' s'. aesd_lseek K filp off whence s = Some (r, filp', s') \<and> dev_inv s' \<and>
    foreign s' = foreign s \<and> dev_log s' = dev_log s \<and>
    (r = - ERESTARTSYS \<and> filp' = filp \<or>
     (\<exists>x pos. k_llseek K (f_pos filp) off whence (of_nat (length (log_content (dev_log s)))) = (x, pos) \<and>
        r = sint x \<and> filp' = filp\<lparr>f_pos := pos\<rparr>))"
  using aesd_lseek_ok [OF assms, of K off whence] by (fastforce simp: lseek_result_def split: prod.splits)

lemma lseek_correct_witness:
  "\<exists>r filp' s'. aesd_lseek demo_kernel demo_file 2 0 demo_state = Some (r, filp', s') \<and> dev_inv s'"
  using lseek_correct [OF demo_inv demo_file_ok, of demo_kernel 2 0] by blast

text \<open>C5: the seek request. It succeeds exactly when the addressed line exists and is longer than the
  offset; then the new position, which is also the return value, is that of the addressed byte in the
  content. Otherwise \<open>-EINVAL\<close>; a fault and an interruption have no effect, and any other request
  number gives \<open>-ENOTTY\<close>.\<close>

theorem ioctl_correct:
  assumes "dev_inv s" and "private_data filp = aesd_device"
  shows "\<exists>r filp' s'. aesd_ioctl K filp cmd arg s = Some (r, filp', s') \<and> dev_inv s' \<and>
    foreign s' = foreign s \<and> dev_log s' = dev_log s \<and>
    (if cmd = AESDCHAR_IOCSEEKTO then
       (r = - EFAULT \<or> r = - ERESTARTSYS) \<and> filp' = filp \<or>
       (let c = unat (write_cmd arg); i = unat (write_cmd_offset arg); ls = lines (dev_log s) in
        if c < length ls \<and> i < length (ls ! c)
        then \<exists>pos. r = int pos \<and> filp' = filp\<lparr>f_pos := of_nat pos\<rparr> \<and>
               pos = length (concat (take c ls)) + i \<and> log_content (dev_log s) ! pos = ls ! c ! i
        else r = - EINVAL \<and> filp' = filp)
     else r = - ENOTTY \<and> filp' = filp)"
proof -
  obtain r filp' s' where r: "aesd_ioctl K filp cmd arg s = Some (r, filp', s')" "dev_inv s'"
      "foreign s' = foreign s" "dev_log s' = dev_log s" "ioctl_result r filp filp' cmd arg (dev_log s)"
    using aesd_ioctl_ok [OF assms] by blast
  let ?c = "unat (write_cmd arg)" and ?i = "unat (write_cmd_offset arg)" and ?L = "dev_log s"
  show ?thesis
  proof (cases "log_seek ?c ?i ?L")
    case None
    then have "\<not> (?c < length (lines ?L) \<and> ?i < length (lines ?L ! ?c))"
      by (auto simp: log_seek_def split: if_splits)
    then show ?thesis using r None by (auto simp: ioctl_result_def seek_result_def Let_def split: if_splits)
  next
    case (Some pos)
    then have "?c < length (lines ?L) \<and> ?i < length (lines ?L ! ?c)" "pos = length (concat (take ?c (lines ?L))) + ?i"
      by (auto simp: log_seek_def length_concat_sum take_map split: if_splits)
    then show ?thesis
      using r Some log_seek_content(2) [OF Some]
      by (auto simp: ioctl_result_def seek_result_def Let_def split: if_splits)
  qed
qed

lemma ioctl_correct_witness:
  "\<exists>r filp' s'. aesd_ioctl demo_kernel demo_file AESDCHAR_IOCSEEKTO \<lparr>write_cmd = 0, write_cmd_offset = 1\<rparr> demo_state
     = Some (r, filp', s') \<and> dev_inv s'"
  using ioctl_correct [OF demo_inv demo_file_ok, of demo_kernel AESDCHAR_IOCSEEKTO
      "\<lparr>write_cmd = 0, write_cmd_offset = 1\<rparr>"] by blast


subsection \<open>The driver as a system\<close>

text \<open>A load of the module and a short run: a file is opened and five bytes, a line and a rest, are
  written.\<close>

definition demo_loaded :: mstate where
  "demo_loaded = snd (aesd_init_module 0 (250 * 2 ^ 20) 0 demo_module)"

definition demo_ubuf :: "nat \<Rightarrow> byte" where
  "demo_ubuf i = [104, 105, NEWLINE, 98, 121] ! i"

lemma demo_init: "aesd_init_module 0 (250 * 2 ^ 20) 0 demo_module = (0, demo_loaded)"
  by (simp add: demo_loaded_def aesd_init_module_def aesd_setup_cdev_def Let_def)

lemma demo_devno: "take_bit 20 (250 * 2 ^ 20 :: uint32_t) = 0"
  by code_simp

lemma demo_fresh: "region demo_module = None" "cdev_live demo_module = None"
  by (simp_all add: demo_module_def)

lemmas demo_load = demo_init demo_fresh demo_devno order_refl order_refl

abbreviation demo_trace :: "(fop \<times> int \<times> byte list) list" where
  "demo_trace \<equiv> [(Open 0, 0, []), (Write 0 demo_ubuf 5, 5, [])]"

lemma demo_write: "map_option fst (aesd_write demo_kernel demo_file demo_ubuf 5 (ks demo_loaded)) = Some 5"
  by code_simp

lemma demo_run: "\<exists>y. dev_run demo_kernel (loaded demo_loaded) demo_trace y"
proof -
  let ?y = "(loaded demo_loaded)\<lparr>files := [0 \<mapsto> demo_file]\<rparr>"
  obtain s where s: "aesd_write demo_kernel demo_file demo_ubuf 5 (ks demo_loaded) = Some (5, s)"
    using demo_write by auto
  have "dev_step demo_kernel (loaded demo_loaded) (Open 0) 0 [] ?y"
    by (simp add: dev_step_simps loaded_def aesd_open_def aesd_inode_def fresh_file_def demo_file_def
        container_of_cdev_def)
  moreover have "dev_step demo_kernel ?y (Write 0 demo_ubuf 5) 5 [] (?y\<lparr>kst := s\<rparr>)"
    by (rule step_write [of _ _ demo_file]) (use s in \<open>simp_all add: loaded_def\<close>)
  ultimately show ?thesis by (blast intro: run_Cons run_Nil)
qed



text \<open>C7: no call of a file operation can get stuck: after loading the module and any run, every call
  that the virtual file system may make returns, without undefined behaviour.\<close>

theorem driver_never_stuck:
  assumes "kernel_ok K" and "aesd_init_module alloc_res devno add_err m = (0, m1)"
    and "region m = None" "cdev_live m = None" "take_bit 20 devno = 0" "alloc_res \<le> 0" "add_err \<le> 0"
    and "dev_run K (loaded m1) tr y" and "fop_enabled y op"
  shows "\<exists>r out y'. dev_step K y op r out y'"
  using dev_progress [OF assms(1) run_from_load(1) [OF assms(1-8)] assms(9)] .

lemma driver_never_stuck_witness:
  "\<exists>r out y'. dev_step demo_kernel (loaded demo_loaded) (Open 3) r out y'"
  by (rule driver_never_stuck [OF demo_kernel_ok demo_load run_Nil]) (simp add: loaded_def)

text \<open>C8: the whole life of the module leaks nothing: after loading, any run, and removal, the memory
  of the kernel is what it was before loading, the device numbers are released and no \<open>cdev\<close> stays
  registered.\<close>

theorem module_leaks_nothing:
  assumes "kernel_ok K" and "aesd_init_module alloc_res devno add_err m = (0, m1)"
    and "region m = None" "cdev_live m = None" "take_bit 20 devno = 0" "alloc_res \<le> 0" "add_err \<le> 0"
    and "dev_run K (loaded m1) tr y"
  shows "\<exists>m2. aesd_cleanup_module (m1\<lparr>ks := kst y\<rparr>) = Some m2 \<and> heap (ks m2) = heap (ks m) \<and>
    region m2 = None \<and> cdev_live m2 = None"
  using unload_after_run [OF run_from_load(1) [OF assms] loaded_inv(3) [OF assms(2-7)]] .

lemma module_leaks_nothing_witness:
  "\<exists>y m2. dev_run demo_kernel (loaded demo_loaded) demo_trace y \<and>
     aesd_cleanup_module (demo_loaded\<lparr>ks := kst y\<rparr>) = Some m2 \<and> heap (ks m2) = [60 \<mapsto> [Some 0]]"
proof -
  obtain y where y: "dev_run demo_kernel (loaded demo_loaded) demo_trace y" using demo_run by blast
  have "heap (ks demo_module) = [60 \<mapsto> [Some 0]]" by (simp add: demo_module_def)
  then show ?thesis using module_leaks_nothing [OF demo_kernel_ok demo_load y] y by auto
qed

text \<open>C9: what the device holds. After loading and a run in which no write ran out of memory, the
  complete lines are the newest ten lines of all the bytes that the successful writes brought, in the
  order of the writes, and the pending bytes are those after the last newline: how the bytes were cut
  into writes, and what else was called, does not matter.\<close>

theorem device_holds_newest_lines:
  assumes "kernel_ok K" and "aesd_init_module alloc_res devno add_err m = (0, m1)"
    and "region m = None" "cdev_live m = None" "take_bit 20 devno = 0" "alloc_res \<le> 0" "add_err \<le> 0"
    and "dev_run K (loaded m1) tr y" and "no_enomem tr"
  shows "lines (dev_log (kst y)) = take_last 10 (fst (feed [] (written tr))) \<and>
    pending (dev_log (kst y)) = snd (feed [] (written tr))"
  using log_run_written [OF run_from_load(2) [OF assms(1-8)] assms(9)]
  by (simp add: log_write_from_empty)

lemma device_holds_newest_lines_witness:
  "\<exists>y. dev_run demo_kernel (loaded demo_loaded) demo_trace y \<and>
     lines (dev_log (kst y)) = [[104, 105, NEWLINE]] \<and> pending (dev_log (kst y)) = [98, 121]"
proof -
  obtain y where y: "dev_run demo_kernel (loaded demo_loaded) demo_trace y" using demo_run by blast
  have "no_enomem demo_trace" by (simp add: no_enomem_def)
  moreover have "feed [] (written demo_trace) = ([[104, 105, NEWLINE]], [98, 121])" by code_simp
  ultimately show ?thesis using device_holds_newest_lines [OF demo_kernel_ok demo_load y] y by auto
qed

text \<open>loading fails cleanly. If the number range cannot be had, or the \<open>cdev\<close> cannot be
  registered, the error is returned, nothing stays registered and no memory was allocated; otherwise
  0 is returned, the device starts empty and the \<open>cdev\<close> is registered under the allocated number.\<close>

theorem init_all_or_nothing:
  assumes "aesd_init_module alloc_res devno add_err m = (r, m')" and "region m = None" "cdev_live m = None"
    and "take_bit 20 devno = 0" and "alloc_res \<le> 0" "add_err \<le> 0"
  shows "r = (if alloc_res < 0 then alloc_res else add_err) \<and> heap (ks m') = heap (ks m) \<and>
    (if r = 0 then dev_inv (ks m') \<and> dev_log (ks m') = log_empty \<and> region m' = Some devno \<and> cdev_live m' = Some devno
     else region m' = None \<and> cdev_live m' = None)"
proof -
  have "r = (if alloc_res < 0 then alloc_res else add_err)" "heap (ks m') = heap (ks m)"
    "r = 0 \<Longrightarrow> region m' = Some devno"
    using assms(1,5) by (auto simp: aesd_init_module_def aesd_setup_cdev_def Let_def
        unregister_chrdev_region_def split: if_splits)
  then show ?thesis using aesd_init_ok [OF assms] by auto
qed

lemma init_all_or_nothing_witness:
  "region (snd (aesd_init_module 0 (250 * 2 ^ 20) (- 12) demo_module)) = None"
  using init_all_or_nothing [of 0 "250 * 2 ^ 20" "- 12" demo_module "- 12"
      "snd (aesd_init_module 0 (250 * 2 ^ 20) (- 12) demo_module)"] demo_fresh demo_devno
  by (simp add: aesd_init_module_def aesd_setup_cdev_def Let_def)


subsection \<open>Sequences of calls\<close>

lemma log_read_line:
  "k < length (lines L) \<Longrightarrow> i < length (lines L ! k) \<Longrightarrow>
   log_read (sum_list (take k (map length (lines L))) + i) n L = take n (drop i (lines L ! k))"
  using locate_block [of k "map length (lines L)" i] by (simp add: log_read_def)

text \<open>a seek followed by a read. After a successful seek request, a successful read at the new
  position returns the bytes of the addressed line from the addressed offset on, as many as were
  asked for or as the line has.\<close>

theorem seek_then_read:
  assumes "kernel_ok K" and "dev_inv s" and "private_data filp = aesd_device" and "unat n \<le> MAX_RW_COUNT"
    and "aesd_ioctl K filp AESDCHAR_IOCSEEKTO arg s = Some (r, filp', s1)" and "0 \<le> r"
    and "aesd_read K filp' n (f_pos filp') s1 = Some (r2, out, pos, s2)" and "0 \<le> r2"
  shows "unat (write_cmd arg) < length (lines (dev_log s)) \<and>
    out = take (unat n) (drop (unat (write_cmd_offset arg)) (lines (dev_log s) ! unat (write_cmd arg))) \<and>
    r2 = int (length out)"
proof -
  let ?c = "unat (write_cmd arg)" and ?i = "unat (write_cmd_offset arg)" and ?L = "dev_log s"
  have s1: "dev_inv s1" "dev_log s1 = ?L" "ioctl_result r filp filp' AESDCHAR_IOCSEEKTO arg ?L"
    using aesd_ioctl_ok [OF assms(2,3), of K AESDCHAR_IOCSEEKTO arg] assms(5) by auto
  then obtain p where p: "log_seek ?c ?i ?L = Some p" "filp' = filp\<lparr>f_pos := of_nat p\<rparr>"
    using assms(6) by (auto simp: ioctl_result_def seek_result_def split: option.splits)
  have "p < 2 ^ 64" using log_seek_content(1) [OF p(1)] content_bound [OF assms(2)] by simp
  then have pos: "unat (f_pos filp') = p" using p(2) by (simp add: unat_of_nat_size_t)
  have c: "?c < length (lines ?L)" "?i < length (lines ?L ! ?c)"
    and sum: "p = sum_list (take ?c (map length (lines ?L))) + ?i"
    using p(1) by (auto simp: log_seek_def split: if_splits)
  have "read_result r2 out n (f_pos filp') pos ?L"
    using aesd_read_ok [OF assms(1) s1(1) _ assms(4), of filp' "f_pos filp'"] assms(3,7) p(2) s1(2) by auto
  then have "out = log_read p (unat n) ?L" "r2 = int (length out)"
    using assms(8) pos by (auto simp: read_result_def)
  then show ?thesis using c log_read_line [OF c] sum by simp
qed

lemma seek_then_read_witness:
  "\<exists>r filp' s1 r2 out pos s2. aesd_ioctl demo_kernel demo_file AESDCHAR_IOCSEEKTO \<lparr>write_cmd = 0, write_cmd_offset = 1\<rparr>
       demo_state = Some (r, filp', s1) \<and>
     aesd_read demo_kernel filp' 9 (f_pos filp') s1 = Some (r2, out, pos, s2) \<and> out = [98, NEWLINE]"
proof -
  let ?arg = "\<lparr>write_cmd = 0, write_cmd_offset = 1\<rparr>"
  let ?run = "do { (r, f, s) \<leftarrow> aesd_ioctl demo_kernel demo_file AESDCHAR_IOCSEEKTO ?arg demo_state;
                   (r2, out, pos, s) \<leftarrow> aesd_read demo_kernel f 9 (f_pos f) s; Some (r, r2) }"
  have "?run = Some (1, 2)" by code_simp
  then obtain r f s1 r2 out pos s2 where run:
      "aesd_ioctl demo_kernel demo_file AESDCHAR_IOCSEEKTO ?arg demo_state = Some (r, f, s1)" "0 \<le> r"
      "aesd_read demo_kernel f 9 (f_pos f) s1 = Some (r2, out, pos, s2)" "0 \<le> r2"
    by (auto simp: bind_eq_Some_conv)
  have n: "unat (9 :: size_t) \<le> MAX_RW_COUNT" by simp
  have "out = [98, NEWLINE]"
    using seek_then_read [OF demo_kernel_ok demo_inv demo_file_ok n run] by (simp add: demo_log)
  then show ?thesis using run by blast
qed

text \<open>C10: the loop with which a client reads the device to its end: it ends, whatever the kernel does,
  the device stays as it was, and what it has collected is the content from the file position on,
  complete if no read failed.\<close>

theorem read_loop_drains_device:
  assumes "kernel_ok K" and "dev_inv s" and "private_data f = aesd_device"
  shows "\<exists>n out s' f'. reply_loop (chardev K) 1024 (s, f) [] = Some (n, out, s', f') \<and> dev_inv s' \<and>
    dev_log s' = dev_log s \<and> n \<le> 0 \<and>
    out = take (length out) (drop (unat (f_pos f)) (log_content (dev_log s))) \<and>
    (n = 0 \<longrightarrow> out = drop (unat (f_pos f)) (log_content (dev_log s)))"
  using chardev.reply_loop_ok [of K "(s, f)" 1024 "[]"] assms by (auto simp: chardev_inv_def)

lemma read_loop_drains_device_witness:
  "\<exists>n out s' f'. reply_loop (chardev demo_kernel) 1024 (demo_state, demo_file) [] = Some (n, out, s', f') \<and>
     (n = 0 \<longrightarrow> out = [97, 98, NEWLINE])"
  using read_loop_drains_device [OF demo_kernel_ok demo_inv demo_file_ok]
  by (auto simp: demo_log log_content_def demo_file_def)

text \<open>C11: round trip. Up to ten lines that are written to an empty device in one successful write are
  read back, byte for byte, by the read loop from position 0.\<close>

theorem write_read_round_trip:
  assumes "kernel_ok K" and "dev_inv s" and "private_data f = aesd_device" and "f_pos f = 0"
    and "dev_log s = log_empty" and "list_all is_line ls" and "length ls \<le> 10"
    and "length (concat ls) \<le> MAX_RW_COUNT"
    and "d_write (chardev K) (concat ls) (s, f) = Some (r, d1)" and "0 \<le> r"
    and "reply_loop (chardev K) 1024 d1 [] = Some (0, out, d2)"
  shows "out = concat ls"
proof -
  have "chardev_inv K (s, f)" using assms(1-3) by (simp add: chardev_inv_def)
  then have d1: "chardev_inv K d1" "chardev_pos d1 = 0" "chardev_log d1 = log_write (concat ls) log_empty"
    using chardev.write_law [of K "(s, f)" "concat ls"] assms(4,5,8-10) by auto
  have "feed [] (concat ls) = (ls, [])" using feed_unique [of ls "[]"] assms(6) by simp
  then have "log_content (chardev_log d1) = concat ls"
    using d1(3) assms(7) by (simp add: log_write_from_empty log_content_def)
  then show ?thesis
    using chardev.reply_loop_ok [OF d1(1), of 1024 "[]"] assms(11) d1(2) by auto
qed

lemma write_read_round_trip_witness:
  "\<exists>r d1 out d2. d_write (chardev demo_kernel) [104, NEWLINE] (ks demo_loaded, demo_file) = Some (r, d1) \<and>
     reply_loop (chardev demo_kernel) 1024 d1 [] = Some (0, out, d2) \<and> out = [104, NEWLINE]"
proof -
  let ?run = "do { (r, d1) \<leftarrow> d_write (chardev demo_kernel) [104, NEWLINE] (ks demo_loaded, demo_file);
                   (n, out, d2) \<leftarrow> reply_loop (chardev demo_kernel) 1024 d1 []; Some (r, n) }"
  have "?run = Some (2, 0)" by code_simp
  then obtain r d1 out d2 where run:
      "d_write (chardev demo_kernel) (concat [[104, NEWLINE]]) (ks demo_loaded, demo_file) = Some (r, d1)" "0 \<le> r"
      "reply_loop (chardev demo_kernel) 1024 d1 [] = Some (0, out, d2)"
    by (auto simp: bind_eq_Some_conv)
  have i: "dev_inv (ks demo_loaded)" "dev_log (ks demo_loaded) = log_empty"
    using aesd_init_ok [OF demo_load] by simp_all
  have "out = concat [[104, NEWLINE]]"
    by (rule write_read_round_trip [OF demo_kernel_ok i(1) demo_file_ok _ i(2) _ _ _ run])
      (simp_all add: demo_file_def is_line_def)
  then show ?thesis using run by auto
qed

text \<open>C12: two devices with the same log, one of which receives a byte string in two successful writes
  and the other in one, hold the same log afterwards.\<close>

theorem write_splitting_invisible:
  assumes "kernel_ok K" and "private_data f = aesd_device" and "dev_inv s" "dev_inv t" "dev_log t = dev_log s"
    and "length (xs @ ys) \<le> MAX_RW_COUNT"
    and "d_write (chardev K) xs (s, f) = Some (r1, d1)" "0 \<le> r1"
    and "d_write (chardev K) ys d1 = Some (r2, d2)" "0 \<le> r2"
    and "d_write (chardev K) (xs @ ys) (t, f) = Some (r3, d3)" "0 \<le> r3"
  shows "chardev_log d2 = chardev_log d3 \<and> r3 = r1 + r2"
proof -
  have i: "chardev_inv K (s, f)" "chardev_inv K (t, f)" using assms(1-4) by (simp_all add: chardev_inv_def)
  have d1: "chardev_inv K d1" "chardev_log d1 = log_write xs (dev_log s)" "r1 = int (length xs)"
    using chardev.write_law [OF i(1), of xs] assms(6-8) by auto
  have "chardev_log d2 = log_write ys (chardev_log d1)" "r2 = int (length ys)"
    using chardev.write_law [OF d1(1), of ys] assms(6,9,10) by auto
  moreover have "chardev_log d3 = log_write (xs @ ys) (dev_log s)" "r3 = int (length (xs @ ys))"
    using chardev.write_law [OF i(2) assms(6)] assms(5,11,12) by auto
  ultimately show ?thesis using d1 by (simp add: log_write_append)
qed

lemma write_splitting_invisible_witness:
  "\<exists>r1 d1 r2 d2 r3 d3. d_write (chardev demo_kernel) [104, NEWLINE] (demo_state, demo_file) = Some (r1, d1) \<and>
     d_write (chardev demo_kernel) [105] d1 = Some (r2, d2) \<and>
     d_write (chardev demo_kernel) [104, NEWLINE, 105] (demo_state, demo_file) = Some (r3, d3) \<and>
     chardev_log d2 = chardev_log d3"
proof -
  let ?K = "chardev demo_kernel" and ?d = "(demo_state, demo_file)"
  let ?run = "do { (r1, d1) \<leftarrow> d_write ?K [104, NEWLINE] ?d; (r2, d2) \<leftarrow> d_write ?K [105] d1;
                   (r3, d3) \<leftarrow> d_write ?K [104, NEWLINE, 105] ?d; Some (r1, r2, r3) }"
  have "?run = Some (2, 1, 3)" by code_simp
  then obtain r1 d1 r2 d2 r3 d3 where run: "d_write ?K [104, NEWLINE] ?d = Some (r1, d1)" "0 \<le> r1"
      "d_write ?K [105] d1 = Some (r2, d2)" "0 \<le> r2"
      "d_write ?K ([104, NEWLINE] @ [105]) ?d = Some (r3, d3)" "0 \<le> r3"
    by (auto simp: bind_eq_Some_conv)
  have n: "length ([104, NEWLINE] @ [105 :: byte]) \<le> MAX_RW_COUNT" by simp
  show ?thesis
    using write_splitting_invisible [OF demo_kernel_ok demo_file_ok demo_inv demo_inv refl n run]
      run(1,3,5) by (simp only: append.simps) blast
qed

text \<open>C13: the bound on the count matters. The driver clamps the count with \<open>count + offset\<close>, which wraps
  for counts that only the virtual file system keeps away: with such a count, at any offset inside a
  line, the read runs past the end of the entry, which is undefined.\<close>

theorem read_clamp_wraps:
  assumes "dev_inv s" and "private_data filp = aesd_device" and "\<not> k_intr K (calls s)"
    and "locate (map length (lines (dev_log s))) (unat fpos) = Some (k, off)" and "2 ^ 64 \<le> unat n + off"
  shows "aesd_read K filp n fpos s = None"
proof -
  let ?L = "dev_log s" and ?b = "c_buffer (dev s)" and ?e = "items s ! k" and ?l = "lines (dev_log s) ! k"
  note repr = dev_invD(1) [OF assms(1)]
  have k: "k < length (lines ?L)" "off < length ?l" using locate_Some [OF assms(4)] by auto
  obtain a where e: "buffptr ?e = Ptr a" "heap s a = Some (map Some ?l)" "unat (bsize ?e) = length ?l" "length ?l \<le> INT_MAX"
    using repr_nth [OF repr k(1)] by (auto simp: holds_iff)
  have at: "entry_at ?b ((unat (out_offs ?b) + k) mod 10) = Some ?e"
    using ring_items_nth [OF repr_ring [OF repr]] k(1) repr_length [OF repr] by simp
  have o: "unat (of_nat off :: size_t) = off" using k(2) e(4) by (intro unat_of_nat_size_t) simp
  have "(unat n + off) mod 2 ^ 64 = unat n + off - 2 ^ 64"
    using assms(5) unat_u64 [of n] k(2) e(4) by (simp add: mod_nat_eqI le_mod_geq mod_if)
  then have "unat (n + of_nat off) = unat n + off - 2 ^ 64" by (simp add: unat_word_ariths o)
  then have "\<not> bsize ?e \<le> n + of_nat off"
    using e(3) k(2) unat_u64 [of n] by (simp add: word_le_nat_alt)
  moreover have "copy_to_user K (Ptr a) off (unat n) t = None" if "heap t = heap s" for t
    using e(2,4) k(2) assms(5) that by (simp add: copy_to_user_def load_bytes_def load_cells_def Let_def)
  ultimately show ?thesis
    using assms(2,3,4) at e(1) repr_find [OF repr, of fpos] dev_invD(3) [OF assms(1)] o
    by (simp add: aesd_read_def get_dev_def mutex_lock_interruptible_def Let_def)
qed

lemma read_clamp_wraps_witness: "aesd_read demo_kernel demo_file 0xFFFFFFFFFFFFFFFF 1 demo_state = None"
  by (rule read_clamp_wraps [OF demo_inv demo_file_ok, where k = 0 and off = 1])
    (simp_all add: demo_log demo_kernel_def)

end
