(* ===== verification/Driver_Types.thy ===== *)
theory Driver_Types
  imports Driver_Properties
begin

text \<open>
  The types of the driver's results: which return values a call may have, and how many bytes it may
  hand to the user, in every run of the loaded driver.
\<close>

fun result_typed :: "fop \<Rightarrow> int \<Rightarrow> byte list \<Rightarrow> bool" where
  "result_typed (Open fd) r out = (r = 0 \<and> out = [])"
| "result_typed (Release fd) r out = (r = 0 \<and> out = [])"
| "result_typed (Read fd n) r out =
     (length out \<le> unat n \<and> (r = int (length out) \<or> r = - EFAULT \<or> r = - ERESTARTSYS \<and> out = []))"
| "result_typed (Write fd ubuf n) r out =
     (out = [] \<and> (r = int (unat n) \<or> r = - EFAULT \<or> r = - ENOMEM \<or> r = - ERESTARTSYS))"
| "result_typed (Llseek fd off whence) r out = (out = [] \<and> r < 2 ^ 63)"
| "result_typed (Ioctl fd cmd arg) r out =
     (out = [] \<and> (if cmd = AESDCHAR_IOCSEEKTO
        then 0 \<le> r \<and> r < 2 ^ 63 \<or> r = - EINVAL \<or> r = - EFAULT \<or> r = - ERESTARTSYS else r = - ENOTTY))"

lemma length_log_read: "length (log_read p n L) \<le> n"
  by (auto simp: log_read_def split: option.split)

lemma length_user_bytes [simp]: "length (user_bytes ubuf n) = unat n"
  by (simp add: user_bytes_def)

lemma log_step_typed:
  assumes "log_step a op r out a'" and "length (log_content (slog a)) < 2 ^ 63"
  shows "result_typed op r out"
  using assms
proof cases
  case (abs_seek fd p cmd arg pos)
  then show ?thesis using assms(2) log_seek_content(1) [OF abs_seek(7)] by simp
qed (use assms(2) length_log_read in \<open>auto intro: min.coboundedI1\<close>)

lemma dev_run_typed:
  assumes K: "kernel_ok K" and run: "dev_run K y tr y'"
  shows "sys_inv X y \<Longrightarrow> \<forall>(op, r, out) \<in> set tr. result_typed op r out"
  using run
proof (induction rule: dev_run.induct)
  case (run_Cons y op r out y1 tr y2)
  have "length (log_content (slog (abs_sys y))) < 2 ^ 63"
    using run_Cons.prems content_bound by (simp add: sys_inv_def abs_sys_def)
  then have "result_typed op r out"
    using dev_step_sim [OF K run_Cons.prems run_Cons.hyps(1)] log_step_typed by blast
  then show ?case
    using dev_step_sim [OF K run_Cons.prems run_Cons.hyps(1)] run_Cons.IH by auto
qed simp

text \<open>C40: types. In every run of the loaded driver, with any behaviour of the kernel, every call returns a
  value of its range: \<open>open\<close> and \<open>release\<close> return 0; a read returns the number of bytes that it copied,
  never more than asked for, or \<open>-EFAULT\<close>, or \<open>-ERESTARTSYS\<close> with no byte copied; a write returns its
  whole count or one of three errors, never a short count; a seek request returns a position or one of
  three errors, and every other request \<open>-ENOTTY\<close>; positions fit into \<open>loff_t\<close>.\<close>

theorem driver_results_typed:
  assumes "kernel_ok K" and "aesd_init_module alloc_res devno add_err m = (0, m1)"
    and "region m = None" "cdev_live m = None" "take_bit 20 devno = 0" "alloc_res \<le> 0" "add_err \<le> 0"
    and "dev_run K (loaded m1) tr y" and "(op, r, out) \<in> set tr"
  shows "result_typed op r out"
  using dev_run_typed [OF assms(1,8) loaded_inv(1) [OF assms(2-7)]] assms(9) by blast

lemma driver_results_typed_witness: "result_typed (Write 0 demo_ubuf 5) 5 []"
proof -
  obtain y where run: "dev_run demo_kernel (loaded demo_loaded) demo_trace y" using demo_run by blast
  show ?thesis by (rule driver_results_typed [OF demo_kernel_ok demo_load run]) simp
qed

end
