(* ===== verification/Seek_Request.thy ===== *)
theory Seek_Request
  imports Prelude
begin

text \<open>
  The seek command of the socket protocol, \<open>AESDCHAR_IOCSEEKTO:X,Y\<close>: how \<open>server/socket_core.c\<close>
  recognises it in the receive buffer (\<open>memchr\<close>, \<open>strstr\<close>) and reads its numbers (\<open>sscanf\<close> with two
  \<open>%i\<close> conversions), with the behaviour that the C standard gives these functions.
\<close>

subsection \<open>Strings\<close>

definition ascii :: "string \<Rightarrow> byte list" where
  "ascii cs = map of_char cs"

text \<open>The C string at the start of a buffer that contains a terminator.\<close>

definition c_string :: "byte list \<Rightarrow> byte list" where
  "c_string bs = takeWhile (\<lambda>b. b \<noteq> 0) bs"

fun strip :: "byte list \<Rightarrow> byte list \<Rightarrow> byte list option" where
  "strip [] bs = Some bs"
| "strip (x # xs) (b # bs) = (if x = b then strip xs bs else None)"
| "strip (x # xs) [] = None"

text \<open>Whether a string occurs in another one.\<close>

fun strstr :: "byte list \<Rightarrow> byte list \<Rightarrow> bool" where
  "strstr [] pat = (strip pat [] \<noteq> None)"
| "strstr (b # bs) pat = (strip pat (b # bs) \<noteq> None \<or> strstr bs pat)"

definition AESD_IOCTL_STR :: "byte list" where
  "AESD_IOCTL_STR = ascii ''AESDCHAR_IOCSEEKTO:''"

text \<open>The test at the start of the receive loop: a terminator in the whole buffer, and the command
  somewhere in the string before it.\<close>

definition is_seek_request :: "byte list \<Rightarrow> bool" where
  "is_seek_request buffer \<longleftrightarrow> 0 \<in> set buffer \<and> strstr (c_string buffer) AESD_IOCTL_STR"

subsection \<open>The conversion \<open>%i\<close>\<close>

definition is_space :: "byte \<Rightarrow> bool" where
  "is_space b \<longleftrightarrow> b = 32 \<or> 9 \<le> b \<and> b \<le> 13"

definition digit_val :: "byte \<Rightarrow> nat option" where
  "digit_val b =
     (if 48 \<le> b \<and> b \<le> 57 then Some (unat b - 48)
      else if 97 \<le> b \<and> b \<le> 102 then Some (unat b - 87)
      else if 65 \<le> b \<and> b \<le> 70 then Some (unat b - 55)
      else None)"

definition is_digit :: "nat \<Rightarrow> byte \<Rightarrow> bool" where
  "is_digit base b = (case digit_val b of None \<Rightarrow> False | Some v \<Rightarrow> v < base)"

fun digits :: "nat \<Rightarrow> nat \<Rightarrow> byte list \<Rightarrow> nat" where
  "digits base acc [] = acc"
| "digits base acc (b # bs) = digits base (acc * base + the (digit_val b)) bs"

text \<open>The digits in the base that the prefix selects: \<open>None\<close> if there are none. A prefix \<open>0x\<close> must be
  followed by a digit.\<close>

definition scan_digits :: "nat \<Rightarrow> byte list \<Rightarrow> (nat \<times> byte list) option" where
  "scan_digits base bs =
     (let ds = takeWhile (is_digit base) bs
      in if ds = [] then None else Some (digits base 0 ds, dropWhile (is_digit base) bs))"

definition scan_unsigned :: "byte list \<Rightarrow> (nat \<times> byte list) option" where
  "scan_unsigned bs =
     (case bs of
        b # c # rest \<Rightarrow>
          if b = 48 \<and> (c = 120 \<or> c = 88) then scan_digits 16 rest
          else if b = 48 then scan_digits 8 bs
          else scan_digits 10 bs
      | _ \<Rightarrow> scan_digits 10 bs)"

datatype 'a scanned = Input_Failure | Matching_Failure | Converted 'a "byte list"

text \<open>A value that an \<open>int\<close> cannot represent is undefined behaviour.\<close>

definition fits_int :: "int \<Rightarrow> bool" where
  "fits_int v \<longleftrightarrow> - (2 ^ 31) \<le> v \<and> v < 2 ^ 31"

definition scan_int :: "byte list \<Rightarrow> int scanned option" where
  "scan_int bs =
     (case dropWhile is_space bs of
        [] \<Rightarrow> Some Input_Failure
      | b # rest \<Rightarrow>
          let (neg, ds) = (if b = 45 then (True, rest) else if b = 43 then (False, rest) else (False, b # rest))
          in case scan_unsigned ds of
               None \<Rightarrow> Some Matching_Failure
             | Some (n, rest) \<Rightarrow>
                 let v = (if neg then - int n else int n)
                 in if fits_int v then Some (Converted v rest) else None)"

text \<open>\<open>sscanf(buffer, "AESDCHAR_IOCSEEKTO:%i,%i", &write_cmd, &offset)\<close> with both variables 0 before:
  the return value and the values of the variables after it.\<close>

definition sscanf_seekto :: "byte list \<Rightarrow> (int \<times> int \<times> int) option" where
  "sscanf_seekto str =
     (case strip AESD_IOCTL_STR str of
        None \<Rightarrow> Some (0, 0, 0)
      | Some bs \<Rightarrow> do {
          x \<leftarrow> scan_int bs;
          case x of
            Input_Failure \<Rightarrow> Some (- 1, 0, 0)
          | Matching_Failure \<Rightarrow> Some (0, 0, 0)
          | Converted write_cmd rest \<Rightarrow>
              (case strip [44] rest of
                 None \<Rightarrow> Some (1, write_cmd, 0)
               | Some rest \<Rightarrow> do {
                   y \<leftarrow> scan_int rest;
                   case y of
                     Converted offset _ \<Rightarrow> Some (2, write_cmd, offset)
                   | _ \<Rightarrow> Some (1, write_cmd, 0) }) })"

subsection \<open>Printed requests are read back\<close>

text \<open>The decimal digits of a number, and the request that a client prints.\<close>

fun dec :: "nat \<Rightarrow> byte list" where
  "dec n = (if n < 10 then [48 + of_nat n] else dec (n div 10) @ [48 + of_nat (n mod 10)])"

declare dec.simps [simp del]

definition seek_request :: "nat \<Rightarrow> nat \<Rightarrow> byte list" where
  "seek_request cmd off = AESD_IOCTL_STR @ dec cmd @ [44] @ dec off"

lemma strip_append [simp]: "strip xs (xs @ bs) = Some bs"
  by (induction xs) simp_all

lemma digit_table:
  "list_all (\<lambda>d. let b = 48 + of_nat d in digit_val b = Some d \<and> is_digit 10 b \<and> \<not> is_space b \<and>
     b \<noteq> 0 \<and> b \<noteq> 44 \<and> b \<noteq> 45 \<and> b \<noteq> 43 \<and> (of_nat d = (0 :: byte)) = (d = 0)) [0..<10]"
  by code_simp

lemma digit_byte:
  assumes "d < 10"
  shows "digit_val (48 + of_nat d) = Some d" and "is_digit 10 (48 + of_nat d)"
    and "\<not> is_space (48 + of_nat d)" and "48 + of_nat d \<noteq> (0 :: byte)" "48 + of_nat d \<noteq> (44 :: byte)"
    "48 + of_nat d \<noteq> (45 :: byte)" "48 + of_nat d \<noteq> (43 :: byte)" "of_nat d = (0 :: byte) \<longleftrightarrow> d = 0"
proof -
  have "d \<in> set [0..<10]" using assms by simp
  from bspec [OF digit_table [unfolded list_all_iff Let_def] this]
  show "digit_val (48 + of_nat d) = Some d" and "is_digit 10 (48 + of_nat d)"
    and "\<not> is_space (48 + of_nat d)" and "48 + of_nat d \<noteq> (0 :: byte)" "48 + of_nat d \<noteq> (44 :: byte)"
    "48 + of_nat d \<noteq> (45 :: byte)" "48 + of_nat d \<noteq> (43 :: byte)" "of_nat d = (0 :: byte) \<longleftrightarrow> d = 0"
    by blast+
qed

lemma dec_digits: "b \<in> set (dec n) \<Longrightarrow> \<exists>d < 10. b = 48 + of_nat d"
proof (induction n rule: dec.induct)
  case (1 n)
  have "\<exists>d < 10. 48 + of_nat (n mod 10) = (48 + of_nat d :: byte)"
    by (rule exI [of _ "n mod 10"]) simp
  then show ?case using 1 by (subst (asm) (2) dec.simps) (auto split: if_splits)
qed

lemma digits_append: "digits base acc (xs @ ys) = digits base (digits base acc xs) ys"
  by (induction xs arbitrary: acc) simp_all

lemma digits_dec: "digits 10 0 (dec n) = n"
proof (induction n rule: dec.induct)
  case (1 n)
  show ?case
  proof (cases "n < 10")
    case True
    then show ?thesis by (subst dec.simps) (simp add: digit_byte)
  next
    case False
    then have "digits 10 0 (dec n) = digits 10 0 (dec (n div 10)) * 10 + n mod 10"
      by (subst dec.simps) (simp add: digits_append digit_byte)
    then show ?thesis using 1 False by simp
  qed
qed

lemma dec_nonempty: "dec n \<noteq> []"
  by (subst dec.simps) simp

text \<open>A number other than 0 does not begin with the digit 0.\<close>

lemma hd_dec: "0 < n \<Longrightarrow> hd (dec n) \<noteq> 48"
proof (induction n rule: dec.induct)
  case (1 n)
  show ?case
  proof (cases "n < 10")
    case True
    then show ?thesis using 1(2) by (subst dec.simps) (simp add: digit_byte(8))
  next
    case False
    then have "hd (dec (n div 10)) \<noteq> 48" using 1 by simp
    then show ?thesis using False dec_nonempty [of "n div 10"] by (subst dec.simps) (simp add: hd_append)
  qed
qed

definition stops :: "byte list \<Rightarrow> bool" where
  "stops rest \<longleftrightarrow> rest = [] \<or> hd rest = 44 \<or> hd rest = NEWLINE"

lemma stops_digit: "stops (b # rest) \<Longrightarrow> \<not> is_digit k b \<and> b \<noteq> 120 \<and> b \<noteq> 88"
  by (auto simp: stops_def is_digit_def digit_val_def)

lemma scan_digits_dec:
  assumes "stops rest"
  shows "scan_digits 10 (dec n @ rest) = Some (n, rest)"
proof -
  have d: "\<forall>b \<in> set (dec n). is_digit 10 b" using dec_digits digit_byte(2) by fastforce
  then have "takeWhile (is_digit 10) (dec n @ rest) = dec n"
    using assms stops_digit by (cases rest) (auto simp: takeWhile_append)
  moreover have "dropWhile (is_digit 10) (dec n @ rest) = rest"
    using d assms stops_digit by (cases rest) (auto simp: dropWhile_append)
  ultimately show ?thesis by (simp add: scan_digits_def dec_nonempty digits_dec)
qed

lemma scan_unsigned_dec:
  assumes "stops rest"
  shows "scan_unsigned (dec n @ rest) = Some (n, rest)"
proof (cases "n = 0")
  case True
  then have "dec n = [48]" by (simp add: dec.simps)
  then show ?thesis
    using assms scan_digits_dec [OF assms, of n] stops_digit True
    by (cases rest) (auto simp: scan_unsigned_def scan_digits_def is_digit_def digit_val_def)
next
  case False
  then have "hd (dec n @ rest) \<noteq> 48" using hd_dec [of n] dec_nonempty [of n] by (simp add: hd_append)
  then show ?thesis
    using scan_digits_dec [OF assms, of n] by (auto simp: scan_unsigned_def split: list.split)
qed

lemma scan_int_dec:
  assumes "stops rest" and "n < 2 ^ 31"
  shows "scan_int (dec n @ rest) = Some (Converted (int n) rest)"
proof -
  obtain b bs where d: "dec n = b # bs" using dec_nonempty by (cases "dec n") auto
  then obtain k where "k < 10" "b = 48 + of_nat k" using dec_digits [of b n] by auto
  then have "\<not> is_space b" "b \<noteq> 45" "b \<noteq> 43" using digit_byte [of k] by simp_all
  moreover have "fits_int (int n)" using assms(2) by (simp add: fits_int_def)
  ultimately show ?thesis
    using scan_unsigned_dec [OF assms(1), of n] d by (simp add: scan_int_def)
qed

lemma sscanf_printed:
  assumes "cmd < 2 ^ 31" and "off < 2 ^ 31" and "stops rest" "rest = [] \<or> hd rest \<noteq> 44"
  shows "sscanf_seekto (seek_request cmd off @ rest) = Some (2, int cmd, int off)"
proof -
  have "stops ([44] @ dec off @ rest)" by (simp add: stops_def)
  then show ?thesis
    using scan_int_dec [of "[44] @ dec off @ rest" cmd] scan_int_dec [OF assms(3,2)] assms(1)
    by (simp add: sscanf_seekto_def seek_request_def)
qed

lemma strip_Some: "strip xs bs = Some r \<longleftrightarrow> bs = xs @ r"
  by (induction xs bs rule: strip.induct) auto

lemma strstr_append: "strip pat bs \<noteq> None \<Longrightarrow> strstr bs pat"
  by (cases bs) auto

text \<open>A printed request is recognised when it is the start of a buffer that still has a terminator.\<close>

lemma seek_request_recognised:
  assumes "0 \<notin> set rest"
  shows "is_seek_request (seek_request cmd off @ rest @ 0 # junk)"
    and "c_string (seek_request cmd off @ rest @ 0 # junk) = seek_request cmd off @ rest"
    and "0 \<notin> set (seek_request cmd off @ rest)"
proof -
  have "0 \<notin> set (dec n)" for n using dec_digits [of 0 n] digit_byte(4) by metis
  moreover have "0 \<notin> set AESD_IOCTL_STR" by (simp add: AESD_IOCTL_STR_def ascii_def)
  ultimately show z: "0 \<notin> set (seek_request cmd off @ rest)"
    using assms by (simp add: seek_request_def)
  have "takeWhile (\<lambda>b. b \<noteq> 0) (xs @ 0 # junk) = xs" if "0 \<notin> set xs" for xs :: "byte list"
    using that by (induction xs) auto
  from this [OF z] show c: "c_string (seek_request cmd off @ rest @ 0 # junk) = seek_request cmd off @ rest"
    by (simp add: c_string_def)
  have "strstr (seek_request cmd off @ rest) AESD_IOCTL_STR"
    by (rule strstr_append) (simp add: seek_request_def)
  then show "is_seek_request (seek_request cmd off @ rest @ 0 # junk)"
    unfolding is_seek_request_def c by simp
qed

end
