(* ===== verification/Peer_Address.thy ===== *)
theory Peer_Address
  imports Seek_Request
begin

text \<open>
  The address of a peer as \<open>accept\<close> stores it, and its text. The server passes the whole socket address
  to \<open>inet_ntop\<close>, which expects the four bytes of the member \<open>sin_addr\<close>, so the text is made of the
  address family and the port.
\<close>

subsection \<open>Socket addresses\<close>

text \<open>The socket is bound to an address of the family \<open>AF_INET\<close>, so the peers have one too. The members
  are given as numbers; \<open>sockaddr_bytes\<close> is their layout on a little-endian machine: the family in the
  byte order of the host, port and address in that of the network, and padding.\<close>

record sockaddr_in =
  sin_family :: "16 word"
  sin_port :: "16 word"
  sin_addr :: "32 word"

abbreviation (input) AF_INET :: "16 word" where "AF_INET \<equiv> 2"

definition addr_bytes :: "32 word \<Rightarrow> byte list" where
  "addr_bytes a = [ucast (drop_bit 24 a), ucast (drop_bit 16 a), ucast (drop_bit 8 a), ucast a]"

definition sockaddr_bytes :: "sockaddr_in \<Rightarrow> byte list" where
  "sockaddr_bytes a =
     [ucast (sin_family a), ucast (drop_bit 8 (sin_family a)), ucast (drop_bit 8 (sin_port a)), ucast (sin_port a)] @
     addr_bytes (sin_addr a) @ replicate 8 0"

text \<open>\<open>inet_ntop(AF_INET, src, ...)\<close>: the text of the first four bytes of the source.\<close>

definition inet_ntop4 :: "byte list \<Rightarrow> byte list" where
  "inet_ntop4 src = dec (unat (src ! 0)) @ [46] @ dec (unat (src ! 1)) @ [46] @ dec (unat (src ! 2)) @ [46] @ dec (unat (src ! 3))"

lemma length_sockaddr_bytes: "length (sockaddr_bytes a) = 16"
  by (simp add: sockaddr_bytes_def addr_bytes_def)

subsection \<open>The text\<close>

lemma length_dec_three: "n < 1000 \<Longrightarrow> length (dec n) \<le> 3"
  by (subst dec.simps, subst dec.simps, subst dec.simps) auto

lemma length_inet_ntop4: "length (inet_ntop4 src) \<le> 15"
proof -
  have "length (dec (unat (b :: byte))) \<le> 3" for b
  proof -
    have "unat b < 2 ^ LENGTH(8)" by (rule unsigned_less)
    then show ?thesis by (intro length_dec_three) simp
  qed
  from this [of "src ! 0"] this [of "src ! 1"] this [of "src ! 2"] this [of "src ! 3"] show ?thesis
    by (simp add: inet_ntop4_def)
qed

text \<open>The text of the address itself.\<close>

definition dotted :: "32 word \<Rightarrow> byte list" where
  "dotted a = inet_ntop4 (addr_bytes a)"

lemma dec_no_dot: "46 \<notin> set (dec n)"
proof
  assume "46 \<in> set (dec n)"
  then obtain d where d: "d < 10" "46 = (48 + of_nat d :: byte)" using dec_digits by blast
  then have "is_digit 10 (46 :: byte)" by (simp only: d(2) digit_byte(2) [OF d(1)])
  then show False by (simp add: is_digit_def digit_val_def)
qed

lemma dec_inject: "dec m = dec n \<longleftrightarrow> m = n"
  by (metis digits_dec)

lemma dec_dot_inject: "dec m @ [46] @ xs = dec n @ [46] @ ys \<longleftrightarrow> m = n \<and> xs = ys"
proof
  assume eq: "dec m @ [46] @ xs = dec n @ [46] @ ys"
  have tw: "takeWhile (\<lambda>b. b \<noteq> 46) (dec k @ [46] @ zs) = dec k" for k zs
    using dec_no_dot [of k] by (subst takeWhile_append2) auto
  have "dec m = dec n" using arg_cong [OF eq, of "takeWhile (\<lambda>b. b \<noteq> 46)"] by (simp only: tw)
  then show "m = n \<and> xs = ys" using eq by (simp add: dec_inject)
qed simp

lemma unat_ucast_byte: "unat (ucast (w :: 'a::len word) :: byte) = unat w mod 256"
  by (simp add: unsigned_ucast_eq take_bit_eq_mod unsigned_take_bit_eq)

lemma unat_drop_bit_div: "unat (drop_bit k w) = unat w div 2 ^ k"
  by (subst unat_drop_bit_eq) (rule drop_bit_eq_div)

text \<open>Passing the whole socket address gives the family and the port.\<close>

lemma inet_ntop_sockaddr:
  assumes "sin_family a = AF_INET"
  shows "inet_ntop4 (sockaddr_bytes a) =
    dec 2 @ [46] @ dec 0 @ [46] @ dec (unat (sin_port a) div 256) @ [46] @ dec (unat (sin_port a) mod 256)"
proof -
  have "unat (sin_port a) < 2 ^ LENGTH(16)" by (rule unsigned_less)
  then have lt: "unat (sin_port a) < 65536" by simp
  have "unat (drop_bit 8 (sin_port a)) = unat (sin_port a) div 256"
    by (simp add: unat_drop_bit_div)
  then have "unat (ucast (drop_bit 8 (sin_port a)) :: byte) = unat (sin_port a) div 256"
    using lt by (simp add: unat_ucast_byte)
  moreover have "unat (ucast (drop_bit 8 (2 :: 16 word)) :: byte) = 0" "unat (ucast (2 :: 16 word) :: byte) = 2"
    by simp_all
  ultimately show ?thesis
    using assms by (simp add: inet_ntop4_def sockaddr_bytes_def unat_ucast_byte del: append_assoc)
qed

text \<open>It is the text of the address only for peers in the network \<open>2.0.0.0/16\<close>.\<close>

lemma inet_ntop4_inject:
  "inet_ntop4 xs = inet_ntop4 ys \<longleftrightarrow> xs ! 0 = ys ! 0 \<and> xs ! 1 = ys ! 1 \<and> xs ! 2 = ys ! 2 \<and> xs ! 3 = ys ! 3"
  by (simp add: inet_ntop4_def dec_dot_inject dec_inject word_unat_eq_iff del: append_Cons append_Nil)

lemma inet_ntop_sockaddr_dotted:
  assumes "sin_family a = AF_INET" and eq: "inet_ntop4 (sockaddr_bytes a) = dotted (sin_addr a)"
  shows "unat (sin_addr a) div 65536 = 512"
proof -
  let ?n = "unat (sin_addr a)"
  have b: "ucast (drop_bit 24 (sin_addr a)) = (2 :: byte)" "ucast (drop_bit 16 (sin_addr a)) = (0 :: byte)"
    using eq assms(1) by (simp_all add: dotted_def inet_ntop4_inject sockaddr_bytes_def addr_bytes_def)
  have "?n < 2 ^ LENGTH(32)" by (rule unsigned_less)
  then have "?n div 16777216 < 256" by (simp add: div_less_iff_less_mult)
  moreover have "?n div 16777216 mod 256 = 2" "?n div 65536 mod 256 = 0"
    using arg_cong [OF b(1), of unat] arg_cong [OF b(2), of unat]
    by (simp_all add: unat_ucast_byte unat_drop_bit_div)
  moreover have "?n div 65536 div 256 = ?n div 16777216" by (simp add: div_mult2_eq [symmetric])
  ultimately show ?thesis using div_mult_mod_eq [of "?n div 65536" 256] by simp
qed

end
