(* ===== verification/Linked_List.thy ===== *)
theory Linked_List
  imports C_Memory Peer_Address
begin

text \<open>
  The list of finished threads of the socket server, \<open>server/linkedlist.c\<close> and \<open>.h\<close>: a singly linked
  list of heap nodes, and its operations in the two variants, with and without the mutex. The loops
  follow pointers that nothing bounds, so they are partial functions: \<open>None\<close> is an access through a
  null or dangling pointer, a mutex that is taken twice, or a search that never ends in a cyclic list.
  On lists that represent a sequence of entries every operation returns and does what the operation of
  the same name does to the sequence.
\<close>

subsection \<open>The data\<close>

type_synonym pthread_t = "64 word"

record thread_data =
  file_descriptor :: int
  their_addr :: sockaddr_in
  thread_id :: pthread_t
  completion :: bool

record node =
  nxt :: ptr                    \<comment> \<open>the member \<open>next\<close>\<close>
  data :: thread_data

record ll =
  head :: ptr
  mutex :: bool                 \<comment> \<open>taken or not\<close>

text \<open>The lines that the printing functions write, one constructor for each format.\<close>

datatype out_line =
    ThreadLine pthread_t int
  | NullNode
  | Rule
  | NodeTitle
  | StatusLine bool int pthread_t

record lstate =
  nodes :: "nat \<rightharpoonup> node"
  lls :: "nat \<rightharpoonup> ll"
  mallocs :: nat
  stdout :: "out_line list"

text \<open>\<open>malloc(sizeof(node))\<close>: a parameter that chooses the address, or fails. \<open>malloc_total\<close> is the
  assumption that memory never runs out.\<close>

type_synonym node_allocator = "nat \<Rightarrow> (nat \<rightharpoonup> node) \<Rightarrow> nat option"

definition malloc_fresh :: "node_allocator \<Rightarrow> bool" where
  "malloc_fresh al \<longleftrightarrow> (\<forall>c h a. al c h = Some a \<longrightarrow> h a = None)"

definition malloc_total :: "node_allocator \<Rightarrow> bool" where
  "malloc_total al \<longleftrightarrow> (\<forall>c h. finite (dom h) \<longrightarrow> al c h \<noteq> None)"

subsection \<open>Access\<close>

definition get_node :: "ptr \<Rightarrow> lstate \<Rightarrow> node option" where
  "get_node p s = (case p of NULL \<Rightarrow> None | Ptr a \<Rightarrow> nodes s a)"

definition put_node :: "ptr \<Rightarrow> node \<Rightarrow> lstate \<Rightarrow> lstate option" where
  "put_node p n s =
     (case p of
        NULL \<Rightarrow> None
      | Ptr a \<Rightarrow> (case nodes s a of None \<Rightarrow> None | Some _ \<Rightarrow> Some (s\<lparr>nodes := (nodes s)(a \<mapsto> n)\<rparr>)))"

definition free_node :: "ptr \<Rightarrow> lstate \<Rightarrow> lstate option" where
  "free_node p s =
     (case p of
        NULL \<Rightarrow> Some s
      | Ptr a \<Rightarrow> (case nodes s a of None \<Rightarrow> None | Some _ \<Rightarrow> Some (s\<lparr>nodes := (nodes s)(a := None)\<rparr>)))"

text \<open>\<open>malloc\<close> returns a node with unspecified members, here blank ones, which the code never reads, or
  the null pointer; the code stores through the result without a test, which is undefined then.\<close>

definition blank_node :: node where
  "blank_node = \<lparr>nxt = NULL,
     data = \<lparr>file_descriptor = 0, their_addr = \<lparr>sin_family = 0, sin_port = 0, sin_addr = 0\<rparr>, thread_id = 0, completion = False\<rparr>\<rparr>"

definition malloc_node :: "node_allocator \<Rightarrow> lstate \<Rightarrow> ptr \<times> lstate" where
  "malloc_node al s =
     (case al (mallocs s) (nodes s) of
        None \<Rightarrow> (NULL, s\<lparr>mallocs := Suc (mallocs s)\<rparr>)
      | Some a \<Rightarrow> (Ptr a, s\<lparr>nodes := (nodes s)(a \<mapsto> blank_node), mallocs := Suc (mallocs s)\<rparr>))"

definition set_next :: "ptr \<Rightarrow> ptr \<Rightarrow> lstate \<Rightarrow> lstate option" where
  "set_next p q s = do { n \<leftarrow> get_node p s; put_node p (n\<lparr>nxt := q\<rparr>) s }"

definition set_data :: "ptr \<Rightarrow> thread_data \<Rightarrow> lstate \<Rightarrow> lstate option" where
  "set_data p d s = do { n \<leftarrow> get_node p s; put_node p (n\<lparr>data := d\<rparr>) s }"

definition set_head :: "nat \<Rightarrow> ptr \<Rightarrow> lstate \<Rightarrow> lstate option" where
  "set_head l p s = do { L \<leftarrow> lls s l; Some (s\<lparr>lls := (lls s)(l \<mapsto> L\<lparr>head := p\<rparr>)\<rparr>) }"

definition pthread_mutex_lock :: "nat \<Rightarrow> lstate \<Rightarrow> lstate option" where
  "pthread_mutex_lock l s =
     do { L \<leftarrow> lls s l; if mutex L then None else Some (s\<lparr>lls := (lls s)(l \<mapsto> L\<lparr>mutex := True\<rparr>)\<rparr>) }"

definition pthread_mutex_unlock :: "nat \<Rightarrow> lstate \<Rightarrow> lstate option" where
  "pthread_mutex_unlock l s =
     do { L \<leftarrow> lls s l; if mutex L then Some (s\<lparr>lls := (lls s)(l \<mapsto> L\<lparr>mutex := False\<rparr>)\<rparr>) else None }"

definition print_line :: "out_line \<Rightarrow> lstate \<Rightarrow> lstate" where
  "print_line x s = s\<lparr>stdout := stdout s @ [x]\<rparr>"

declare get_node_def [c_defs] put_node_def [c_defs] free_node_def [c_defs] malloc_node_def [c_defs]
  set_next_def [c_defs] set_data_def [c_defs] set_head_def [c_defs] pthread_mutex_lock_def [c_defs] pthread_mutex_unlock_def [c_defs]
  print_line_def [c_defs]

subsection \<open>The operations\<close>

definition init_linked_list :: "nat \<Rightarrow> lstate \<Rightarrow> lstate option" where
  "init_linked_list l s =
     do { _ \<leftarrow> lls s l; Some (s\<lparr>lls := (lls s)(l \<mapsto> \<lparr>head = NULL, mutex = False\<rparr>)\<rparr>) }"

text \<open>The head is set before the link to the old head is stored.\<close>

definition link_head :: "nat \<Rightarrow> ptr \<Rightarrow> lstate \<Rightarrow> lstate option" where
  "link_head l new_head s =
     do { L \<leftarrow> lls s l;
          let old_head = head L;
          s \<leftarrow> set_head l new_head s;
          set_next new_head old_head s }"

definition insert_element_to_linked_list ::
  "node_allocator \<Rightarrow> nat \<Rightarrow> thread_data \<Rightarrow> lstate \<Rightarrow> lstate option" where
  "insert_element_to_linked_list al l d s =
     do { let (new_head, s) = malloc_node al s;
          s \<leftarrow> set_data new_head d s;
          s \<leftarrow> pthread_mutex_lock l s;
          s \<leftarrow> link_head l new_head s;
          pthread_mutex_unlock l s }"

definition insert_element_to_linked_list_no_mutex ::
  "node_allocator \<Rightarrow> nat \<Rightarrow> thread_data \<Rightarrow> lstate \<Rightarrow> lstate option" where
  "insert_element_to_linked_list_no_mutex al l d s =
     do { let (new_head, s) = malloc_node al s;
          s \<leftarrow> set_data new_head d s;
          link_head l new_head s }"

text \<open>Unlinking the found node \<open>temp\<close>, the first one if \<open>prev\<close> is the same pointer.\<close>

definition unlink :: "nat \<Rightarrow> ptr \<Rightarrow> ptr \<Rightarrow> lstate \<Rightarrow> lstate option" where
  "unlink l prev temp s =
     do { t \<leftarrow> get_node temp s;
          s \<leftarrow> (if prev = temp then set_head l (nxt t) s
                else set_next prev (nxt t) s);
          free_node temp s }"

partial_function (option) remove_loop ::
  "(ptr \<Rightarrow> ptr \<Rightarrow> lstate \<Rightarrow> lstate option) \<Rightarrow> pthread_t \<Rightarrow> ptr \<Rightarrow> ptr \<Rightarrow> lstate \<Rightarrow> lstate option" where
  "remove_loop found tid prev temp s =
     (if temp = NULL then Some s
      else do { t \<leftarrow> get_node temp s;
                if thread_id (data t) = tid then found prev temp s
                else remove_loop found tid temp (nxt t) s })"

definition remove_element_from_linked_list :: "nat \<Rightarrow> pthread_t \<Rightarrow> lstate \<Rightarrow> lstate option" where
  "remove_element_from_linked_list l tid s =
     do { L \<leftarrow> lls s l;
          remove_loop (\<lambda>prev temp s. do { s \<leftarrow> pthread_mutex_lock l s;
                                          s \<leftarrow> unlink l prev temp s;
                                          pthread_mutex_unlock l s })
            tid (head L) (head L) s }"

definition remove_element_from_linked_list_no_mutex :: "nat \<Rightarrow> pthread_t \<Rightarrow> lstate \<Rightarrow> lstate option" where
  "remove_element_from_linked_list_no_mutex l tid s =
     do { L \<leftarrow> lls s l; remove_loop (unlink l) tid (head L) (head L) s }"

partial_function (option) free_loop :: "ptr \<Rightarrow> lstate \<Rightarrow> lstate option" where
  "free_loop it s =
     (if it = NULL then Some s
      else do { n \<leftarrow> get_node it s;
                let temp = nxt n;
                s \<leftarrow> free_node it s;
                free_loop temp s })"

definition free_linked_list :: "nat \<Rightarrow> lstate \<Rightarrow> lstate option" where
  "free_linked_list l s =
     do { L \<leftarrow> lls s l;
          s \<leftarrow> free_loop (head L) s;
          Some (s\<lparr>lls := (lls s)(l := None)\<rparr>) }"

partial_function (option) print_loop :: "ptr \<Rightarrow> lstate \<Rightarrow> lstate option" where
  "print_loop it s =
     (if it = NULL then Some s
      else do { n \<leftarrow> get_node it s;
                print_loop (nxt n)
                  (print_line (ThreadLine (thread_id (data n)) (file_descriptor (data n))) s) })"

definition print_linked_list_thread_id :: "nat \<Rightarrow> lstate \<Rightarrow> lstate option" where
  "print_linked_list_thread_id l s =
     do { s \<leftarrow> pthread_mutex_lock l s;
          L \<leftarrow> lls s l;
          s \<leftarrow> print_loop (head L) s;
          pthread_mutex_unlock l s }"

definition print_thread_data :: "thread_data \<Rightarrow> lstate \<Rightarrow> lstate" where
  "print_thread_data d s = print_line (StatusLine (completion d) (file_descriptor d) (thread_id d)) s"

definition print_node :: "ptr \<Rightarrow> lstate \<Rightarrow> lstate option" where
  "print_node p s =
     (if p = NULL then Some (print_line NullNode s)
      else do { n \<leftarrow> get_node p s;
                let s = print_line Rule s;
                let s = print_line NodeTitle s;
                let s = print_line (StatusLine (completion (data n)) (file_descriptor (data n)) (thread_id (data n))) s;
                Some (print_line Rule s) })"

partial_function (option) status_loop :: "pthread_t \<Rightarrow> bool \<Rightarrow> ptr \<Rightarrow> lstate \<Rightarrow> lstate option" where
  "status_loop tid status temp s =
     (if temp = NULL then Some s
      else do { t \<leftarrow> get_node temp s;
                if thread_id (data t) = tid then set_data temp ((data t)\<lparr>completion := status\<rparr>) s
                else status_loop tid status (nxt t) s })"

definition set_thread_status :: "nat \<Rightarrow> pthread_t \<Rightarrow> bool \<Rightarrow> lstate \<Rightarrow> lstate option" where
  "set_thread_status l tid status s =
     do { s \<leftarrow> pthread_mutex_lock l s;
          L \<leftarrow> lls s l;
          s \<leftarrow> status_loop tid status (head L) s;
          pthread_mutex_unlock l s }"

definition set_thread_status_no_mutex :: "nat \<Rightarrow> pthread_t \<Rightarrow> bool \<Rightarrow> lstate \<Rightarrow> lstate option" where
  "set_thread_status_no_mutex l tid status s =
     do { L \<leftarrow> lls s l; status_loop tid status (head L) s }"

text \<open>The searches return a copy of the first matching entry in a new node, or the null pointer.\<close>

partial_function (option) search_loop :: "(thread_data \<Rightarrow> bool) \<Rightarrow> ptr \<Rightarrow> lstate \<Rightarrow> ptr option" where
  "search_loop match temp s =
     (if temp = NULL then Some NULL
      else do { t \<leftarrow> get_node temp s;
                if match (data t) then Some temp else search_loop match (nxt t) s })"

definition copy_found :: "node_allocator \<Rightarrow> ptr \<Rightarrow> lstate \<Rightarrow> (ptr \<times> lstate) option" where
  "copy_found al temp s =
     (if temp = NULL then Some (NULL, s)
      else do { let (p, s) = malloc_node al s;
                s \<leftarrow> set_next p NULL s;
                t \<leftarrow> get_node temp s;
                s \<leftarrow> set_data p (data t) s;
                Some (p, s) })"

definition get_thread_data_no_mutex ::
  "node_allocator \<Rightarrow> nat \<Rightarrow> pthread_t \<Rightarrow> lstate \<Rightarrow> (ptr \<times> lstate) option" where
  "get_thread_data_no_mutex al l tid s =
     do { L \<leftarrow> lls s l;
          temp \<leftarrow> search_loop (\<lambda>d. thread_id d = tid) (head L) s;
          copy_found al temp s }"

text \<open>The variants that take the mutex take it only to copy the data.\<close>

definition copy_found_locked :: "node_allocator \<Rightarrow> nat \<Rightarrow> ptr \<Rightarrow> lstate \<Rightarrow> (ptr \<times> lstate) option" where
  "copy_found_locked al l temp s =
     (if temp = NULL then Some (NULL, s)
      else do { let (p, s) = malloc_node al s;
                s \<leftarrow> set_next p NULL s;
                s \<leftarrow> pthread_mutex_lock l s;
                t \<leftarrow> get_node temp s;
                s \<leftarrow> set_data p (data t) s;
                s \<leftarrow> pthread_mutex_unlock l s;
                Some (p, s) })"

definition get_thread_data ::
  "node_allocator \<Rightarrow> nat \<Rightarrow> pthread_t \<Rightarrow> lstate \<Rightarrow> (ptr \<times> lstate) option" where
  "get_thread_data al l tid s =
     do { L \<leftarrow> lls s l;
          temp \<leftarrow> search_loop (\<lambda>d. thread_id d = tid) (head L) s;
          copy_found_locked al l temp s }"

definition get_thread_data_by_fd ::
  "node_allocator \<Rightarrow> nat \<Rightarrow> int \<Rightarrow> lstate \<Rightarrow> (ptr \<times> lstate) option" where
  "get_thread_data_by_fd al l fd s =
     do { L \<leftarrow> lls s l;
          temp \<leftarrow> search_loop (\<lambda>d. file_descriptor d = fd) (head L) s;
          copy_found_locked al l temp s }"

declare remove_loop.simps [code] free_loop.simps [code] print_loop.simps [code] status_loop.simps [code]
  search_loop.simps [code]


subsection \<open>Lists that represent a sequence\<close>

text \<open>\<open>as\<close> are the addresses of the nodes from \<open>p\<close> on.\<close>

fun chain :: "(nat \<rightharpoonup> node) \<Rightarrow> ptr \<Rightarrow> nat list \<Rightarrow> bool" where
  "chain h p [] = (p = NULL)"
| "chain h p (a # as) = (p = Ptr a \<and> (case h a of None \<Rightarrow> False | Some n \<Rightarrow> chain h (nxt n) as))"

lemma chain_Cons [simp]:
  "chain h p (a # as) \<longleftrightarrow> p = Ptr a \<and> (\<exists>n. h a = Some n \<and> chain h (nxt n) as)"
  by (simp split: option.split)

declare chain.simps(2) [simp del]

definition entries :: "(nat \<rightharpoonup> node) \<Rightarrow> nat list \<Rightarrow> thread_data list" where
  "entries h as = map (\<lambda>a. data (the (h a))) as"

definition list_repr :: "nat \<Rightarrow> lstate \<Rightarrow> bool \<Rightarrow> nat list \<Rightarrow> thread_data list \<Rightarrow> bool" where
  "list_repr l s locked as ds \<longleftrightarrow>
     (\<exists>p. lls s l = Some \<lparr>head = p, mutex = locked\<rparr> \<and> chain (nodes s) p as) \<and> distinct as \<and> entries (nodes s) as = ds"

text \<open>The nodes that are not on the list.\<close>

definition other_nodes :: "lstate \<Rightarrow> nat list \<Rightarrow> (nat \<rightharpoonup> node)" where
  "other_nodes s as = nodes s |` (- set as)"

lemma chain_frame: "a \<notin> set as \<Longrightarrow> chain (h(a := x)) p as = chain h p as"
  by (induction h p as rule: chain.induct) (auto split: option.split)

lemma entries_frame: "a \<notin> set as \<Longrightarrow> entries (h(a := x)) as = entries h as"
  by (auto simp: entries_def)

lemma chain_alloc: "chain h p as \<Longrightarrow> a \<in> set as \<Longrightarrow> h a \<noteq> None"
  by (induction h p as rule: chain.induct) (auto split: option.splits)

lemma entries_simps [simp]: "entries h [] = []" "entries h (a # as) = data (the (h a)) # entries h as"
  by (simp_all add: entries_def)

lemma chain_unique: "chain h p as \<Longrightarrow> chain h p bs \<Longrightarrow> as = bs"
  by (induction h p as arbitrary: bs rule: chain.induct; case_tac bs) (auto split: option.splits)

subsection \<open>The operations on sequences\<close>

fun drop_first :: "('a \<Rightarrow> bool) \<Rightarrow> 'a list \<Rightarrow> 'a list" where
  "drop_first P [] = []"
| "drop_first P (x # xs) = (if P x then xs else x # drop_first P xs)"

fun update_first :: "('a \<Rightarrow> bool) \<Rightarrow> ('a \<Rightarrow> 'a) \<Rightarrow> 'a list \<Rightarrow> 'a list" where
  "update_first P f [] = []"
| "update_first P f (x # xs) = (if P x then f x # xs else x # update_first P f xs)"

fun pick :: "('a \<Rightarrow> bool) \<Rightarrow> 'a list \<Rightarrow> 'b list \<Rightarrow> 'b option" where
  "pick P (x # xs) (y # ys) = (if P x then Some y else pick P xs ys)"
| "pick P _ _ = None"

subsection \<open>Correctness\<close>

text \<open>One step of each loop.\<close>

lemma loop_ends [simp]:
  "remove_loop found tid prev NULL s = Some s" "free_loop NULL s = Some s" "print_loop NULL s = Some s"
  "status_loop tid st NULL s = Some s" "search_loop P NULL s = Some NULL"
  by (simp_all add: remove_loop.simps free_loop.simps print_loop.simps status_loop.simps search_loop.simps)

lemma remove_loop_step:
  "nodes s a = Some n \<Longrightarrow> remove_loop found tid prev (Ptr a) s =
     (if thread_id (data n) = tid then found prev (Ptr a) s else remove_loop found tid (Ptr a) (nxt n) s)"
  by (subst remove_loop.simps) (simp add: get_node_def)

lemma free_loop_step:
  "nodes s a = Some n \<Longrightarrow> free_loop (Ptr a) s = free_loop (nxt n) (s\<lparr>nodes := (nodes s)(a := None)\<rparr>)"
  by (subst free_loop.simps) (simp add: get_node_def free_node_def)

lemma print_loop_step:
  "nodes s a = Some n \<Longrightarrow> print_loop (Ptr a) s =
     print_loop (nxt n) (print_line (ThreadLine (thread_id (data n)) (file_descriptor (data n))) s)"
  by (subst print_loop.simps) (simp add: get_node_def)

lemma status_loop_step:
  "nodes s a = Some n \<Longrightarrow> status_loop tid st (Ptr a) s =
     (if thread_id (data n) = tid then Some (s\<lparr>nodes := (nodes s)(a \<mapsto> n\<lparr>data := (data n)\<lparr>completion := st\<rparr>\<rparr>)\<rparr>)
      else status_loop tid st (nxt n) s)"
  by (subst status_loop.simps) (simp add: get_node_def put_node_def set_data_def)

lemma search_loop_step:
  "nodes s a = Some n \<Longrightarrow>
   search_loop P (Ptr a) s = (if P (data n) then Some (Ptr a) else search_loop P (nxt n) s)"
  by (subst search_loop.simps) (simp add: get_node_def)

lemmas loop_steps = remove_loop_step free_loop_step print_loop_step status_loop_step search_loop_step

text \<open>The loops, on a chain.\<close>

lemma status_loop_ok:
  "chain (nodes s) p as \<Longrightarrow> distinct as \<Longrightarrow>
   \<exists>h. status_loop tid st p s = Some (s\<lparr>nodes := h\<rparr>) \<and> chain h p as \<and>
     entries h as = update_first (\<lambda>d. thread_id d = tid) (\<lambda>d. d\<lparr>completion := st\<rparr>) (entries (nodes s) as) \<and>
     (\<forall>x. x \<notin> set as \<longrightarrow> h x = nodes s x)"
proof (induction as arbitrary: p)
  case Nil
  then show ?case by (intro exI [of _ "nodes s"]) simp
next
  case (Cons a as)
  then obtain n where n: "p = Ptr a" "nodes s a = Some n" "chain (nodes s) (nxt n) as"
    by (auto split: option.splits)
  show ?case
  proof (cases "thread_id (data n) = tid")
    case True
    let ?h = "(nodes s)(a \<mapsto> n\<lparr>data := (data n)\<lparr>completion := st\<rparr>\<rparr>)"
    have "status_loop tid st p s = Some (s\<lparr>nodes := ?h\<rparr>)"
      using n True by (simp add: status_loop_step)
    moreover have "chain ?h p (a # as)"
      using n Cons.prems(2) by (simp add: chain_frame)
    moreover have "entries ?h (a # as) =
        update_first (\<lambda>d. thread_id d = tid) (\<lambda>d. d\<lparr>completion := st\<rparr>) (entries (nodes s) (a # as))"
      using n True Cons.prems(2) by (simp add: entries_frame)
    moreover have "\<forall>x. x \<notin> set (a # as) \<longrightarrow> ?h x = nodes s x" by simp
    ultimately show ?thesis by blast
  next
    case False
    obtain h where h: "status_loop tid st (nxt n) s = Some (s\<lparr>nodes := h\<rparr>)" "chain h (nxt n) as"
      "entries h as = update_first (\<lambda>d. thread_id d = tid) (\<lambda>d. d\<lparr>completion := st\<rparr>) (entries (nodes s) as)"
      "\<forall>x. x \<notin> set as \<longrightarrow> h x = nodes s x"
      using Cons.IH [OF n(3)] Cons.prems(2) by auto
    then have "h a = Some n" using n(2) Cons.prems(2) by simp
    then show ?thesis
      using h n False by (intro exI [of _ h]) (simp add: status_loop_step)
  qed
qed

lemma search_loop_ok:
  "chain (nodes s) p as \<Longrightarrow>
   search_loop P p s = Some (case pick P (entries (nodes s) as) as of None \<Rightarrow> NULL | Some a \<Rightarrow> Ptr a)"
proof (induction as arbitrary: p)
  case Nil
  then show ?case by simp
next
  case (Cons a as)
  then obtain n where n: "p = Ptr a" "nodes s a = Some n" "chain (nodes s) (nxt n) as"
    by (auto split: option.splits)
  then show ?case using Cons.IH [OF n(3)] by (simp add: search_loop_step)
qed

lemma print_loop_ok:
  "chain (nodes s) p as \<Longrightarrow>
   print_loop p s = Some (s\<lparr>stdout := stdout s @
     map (\<lambda>d. ThreadLine (thread_id d) (file_descriptor d)) (entries (nodes s) as)\<rparr>)"
proof (induction as arbitrary: p s)
  case Nil
  then show ?case by simp
next
  case (Cons a as)
  then obtain n where n: "p = Ptr a" "nodes s a = Some n" "chain (nodes s) (nxt n) as"
    by (auto split: option.splits)
  let ?t = "print_line (ThreadLine (thread_id (data n)) (file_descriptor (data n))) s"
  have "print_loop p s = print_loop (nxt n) ?t"
    using n by (simp add: print_loop_step)
  also have "\<dots> = Some (?t\<lparr>stdout := stdout ?t @
      map (\<lambda>d. ThreadLine (thread_id d) (file_descriptor d)) (entries (nodes ?t) as)\<rparr>)"
    by (rule Cons.IH) (simp add: n(3) print_line_def)
  finally show ?case using n by (simp add: print_line_def)
qed

lemma free_loop_ok:
  "chain (nodes s) p as \<Longrightarrow> distinct as \<Longrightarrow> free_loop p s = Some (s\<lparr>nodes := nodes s |` (- set as)\<rparr>)"
proof (induction as arbitrary: p s)
  case Nil
  then show ?case by (cases s) (simp add: restrict_map_def)
next
  case (Cons a as)
  then obtain n where n: "p = Ptr a" "nodes s a = Some n" "chain (nodes s) (nxt n) as"
    by (auto split: option.splits)
  let ?t = "s\<lparr>nodes := (nodes s)(a := None)\<rparr>"
  have "free_loop p s = free_loop (nxt n) ?t"
    using n by (simp add: free_loop_step)
  also have "\<dots> = Some (?t\<lparr>nodes := nodes ?t |` (- set as)\<rparr>)"
    using n Cons.prems(2) chain_frame [of a as "nodes s" None "nxt n"]
    by (intro Cons.IH) (simp_all del: fun_upd_apply)
  also have "nodes ?t |` (- set as) = nodes s |` (- set (a # as))"
    by (rule ext) (simp add: restrict_map_def)
  finally show ?case by simp
qed


text \<open>Removal: the loop finds the first match and the pointer before it.\<close>

lemma chain_append_Cons:
  "chain h p (us @ a # vs) \<Longrightarrow> \<exists>n. h a = Some n \<and> chain h (nxt n) vs"
  by (induction h p us rule: chain.induct) (auto split: option.splits)

lemma remove_loop_none:
  "chain (nodes s) p as \<Longrightarrow> \<forall>d \<in> set (entries (nodes s) as). thread_id d \<noteq> tid \<Longrightarrow>
   remove_loop found tid prev p s = Some s"
  by (induction as arbitrary: p prev) (auto simp: remove_loop_step split: option.splits)

lemma remove_loop_found:
  "chain (nodes s) p (us @ a # vs) \<Longrightarrow> \<forall>d \<in> set (entries (nodes s) us). thread_id d \<noteq> tid \<Longrightarrow>
   thread_id (data (the (nodes s a))) = tid \<Longrightarrow>
   remove_loop found tid prev p s = found (if us = [] then prev else Ptr (last us)) (Ptr a) s"
  by (induction us arbitrary: p prev) (auto simp: remove_loop_step split: option.splits)

lemma chain_unlink:
  "chain h p (us @ q # a # vs) \<Longrightarrow> distinct (us @ q # a # vs) \<Longrightarrow> h q = Some nq \<Longrightarrow> h a = Some na \<Longrightarrow>
   chain (h(q \<mapsto> nq\<lparr>nxt := nxt na\<rparr>, a := None)) p (us @ q # vs)"
proof (induction us arbitrary: p)
  case Nil
  then have "chain h (nxt na) vs" by auto
  then show ?case using Nil by (simp add: chain_frame fun_upd_same fun_upd_other del: fun_upd_apply)
next
  case (Cons u us)
  then obtain n where n: "p = Ptr u" "h u = Some n" "chain h (nxt n) (us @ q # a # vs)"
    by (auto split: option.splits)
  then have "chain (h(q \<mapsto> nq\<lparr>nxt := nxt na\<rparr>, a := None)) (nxt n) (us @ q # vs)"
    using Cons.prems by (intro Cons.IH) simp_all
  moreover have "(h(q \<mapsto> nq\<lparr>nxt := nxt na\<rparr>, a := None)) u = Some n"
    using n Cons.prems(2) by simp
  ultimately show ?case using n(1) unfolding append_Cons chain_Cons by blast
qed

lemma entries_append [simp]: "entries h (xs @ ys) = entries h xs @ entries h ys"
  by (simp add: entries_def)

lemma entries_unlink:
  assumes "distinct (us @ q # a # vs)" and "h q = Some nq"
  shows "entries (h(q \<mapsto> nq\<lparr>nxt := p\<rparr>, a := None)) (us @ q # vs) = entries h (us @ q # vs)"
  using assms by (auto simp: entries_def)

text \<open>The unlinked list and the released node, in both cases.\<close>

lemma unlink_ok:
  assumes repr: "list_repr l s locked (us @ a # vs) ds"
  defines "prev \<equiv> (if us = [] then Ptr a else Ptr (last us))"
  shows "\<exists>s'. unlink l prev (Ptr a) s = Some s' \<and>
    list_repr l s' locked (us @ vs) (entries (nodes s) (us @ vs)) \<and>
    other_nodes s' (us @ vs) = other_nodes s (us @ a # vs) \<and> stdout s' = stdout s \<and> mallocs s' = mallocs s"
proof -
  obtain p where L: "lls s l = Some \<lparr>head = p, mutex = locked\<rparr>" and ch: "chain (nodes s) p (us @ a # vs)"
    and di: "distinct (us @ a # vs)"
    using repr by (auto simp: list_repr_def)
  obtain n where n: "nodes s a = Some n" "chain (nodes s) (nxt n) vs"
    using chain_append_Cons [OF ch] by blast
  show ?thesis
  proof (cases us rule: rev_cases)
    case Nil
    let ?s = "s\<lparr>lls := (lls s)(l \<mapsto> \<lparr>head = nxt n, mutex = locked\<rparr>), nodes := (nodes s)(a := None)\<rparr>"
    have "unlink l prev (Ptr a) s = Some ?s"
      using Nil L n by (simp add: unlink_def prev_def get_node_def set_head_def free_node_def)
    moreover have "list_repr l ?s locked vs (entries (nodes s) vs)"
      using n di Nil chain_frame [of a vs "nodes s" None] entries_frame [of a vs "nodes s" None]
      by (simp add: list_repr_def del: fun_upd_apply) simp
    moreover have "other_nodes ?s vs = other_nodes s (a # vs)"
      by (rule ext) (simp add: other_nodes_def restrict_map_def)
    ultimately show ?thesis using Nil by auto
  next
    case (snoc us' q)
    obtain nq where q: "nodes s q = Some nq"
      using chain_append_Cons [of "nodes s" p us' q "a # vs"] ch snoc by auto
    let ?h = "(nodes s)(q \<mapsto> nq\<lparr>nxt := nxt n\<rparr>, a := None)"
    let ?s = "s\<lparr>nodes := ?h\<rparr>"
    have ne: "q \<noteq> a" using di snoc by auto
    have "unlink l prev (Ptr a) s = Some ?s"
      using snoc n q ne by (simp add: unlink_def prev_def get_node_def put_node_def set_next_def free_node_def)
    moreover have "chain ?h p (us' @ q # vs)"
      using chain_unlink [of "nodes s" p us' q a vs nq n] ch di snoc q n by simp
    then have "list_repr l ?s locked (us @ vs) (entries (nodes s) (us @ vs))"
      using L di snoc entries_unlink [of us' q a vs "nodes s" nq "nxt n"] q
      by (auto simp add: list_repr_def simp del: fun_upd_apply entries_append)
    moreover have "other_nodes ?s (us @ vs) = other_nodes s (us @ a # vs)"
      using snoc by (intro ext) (simp add: other_nodes_def restrict_map_def)
    ultimately show ?thesis by auto
  qed
qed


text \<open>Taking and releasing the mutex.\<close>

lemma lock_ok:
  assumes "list_repr l s False as ds"
  shows "\<exists>t. pthread_mutex_lock l s = Some t \<and> list_repr l t True as ds \<and> nodes t = nodes s \<and>
    stdout t = stdout s \<and> mallocs t = mallocs s"
  using assms by (auto simp: list_repr_def pthread_mutex_lock_def)

lemma unlock_ok:
  assumes "list_repr l s True as ds"
  shows "\<exists>t. pthread_mutex_unlock l s = Some t \<and> list_repr l t False as ds \<and> nodes t = nodes s \<and>
    stdout t = stdout s \<and> mallocs t = mallocs s"
  using assms by (auto simp: list_repr_def pthread_mutex_unlock_def)

lemma list_repr_head: "list_repr l s locked as ds \<Longrightarrow> \<exists>p. lls s l = Some \<lparr>head = p, mutex = locked\<rparr> \<and> chain (nodes s) p as"
  by (simp add: list_repr_def)

text \<open>What an operation leaves alone: nodes off the list, and what was printed.\<close>

definition keeps :: "lstate \<Rightarrow> nat list \<Rightarrow> lstate \<Rightarrow> nat list \<Rightarrow> bool" where
  "keeps s as s' as' \<longleftrightarrow> other_nodes s' as' = other_nodes s as \<and> stdout s' = stdout s"

lemma init_ok: "lls s l \<noteq> None \<Longrightarrow> \<exists>s'. init_linked_list l s = Some s' \<and> list_repr l s' False [] [] \<and> nodes s' = nodes s"
  by (auto simp: init_linked_list_def list_repr_def)

lemma link_head_ok:
  assumes repr: "list_repr l s locked as ds" and a: "nodes s a = Some \<lparr>nxt = q, data = d\<rparr>" "a \<notin> set as"
  shows "\<exists>s'. link_head l (Ptr a) s = Some s' \<and> list_repr l s' locked (a # as) (d # ds) \<and> stdout s' = stdout s \<and>
    (\<forall>x. x \<noteq> a \<longrightarrow> nodes s' x = nodes s x)"
proof -
  obtain p where L: "lls s l = Some \<lparr>head = p, mutex = locked\<rparr>" "chain (nodes s) p as"
    using list_repr_head [OF repr] by blast
  let ?h = "(nodes s)(a \<mapsto> \<lparr>nxt = p, data = d\<rparr>)"
  let ?s = "s\<lparr>lls := (lls s)(l \<mapsto> \<lparr>head = Ptr a, mutex = locked\<rparr>), nodes := ?h\<rparr>"
  have run: "link_head l (Ptr a) s = Some ?s"
    using L a by (simp add: link_head_def set_head_def set_next_def get_node_def put_node_def)
  have "chain ?h p as" "entries ?h as = ds"
    using L a(2) repr by (simp_all add: chain_frame entries_frame list_repr_def del: fun_upd_apply)
  moreover have "distinct (a # as)" using a(2) repr by (simp add: list_repr_def)
  ultimately have "list_repr l ?s locked (a # as) (d # ds)"
    unfolding list_repr_def by (simp add: fun_upd_same del: fun_upd_apply)
  then show ?thesis using run by (intro exI [of _ ?s]) simp
qed

text \<open>A new node with the data of the entry, off the list.\<close>

lemma malloc_repr:
  assumes fresh: "malloc_fresh al" and repr: "list_repr l s locked as ds" and al: "al (mallocs s) (nodes s) = Some a"
  shows "malloc_node al s = (Ptr a, s\<lparr>nodes := (nodes s)(a \<mapsto> blank_node), mallocs := Suc (mallocs s)\<rparr>)"
    and "a \<notin> set as" and "nodes s a = None"
    and "list_repr l (s\<lparr>nodes := (nodes s)(a \<mapsto> n), mallocs := m\<rparr>) locked as ds"
proof -
  show a: "nodes s a = None" using fresh al by (auto simp: malloc_fresh_def)
  then show "a \<notin> set as" using list_repr_head [OF repr] chain_alloc by blast
  then show "list_repr l (s\<lparr>nodes := (nodes s)(a \<mapsto> n), mallocs := m\<rparr>) locked as ds"
    using repr by (simp add: list_repr_def chain_frame entries_frame del: fun_upd_apply)
  show "malloc_node al s = (Ptr a, s\<lparr>nodes := (nodes s)(a \<mapsto> blank_node), mallocs := Suc (mallocs s)\<rparr>)"
    using al by (simp add: malloc_node_def)
qed

lemma insert_no_mutex_ok:
  assumes fresh: "malloc_fresh al" and repr: "list_repr l s locked as ds" and al: "al (mallocs s) (nodes s) = Some a"
  shows "\<exists>s'. insert_element_to_linked_list_no_mutex al l d s = Some s' \<and>
    list_repr l s' locked (a # as) (d # ds) \<and> keeps s as s' (a # as)"
proof -
  let ?n = "\<lparr>nxt = NULL, data = d\<rparr>" and ?t = "s\<lparr>nodes := (nodes s)(a \<mapsto> blank_node), mallocs := Suc (mallocs s)\<rparr>"
  note t = malloc_repr [OF assms]
  let ?u = "s\<lparr>nodes := (nodes s)(a \<mapsto> ?n), mallocs := Suc (mallocs s)\<rparr>"
  have "set_data (Ptr a) d ?t = Some ?u"
    by (simp add: set_data_def get_node_def put_node_def blank_node_def)
  moreover obtain s' where s': "link_head l (Ptr a) ?u = Some s'"
      "list_repr l s' locked (a # as) (d # ds)" "stdout s' = stdout s" "\<forall>x. x \<noteq> a \<longrightarrow> nodes s' x = nodes s x"
    using link_head_ok [OF t(4) [where n = ?n and m = "Suc (mallocs s)"] _ t(2), of NULL d] by auto
  ultimately have "insert_element_to_linked_list_no_mutex al l d s = Some s'"
    using t(1) by (simp add: insert_element_to_linked_list_no_mutex_def)
  moreover have "other_nodes s' (a # as) = other_nodes s as"
    using s'(4) t(3) by (intro ext) (simp add: other_nodes_def restrict_map_def)
  ultimately show ?thesis using s'(2,3) by (auto simp: keeps_def)
qed

text \<open>The locked variant is the unlocked one inside the mutex.\<close>

lemma insert_locked:
  assumes repr: "list_repr l s False as ds"
  shows "insert_element_to_linked_list al l d s =
    do { s \<leftarrow> pthread_mutex_lock l s;
         s \<leftarrow> insert_element_to_linked_list_no_mutex al l d s;
         pthread_mutex_unlock l s }"
  using list_repr_head [OF repr]
  by (auto simp: insert_element_to_linked_list_def insert_element_to_linked_list_no_mutex_def c_defs blank_node_def link_head_def
      split: option.split)

lemma insert_ok:
  assumes fresh: "malloc_fresh al" and repr: "list_repr l s False as ds" and al: "al (mallocs s) (nodes s) = Some a"
  shows "\<exists>s'. insert_element_to_linked_list al l d s = Some s' \<and>
    list_repr l s' False (a # as) (d # ds) \<and> keeps s as s' (a # as)"
proof -
  obtain t where t: "pthread_mutex_lock l s = Some t" "list_repr l t True as ds" "nodes t = nodes s"
      "stdout t = stdout s" "mallocs t = mallocs s"
    using lock_ok [OF repr] by blast
  obtain u where u: "insert_element_to_linked_list_no_mutex al l d t = Some u" "list_repr l u True (a # as) (d # ds)"
      "keeps t as u (a # as)"
    using insert_no_mutex_ok [OF fresh t(2), of a d] al t by auto
  obtain v where "pthread_mutex_unlock l u = Some v" "list_repr l v False (a # as) (d # ds)" "nodes v = nodes u"
      "stdout v = stdout u"
    using unlock_ok [OF u(2)] by blast
  then show ?thesis
    using t u insert_locked [OF repr, of al d] by (auto simp: keeps_def other_nodes_def)
qed

text \<open>\<open>malloc\<close> fails: the result is used all the same.\<close>

lemma insert_null:
  assumes "al (mallocs s) (nodes s) = None"
  shows "insert_element_to_linked_list al l d s = None" and "insert_element_to_linked_list_no_mutex al l d s = None"
  using assms by (simp_all add: insert_element_to_linked_list_def insert_element_to_linked_list_no_mutex_def
      malloc_node_def set_data_def get_node_def)

subsubsection \<open>Removal\<close>

lemma split_first: "(\<forall>x \<in> set xs. \<not> P x) \<or> (\<exists>us x vs. xs = us @ x # vs \<and> P x \<and> (\<forall>u \<in> set us. \<not> P u))"
  using split_list_first_prop [of xs P] by blast

lemma drop_first_none: "\<forall>x \<in> set xs. \<not> P x \<Longrightarrow> drop_first P xs = xs"
  by (induction xs) auto

lemma drop_first_split: "\<forall>u \<in> set us. \<not> P u \<Longrightarrow> P x \<Longrightarrow> drop_first P (us @ x # vs) = us @ vs"
  by (induction us) auto

text \<open>The first entry of a thread on the list, as a position in the addresses.\<close>

lemma first_entry:
  assumes "entries h as = ds"
  shows "(\<forall>d \<in> set ds. \<not> P d) \<or>
    (\<exists>us a vs. as = us @ a # vs \<and> P (data (the (h a))) \<and> (\<forall>d \<in> set (entries h us). \<not> P d) \<and>
       drop_first P ds = entries h (us @ vs))"
proof (cases "\<forall>d \<in> set ds. \<not> P d")
  case False
  then have "\<exists>a \<in> set as. P (data (the (h a)))" using assms by (auto simp: entries_def)
  then obtain us a vs where "as = us @ a # vs" "P (data (the (h a)))" "\<forall>u \<in> set us. \<not> P (data (the (h u)))"
    using split_list_first_prop [of as "\<lambda>a. P (data (the (h a)))"] by blast
  moreover then have "\<forall>d \<in> set (entries h us). \<not> P d" by (auto simp: entries_def)
  moreover have "drop_first P ds = entries h (us @ vs)"
    using calculation assms by (auto simp: drop_first_split)
  ultimately show ?thesis by blast
qed simp

lemma remove_no_mutex_ok:
  assumes repr: "list_repr l s locked as ds"
  shows "\<exists>s' as'. remove_element_from_linked_list_no_mutex l tid s = Some s' \<and>
    list_repr l s' locked as' (drop_first (\<lambda>d. thread_id d = tid) ds) \<and> keeps s as s' as' \<and> set as' \<subseteq> set as"
proof -
  obtain p where L: "lls s l = Some \<lparr>head = p, mutex = locked\<rparr>" "chain (nodes s) p as"
    using list_repr_head [OF repr] by blast
  have e: "entries (nodes s) as = ds" using repr by (simp add: list_repr_def)
  consider "\<forall>d \<in> set ds. thread_id d \<noteq> tid"
    | us a vs where "as = us @ a # vs" "thread_id (data (the (nodes s a))) = tid"
        "\<forall>d \<in> set (entries (nodes s) us). thread_id d \<noteq> tid"
        "drop_first (\<lambda>d. thread_id d = tid) ds = entries (nodes s) (us @ vs)"
    using first_entry [OF e, of "\<lambda>d. thread_id d = tid"] by blast
  then show ?thesis
  proof cases
    case 1
    then have "remove_element_from_linked_list_no_mutex l tid s = Some s"
      using L e remove_loop_none [OF L(2)] by (simp add: remove_element_from_linked_list_no_mutex_def)
    then show ?thesis
      using repr 1 by (auto simp: drop_first_none keeps_def)
  next
    case 2
    have p: "us = [] \<Longrightarrow> p = Ptr a" using L(2) 2(1) by simp
    have "remove_element_from_linked_list_no_mutex l tid s =
        unlink l (if us = [] then Ptr a else Ptr (last us)) (Ptr a) s"
      using L p remove_loop_found [of s p us a vs tid "unlink l" p] 2
      by (simp add: remove_element_from_linked_list_no_mutex_def)
    then show ?thesis
      using unlink_ok [of l s locked us a vs ds] repr 2 unfolding keeps_def by (metis (no_types, lifting)
        Un_upper1 list.set_intros(2) set_append subsetI UnE UnI1 UnI2)
  qed
qed


text \<open>Without a match the mutex is never taken; with one it is taken around the unlinking only.\<close>

lemma remove_locked_eq:
  assumes repr: "list_repr l s False as ds"
  shows "remove_element_from_linked_list l tid s =
    (if \<exists>d \<in> set ds. thread_id d = tid
     then do { s \<leftarrow> pthread_mutex_lock l s;
               s \<leftarrow> remove_element_from_linked_list_no_mutex l tid s;
               pthread_mutex_unlock l s }
     else Some s)"
proof -
  obtain p where L: "lls s l = Some \<lparr>head = p, mutex = False\<rparr>" "chain (nodes s) p as"
    using list_repr_head [OF repr] by blast
  have e: "entries (nodes s) as = ds" using repr by (simp add: list_repr_def)
  let ?t = "s\<lparr>lls := (lls s)(l \<mapsto> \<lparr>head = p, mutex = True\<rparr>)\<rparr>"
  consider "\<forall>d \<in> set ds. thread_id d \<noteq> tid"
    | us a vs where "as = us @ a # vs" "thread_id (data (the (nodes s a))) = tid"
        "\<forall>d \<in> set (entries (nodes s) us). thread_id d \<noteq> tid"
    using first_entry [OF e, of "\<lambda>d. thread_id d = tid"] by blast
  then show ?thesis
  proof cases
    case 1
    then show ?thesis
      using L e remove_loop_none [OF L(2)] by (simp add: remove_element_from_linked_list_def)
  next
    case 2
    have ex: "\<exists>d \<in> set ds. thread_id d = tid" using 2 e by (auto simp: entries_def)
    show ?thesis
      using L 2 ex remove_loop_found [of s p us a vs tid _ p] remove_loop_found [of ?t p us a vs tid _ p]
      by (simp add: remove_element_from_linked_list_def remove_element_from_linked_list_no_mutex_def
          pthread_mutex_lock_def)
  qed
qed

lemma remove_ok:
  assumes repr: "list_repr l s False as ds"
  shows "\<exists>s' as'. remove_element_from_linked_list l tid s = Some s' \<and>
    list_repr l s' False as' (drop_first (\<lambda>d. thread_id d = tid) ds) \<and> keeps s as s' as' \<and> set as' \<subseteq> set as"
proof (cases "\<exists>d \<in> set ds. thread_id d = tid")
  case False
  then show ?thesis
    using remove_locked_eq [OF repr] repr by (auto simp: drop_first_none keeps_def)
next
  case True
  obtain t where t: "pthread_mutex_lock l s = Some t" "list_repr l t True as ds" "nodes t = nodes s" "stdout t = stdout s"
    using lock_ok [OF repr] by blast
  obtain u as' where u: "remove_element_from_linked_list_no_mutex l tid t = Some u"
      "list_repr l u True as' (drop_first (\<lambda>d. thread_id d = tid) ds)" "keeps t as u as'" "set as' \<subseteq> set as"
    using remove_no_mutex_ok [OF t(2)] by blast
  obtain v where v: "pthread_mutex_unlock l u = Some v"
      "list_repr l v False as' (drop_first (\<lambda>d. thread_id d = tid) ds)" "nodes v = nodes u" "stdout v = stdout u"
    using unlock_ok [OF u(2)] by blast
  have "remove_element_from_linked_list l tid s = Some v"
    using remove_locked_eq [OF repr] True t(1) u(1) v(1) by simp
  moreover have "keeps s as v as'" using t u v by (simp add: keeps_def other_nodes_def)
  ultimately show ?thesis using v(2) u(4) by blast
qed

subsubsection \<open>Status, search, printing and release\<close>

abbreviation set_status :: "pthread_t \<Rightarrow> bool \<Rightarrow> thread_data list \<Rightarrow> thread_data list" where
  "set_status tid st \<equiv> update_first (\<lambda>d. thread_id d = tid) (\<lambda>d. d\<lparr>completion := st\<rparr>)"

lemma set_status_no_mutex_ok:
  assumes repr: "list_repr l s locked as ds"
  shows "\<exists>s'. set_thread_status_no_mutex l tid st s = Some s' \<and> list_repr l s' locked as (set_status tid st ds) \<and>
    keeps s as s' as"
proof -
  obtain p where L: "lls s l = Some \<lparr>head = p, mutex = locked\<rparr>" "chain (nodes s) p as"
    using list_repr_head [OF repr] by blast
  have di: "distinct as" and e: "entries (nodes s) as = ds" using repr by (simp_all add: list_repr_def)
  obtain h where h: "status_loop tid st p s = Some (s\<lparr>nodes := h\<rparr>)" "chain h p as"
      "entries h as = set_status tid st ds" "\<forall>x. x \<notin> set as \<longrightarrow> h x = nodes s x"
    using status_loop_ok [OF L(2) di, of tid st] e by blast
  have "other_nodes (s\<lparr>nodes := h\<rparr>) as = other_nodes s as"
    using h(4) by (intro ext) (simp add: other_nodes_def restrict_map_def)
  then show ?thesis
    using L h di by (auto simp: set_thread_status_no_mutex_def list_repr_def keeps_def)
qed

lemma set_status_ok:
  assumes repr: "list_repr l s False as ds"
  shows "\<exists>s'. set_thread_status l tid st s = Some s' \<and> list_repr l s' False as (set_status tid st ds) \<and> keeps s as s' as"
proof -
  obtain t where t: "pthread_mutex_lock l s = Some t" "list_repr l t True as ds" "nodes t = nodes s" "stdout t = stdout s"
    using lock_ok [OF repr] by blast
  obtain u where u: "set_thread_status_no_mutex l tid st t = Some u" "list_repr l u True as (set_status tid st ds)"
      "keeps t as u as"
    using set_status_no_mutex_ok [OF t(2)] by blast
  obtain v where v: "pthread_mutex_unlock l u = Some v" "list_repr l v False as (set_status tid st ds)"
      "nodes v = nodes u" "stdout v = stdout u"
    using unlock_ok [OF u(2)] by blast
  have "set_thread_status l tid st s = Some v"
    using t(1) u(1) v(1)
    by (auto simp: set_thread_status_def set_thread_status_no_mutex_def bind_eq_Some_conv)
  moreover have "keeps s as v as" using t u v by (simp add: keeps_def other_nodes_def)
  ultimately show ?thesis using v(2) by blast
qed

lemma pick_find:
  "pick P (entries h as) as = Some a \<Longrightarrow> a \<in> set as \<and> List.find P (entries h as) = Some (data (the (h a)))"
  by (induction as) (auto split: if_splits)

lemma pick_none: "pick P (entries h as) as = None \<longleftrightarrow> List.find P (entries h as) = None"
  by (induction as) auto

text \<open>The address of the first match, in terms of the sequence.\<close>

lemma search_find:
  assumes repr: "list_repr l s locked as ds"
  obtains (none) "List.find P ds = None" "search_loop P (head (the (lls s l))) s = Some NULL"
  | (some) a n where "List.find P ds = Some (data n)" "nodes s a = Some n" "a \<in> set as"
      "search_loop P (head (the (lls s l))) s = Some (Ptr a)"
proof -
  obtain p where L: "lls s l = Some \<lparr>head = p, mutex = locked\<rparr>" "chain (nodes s) p as"
    using list_repr_head [OF repr] by blast
  have e: "entries (nodes s) as = ds" using repr by (simp add: list_repr_def)
  note se = search_loop_ok [OF L(2), of P]
  show thesis
  proof (cases "pick P (entries (nodes s) as) as")
    case None
    then show thesis using se L(1) e pick_none [of P "nodes s" as] by (intro none) simp_all
  next
    case (Some a)
    then have a: "a \<in> set as" "List.find P ds = Some (data (the (nodes s a)))"
      using pick_find [of P "nodes s" as a] e by simp_all
    then obtain n where "nodes s a = Some n" using chain_alloc [OF L(2)] by auto
    then show thesis using a se L(1) Some by (intro some [of n a]) simp_all
  qed
qed

text \<open>A search returns null, or a fresh node, off the list, with a copy of the first match; the list is
  as it was. The caller owns the copy.\<close>

definition found_copy :: "nat \<Rightarrow> lstate \<Rightarrow> nat list \<Rightarrow> (thread_data \<Rightarrow> bool) \<Rightarrow> thread_data list \<Rightarrow> bool \<Rightarrow> ptr \<Rightarrow> lstate \<Rightarrow> bool" where
  "found_copy l s as P ds locked p s' \<longleftrightarrow> list_repr l s' locked as ds \<and> stdout s' = stdout s \<and>
     (case List.find P ds of
        None \<Rightarrow> p = NULL \<and> nodes s' = nodes s
      | Some d \<Rightarrow> \<exists>a. p = Ptr a \<and> nodes s a = None \<and> nodes s' = (nodes s)(a \<mapsto> \<lparr>nxt = NULL, data = d\<rparr>))"

lemma copy_found_ok:
  assumes fresh: "malloc_fresh al" "malloc_total al" "finite (dom (nodes s))" and repr: "list_repr l s locked as ds"
    and n: "List.find P ds = Some (data n)" "nodes s b = Some n"
  shows "\<exists>p s'. copy_found al (Ptr b) s = Some (p, s') \<and> found_copy l s as P ds locked p s' \<and> lls s' = lls s"
    and "locked = False \<Longrightarrow> \<exists>p s'. copy_found_locked al l (Ptr b) s = Some (p, s') \<and> found_copy l s as P ds False p s'"
proof -
  obtain a where al: "al (mallocs s) (nodes s) = Some a"
    using fresh(2,3) by (auto simp: malloc_total_def)
  note m = malloc_repr [OF fresh(1) repr al]
  have ne: "a \<noteq> b" using m(3) n(2) by auto
  let ?u = "s\<lparr>nodes := (nodes s)(a \<mapsto> \<lparr>nxt = NULL, data = data n\<rparr>), mallocs := Suc (mallocs s)\<rparr>"
  have "copy_found al (Ptr b) s = Some (Ptr a, ?u)"
    using m(1) n(2) ne by (simp add: copy_found_def set_next_def set_data_def get_node_def put_node_def blank_node_def)
  moreover have fc: "found_copy l s as P ds locked (Ptr a) ?u"
    using m(3) m(4) n(1) by (simp add: found_copy_def)
  ultimately show "\<exists>p s'. copy_found al (Ptr b) s = Some (p, s') \<and> found_copy l s as P ds locked p s' \<and> lls s' = lls s"
    by (intro exI [of _ "Ptr a"] exI [of _ ?u]) simp
  assume locked: "locked = False"
  then obtain q where L: "lls s l = Some \<lparr>head = q, mutex = False\<rparr>"
    using list_repr_head [OF repr] by blast
  have "copy_found_locked al l (Ptr b) s = Some (Ptr a, ?u)"
    using m(1) n(2) ne L by (simp add: copy_found_locked_def set_next_def set_data_def get_node_def put_node_def
        blank_node_def pthread_mutex_lock_def pthread_mutex_unlock_def fun_upd_idem)
  then show "\<exists>p s'. copy_found_locked al l (Ptr b) s = Some (p, s') \<and> found_copy l s as P ds False p s'"
    using fc locked by blast
qed

lemma get_no_mutex_ok:
  assumes al: "malloc_fresh al" "malloc_total al" "finite (dom (nodes s))" and repr: "list_repr l s locked as ds"
  shows "\<exists>p s'. get_thread_data_no_mutex al l tid s = Some (p, s') \<and>
    found_copy l s as (\<lambda>d. thread_id d = tid) ds locked p s'"
  using repr
proof (cases rule: search_find [where P = "\<lambda>d. thread_id d = tid"])
  case none
  then show ?thesis
    using list_repr_head [OF repr] repr by (auto simp: get_thread_data_no_mutex_def copy_found_def found_copy_def)
next
  case (some a n)
  then show ?thesis
    using list_repr_head [OF repr] copy_found_ok(1) [OF al repr some(1,2)]
    by (auto simp: get_thread_data_no_mutex_def)
qed

lemma get_locked_ok:
  assumes al: "malloc_fresh al" "malloc_total al" "finite (dom (nodes s))" and repr: "list_repr l s False as ds"
  shows "\<exists>p s'. do { L \<leftarrow> lls s l; temp \<leftarrow> search_loop P (head L) s; copy_found_locked al l temp s } = Some (p, s') \<and>
    found_copy l s as P ds False p s'"
  using repr
proof (cases rule: search_find [where P = P])
  case none
  then show ?thesis
    using list_repr_head [OF repr] repr by (auto simp: copy_found_locked_def found_copy_def)
next
  case (some a n)
  then show ?thesis
    using list_repr_head [OF repr] copy_found_ok(2) [OF al repr some(1,2)] by auto
qed

lemma free_list_ok:
  assumes repr: "list_repr l s locked as ds"
  shows "free_linked_list l s = Some (s\<lparr>nodes := other_nodes s as, lls := (lls s)(l := None)\<rparr>)"
  using list_repr_head [OF repr] repr free_loop_ok [of s _ as]
  by (auto simp: free_linked_list_def other_nodes_def list_repr_def)

lemma print_list_ok:
  assumes repr: "list_repr l s False as ds"
  shows "print_linked_list_thread_id l s = Some (s\<lparr>stdout := stdout s @
    map (\<lambda>d. ThreadLine (thread_id d) (file_descriptor d)) ds\<rparr>)"
proof -
  obtain p where L: "lls s l = Some \<lparr>head = p, mutex = False\<rparr>" "chain (nodes s) p as"
    using list_repr_head [OF repr] by blast
  have "entries (nodes s) as = ds" using repr by (simp add: list_repr_def)
  then show ?thesis
    using L print_loop_ok [of "s\<lparr>lls := (lls s)(l \<mapsto> \<lparr>head = p, mutex = True\<rparr>)\<rparr>" p as]
    by (simp add: print_linked_list_thread_id_def pthread_mutex_lock_def pthread_mutex_unlock_def fun_upd_idem)
qed


subsection \<open>The interface: a registry of threads\<close>

text \<open>
  What the threads of the server rely on: \<open>rep s ds\<close> says that the state holds the entries \<open>ds\<close>,
  the newest first. Entries are found by the identifier of their thread.
\<close>

locale thread_registry =
  fixes rep :: "'s \<Rightarrow> thread_data list \<Rightarrow> bool"
    and ins :: "thread_data \<Rightarrow> 's \<Rightarrow> 's option"
    and del :: "pthread_t \<Rightarrow> 's \<Rightarrow> 's option"
    and upd :: "pthread_t \<Rightarrow> bool \<Rightarrow> 's \<Rightarrow> 's option"
  assumes ins_law: "rep s ds \<Longrightarrow> \<exists>s'. ins d s = Some s' \<and> rep s' (d # ds)"
    and del_law: "rep s ds \<Longrightarrow> \<exists>s'. del tid s = Some s' \<and> rep s' (drop_first (\<lambda>d. thread_id d = tid) ds)"
    and upd_law: "rep s ds \<Longrightarrow> \<exists>s'. upd tid st s = Some s' \<and> rep s' (set_status tid st ds)"

text \<open>Threads that register and report their end, and a joiner that removes a list of them.\<close>

fun register_all :: "(thread_data \<Rightarrow> 's \<Rightarrow> 's option) \<Rightarrow> (pthread_t \<Rightarrow> bool \<Rightarrow> 's \<Rightarrow> 's option) \<Rightarrow>
    thread_data list \<Rightarrow> 's \<Rightarrow> 's option" where
  "register_all ins upd [] s = Some s"
| "register_all ins upd (d # ds) s =
     do { s \<leftarrow> ins d s; s \<leftarrow> upd (thread_id d) True s; register_all ins upd ds s }"

fun remove_all :: "(pthread_t \<Rightarrow> 's \<Rightarrow> 's option) \<Rightarrow> pthread_t list \<Rightarrow> 's \<Rightarrow> 's option" where
  "remove_all del [] s = Some s"
| "remove_all del (t # ts) s = do { s \<leftarrow> del t s; remove_all del ts s }"

lemma drop_first_filter:
  "distinct (map thread_id ds) \<Longrightarrow>
   drop_first (\<lambda>d. thread_id d = tid) ds = filter (\<lambda>d. thread_id d \<noteq> tid) ds"
  by (induction ds) (auto simp: image_iff intro!: filter_True [symmetric])

context thread_registry
begin

lemma register_ok:
  "rep s ds \<Longrightarrow> \<exists>s'. do { s \<leftarrow> ins d s; upd (thread_id d) True s } = Some s' \<and> rep s' (d\<lparr>completion := True\<rparr> # ds)"
  using ins_law [of s ds d] upd_law [of _ "d # ds" "thread_id d" True] by fastforce

lemma register_all_ok:
  "rep s ds \<Longrightarrow> \<exists>s'. register_all ins upd es s = Some s' \<and>
     rep s' (rev (map (\<lambda>d. d\<lparr>completion := True\<rparr>) es) @ ds)"
proof (induction es arbitrary: s ds)
  case Nil
  then show ?case by simp
next
  case (Cons e es)
  obtain t where t: "do { s \<leftarrow> ins e s; upd (thread_id e) True s } = Some t" "rep t (e\<lparr>completion := True\<rparr> # ds)"
    using register_ok [OF Cons.prems, of e] by blast
  then show ?case
    using Cons.IH [OF t(2)] by (fastforce simp: bind_eq_Some_conv)
qed

lemma remove_all_ok:
  "rep s ds \<Longrightarrow> distinct (map thread_id ds) \<Longrightarrow>
   \<exists>s'. remove_all del ts s = Some s' \<and> rep s' (filter (\<lambda>d. thread_id d \<notin> set ts) ds)"
proof (induction ts arbitrary: s ds)
  case Nil
  then show ?case by simp
next
  case (Cons t ts)
  obtain s1 where s1: "del t s = Some s1" "rep s1 (filter (\<lambda>d. thread_id d \<noteq> t) ds)"
    using del_law [OF Cons.prems(1), of t] drop_first_filter [OF Cons.prems(2), of t] by auto
  have "distinct (map thread_id (filter (\<lambda>d. thread_id d \<noteq> t) ds))"
    using Cons.prems(2) by (rule distinct_map_filter)
  then obtain s2 where "remove_all del ts s1 = Some s2"
      "rep s2 (filter (\<lambda>d. thread_id d \<notin> set ts) (filter (\<lambda>d. thread_id d \<noteq> t) ds))"
    using Cons.IH [OF s1(2)] by blast
  moreover have "filter (\<lambda>d. thread_id d \<notin> set ts) (filter (\<lambda>d. thread_id d \<noteq> t) ds) =
      filter (\<lambda>d. thread_id d \<notin> set (t # ts)) ds"
    by (auto intro: filter_cong)
  ultimately show ?case using s1(1) by simp
qed

text \<open>Every thread that registered is removed, in whatever order the joiner takes them.\<close>

lemma all_joined:
  assumes "rep s []" and "distinct (map thread_id es)" and "set ts = thread_id ` set es"
  shows "\<exists>s'. do { s \<leftarrow> register_all ins upd es s; remove_all del ts s } = Some s' \<and> rep s' []"
proof -
  let ?ds = "rev (map (\<lambda>d. d\<lparr>completion := True\<rparr>) es)"
  obtain t where t: "register_all ins upd es s = Some t" "rep t ?ds"
    using register_all_ok [OF assms(1), of es] by auto
  have "map thread_id ?ds = rev (map thread_id es)" by (simp add: rev_map comp_def)
  then have "distinct (map thread_id ?ds)" using assms(2) by simp
  then obtain u where "remove_all del ts t = Some u" "rep u (filter (\<lambda>d. thread_id d \<notin> set ts) ?ds)"
    using remove_all_ok [OF t(2)] by blast
  moreover have "filter (\<lambda>d. thread_id d \<notin> set ts) ?ds = []"
    using assms(3) by (auto simp: filter_empty_conv)
  ultimately show ?thesis using t(1) by simp
qed

end

text \<open>The list provides the registry, in both variants, as long as \<open>malloc\<close> does not fail; \<open>X\<close> are
  the nodes of others.\<close>

definition registry :: "node_allocator \<Rightarrow> nat \<Rightarrow> bool \<Rightarrow> (nat \<rightharpoonup> node) \<Rightarrow> lstate \<Rightarrow> thread_data list \<Rightarrow> bool" where
  "registry al l locked X s ds \<longleftrightarrow> malloc_fresh al \<and> malloc_total al \<and> finite (dom X) \<and>
     (\<exists>as. list_repr l s locked as ds \<and> other_nodes s as = X)"

lemma finite_nodes: "finite (dom (other_nodes s as)) \<Longrightarrow> finite (dom (nodes s))"
proof -
  assume "finite (dom (other_nodes s as))"
  then have "finite (dom (other_nodes s as) \<union> set as)" by simp
  moreover have "dom (nodes s) \<subseteq> dom (other_nodes s as) \<union> set as"
    by (auto simp: other_nodes_def restrict_map_def)
  ultimately show ?thesis by (rule rev_finite_subset)
qed

interpretation plain_list: thread_registry "registry al l locked X"
  "insert_element_to_linked_list_no_mutex al l" "remove_element_from_linked_list_no_mutex l"
  "set_thread_status_no_mutex l" for al l locked X
proof unfold_locales
  fix s ds and d :: thread_data and tid st
  assume r: "registry al l locked X s ds"
  then obtain as where a: "malloc_fresh al" "malloc_total al" "list_repr l s locked as ds" "other_nodes s as = X" "finite (dom X)"
    by (auto simp: registry_def)
  then have "finite (dom (nodes s))" using finite_nodes by blast
  then obtain x where "al (mallocs s) (nodes s) = Some x" using a(2) by (auto simp: malloc_total_def)
  then show "\<exists>s'. insert_element_to_linked_list_no_mutex al l d s = Some s' \<and> registry al l locked X s' (d # ds)"
    using insert_no_mutex_ok [OF a(1,3), of x d] a by (auto simp: registry_def keeps_def)
  show "\<exists>s'. remove_element_from_linked_list_no_mutex l tid s = Some s' \<and>
      registry al l locked X s' (drop_first (\<lambda>d. thread_id d = tid) ds)"
    using remove_no_mutex_ok [OF a(3), of tid] a by (auto simp: registry_def keeps_def)
  show "\<exists>s'. set_thread_status_no_mutex l tid st s = Some s' \<and> registry al l locked X s' (set_status tid st ds)"
    using set_status_no_mutex_ok [OF a(3), of tid st] a by (auto simp: registry_def keeps_def)
qed

interpretation locked_list: thread_registry "registry al l False X"
  "insert_element_to_linked_list al l" "remove_element_from_linked_list l" "set_thread_status l" for al l X
proof unfold_locales
  fix s ds and d :: thread_data and tid st
  assume r: "registry al l False X s ds"
  then obtain as where a: "malloc_fresh al" "malloc_total al" "list_repr l s False as ds" "other_nodes s as = X" "finite (dom X)"
    by (auto simp: registry_def)
  then have "finite (dom (nodes s))" using finite_nodes by blast
  then obtain x where "al (mallocs s) (nodes s) = Some x" using a(2) by (auto simp: malloc_total_def)
  then show "\<exists>s'. insert_element_to_linked_list al l d s = Some s' \<and> registry al l False X s' (d # ds)"
    using insert_ok [OF a(1,3), of x d] a by (auto simp: registry_def keeps_def)
  show "\<exists>s'. remove_element_from_linked_list l tid s = Some s' \<and>
      registry al l False X s' (drop_first (\<lambda>d. thread_id d = tid) ds)"
    using remove_ok [OF a(3), of tid] a by (auto simp: registry_def keeps_def)
  show "\<exists>s'. set_thread_status l tid st s = Some s' \<and> registry al l False X s' (set_status tid st ds)"
    using set_status_ok [OF a(3), of tid st] a by (auto simp: registry_def keeps_def)
qed

end
