(* ===== verification/List_Properties.thy ===== *)
theory List_Properties
  imports Linked_List
begin

text \<open>
  The properties of the thread list, each over both variants of an operation, applied at a concrete
  list by its witness.
\<close>

subsection \<open>A concrete list\<close>

text \<open>Two threads on the list at address 5, and a node at address 9 that is not on it.\<close>

definition demo_td :: "pthread_t \<Rightarrow> thread_data" where
  "demo_td t = \<lparr>file_descriptor = 4, their_addr = \<lparr>sin_family = 2, sin_port = 9000, sin_addr = 2130706433\<rparr>, thread_id = t, completion = False\<rparr>"

definition demo_malloc :: node_allocator where
  "demo_malloc c h = first_free h"

definition demo_list :: lstate where
  "demo_list = \<lparr>nodes = [1 \<mapsto> \<lparr>nxt = Ptr 2, data = demo_td 11\<rparr>, 2 \<mapsto> \<lparr>nxt = NULL, data = demo_td 12\<rparr>,
                      9 \<mapsto> \<lparr>nxt = NULL, data = demo_td 13\<rparr>],
      lls = [5 \<mapsto> \<lparr>head = Ptr 1, mutex = False\<rparr>], mallocs = 0, stdout = []\<rparr>"

lemma demo_malloc_ok: "malloc_fresh demo_malloc" "malloc_total demo_malloc"
  by (simp_all add: malloc_fresh_def malloc_total_def demo_malloc_def first_free_ok)

lemma demo_list_repr: "list_repr 5 demo_list False [1, 2] [demo_td 11, demo_td 12]"
  by (simp add: list_repr_def demo_list_def)

lemma demo_list_finite: "finite (dom (nodes demo_list))"
  by (simp add: demo_list_def)

lemma demo_list_registry:
  "registry demo_malloc 5 False (other_nodes demo_list [1, 2]) demo_list [demo_td 11, demo_td 12]"
  using demo_malloc_ok demo_list_repr demo_list_finite
  by (auto simp: registry_def other_nodes_def intro: rev_finite_subset [OF demo_list_finite])

subsection \<open>The operations\<close>

text \<open>C14: insertion, with and without the mutex: the new entry becomes the head, the other entries, the
  nodes off the list and the output are as before, and the mutex is free again.\<close>

theorem list_insert_correct:
  assumes "malloc_fresh al" and "list_repr l s False as ds" and "al (mallocs s) (nodes s) = Some a"
  shows "(\<exists>s'. insert_element_to_linked_list al l d s = Some s' \<and>
      list_repr l s' False (a # as) (d # ds) \<and> keeps s as s' (a # as)) \<and>
    (\<exists>s'. insert_element_to_linked_list_no_mutex al l d s = Some s' \<and>
      list_repr l s' False (a # as) (d # ds) \<and> keeps s as s' (a # as))"
  using insert_ok [OF assms] insert_no_mutex_ok [OF assms] by blast

lemma list_insert_correct_witness:
  "\<exists>a s'. insert_element_to_linked_list demo_malloc 5 (demo_td 20) demo_list = Some s' \<and>
     list_repr 5 s' False [a, 1, 2] [demo_td 20, demo_td 11, demo_td 12]"
proof -
  obtain a where "demo_malloc (mallocs demo_list) (nodes demo_list) = Some a"
    using demo_malloc_ok(2) demo_list_finite by (auto simp: malloc_total_def)
  then show ?thesis
    using list_insert_correct [OF demo_malloc_ok(1) demo_list_repr, of a "demo_td 20"] by blast
qed

text \<open>C15: removal, with and without the mutex: the first entry of the thread disappears from the list,
  whether it is the head, inside or the last, and its node is released; without such an entry nothing
  changes. The nodes off the list stay, none is leaked or released twice.\<close>

theorem list_remove_correct:
  assumes "list_repr l s False as ds"
  shows "(\<exists>s' as'. remove_element_from_linked_list l tid s = Some s' \<and>
      list_repr l s' False as' (drop_first (\<lambda>d. thread_id d = tid) ds) \<and> keeps s as s' as' \<and> set as' \<subseteq> set as) \<and>
    (\<exists>s' as'. remove_element_from_linked_list_no_mutex l tid s = Some s' \<and>
      list_repr l s' False as' (drop_first (\<lambda>d. thread_id d = tid) ds) \<and> keeps s as s' as' \<and> set as' \<subseteq> set as)"
  using remove_ok [OF assms] remove_no_mutex_ok [OF assms] by blast

lemma list_remove_correct_witness:
  "\<exists>s' as'. remove_element_from_linked_list 5 12 demo_list = Some s' \<and> list_repr 5 s' False as' [demo_td 11]"
proof -
  have "drop_first (\<lambda>d. thread_id d = 12) [demo_td 11, demo_td 12] = [demo_td 11]"
    by (simp add: demo_td_def)
  then show ?thesis using list_remove_correct [OF demo_list_repr, of 12] by auto
qed

text \<open>Setting the completion of a thread changes that member of its first entry and nothing
  else.\<close>

lemma list_status_correct:
  assumes "list_repr l s False as ds"
  shows "(\<exists>s'. set_thread_status l tid st s = Some s' \<and> list_repr l s' False as (set_status tid st ds) \<and> keeps s as s' as) \<and>
    (\<exists>s'. set_thread_status_no_mutex l tid st s = Some s' \<and> list_repr l s' False as (set_status tid st ds) \<and> keeps s as s' as)"
  using set_status_ok [OF assms] set_status_no_mutex_ok [OF assms] by blast

lemma list_status_correct_witness:
  "\<exists>s'. set_thread_status 5 12 True demo_list = Some s' \<and>
     list_repr 5 s' False [1, 2] [demo_td 11, (demo_td 12)\<lparr>completion := True\<rparr>]"
proof -
  have "set_status 12 True [demo_td 11, demo_td 12] = [demo_td 11, (demo_td 12)\<lparr>completion := True\<rparr>]"
    by (simp add: demo_td_def)
  then show ?thesis using list_status_correct [OF demo_list_repr, of 12 True] by auto
qed

text \<open>C16: the three searches, by thread with and without the mutex and by file descriptor: the result
  is null, with nothing allocated, if no entry matches, and otherwise a fresh node off the list that
  holds a copy of the first match. The list is unchanged and the mutex is free.\<close>

theorem list_search_correct:
  assumes "malloc_fresh al" and "malloc_total al" and "finite (dom (nodes s))" and "list_repr l s False as ds"
  shows "(\<exists>p s'. get_thread_data al l tid s = Some (p, s') \<and> found_copy l s as (\<lambda>d. thread_id d = tid) ds False p s') \<and>
    (\<exists>p s'. get_thread_data_no_mutex al l tid s = Some (p, s') \<and> found_copy l s as (\<lambda>d. thread_id d = tid) ds False p s') \<and>
    (\<exists>p s'. get_thread_data_by_fd al l fd s = Some (p, s') \<and> found_copy l s as (\<lambda>d. file_descriptor d = fd) ds False p s')"
  unfolding get_thread_data_def get_thread_data_by_fd_def
  using get_locked_ok [OF assms] get_no_mutex_ok [OF assms] by blast

lemma list_search_correct_witness:
  "\<exists>a s'. get_thread_data demo_malloc 5 12 demo_list = Some (Ptr a, s') \<and>
     nodes s' a = Some \<lparr>nxt = NULL, data = demo_td 12\<rparr>"
proof -
  have "List.find (\<lambda>d. thread_id d = 12) [demo_td 11, demo_td 12] = Some (demo_td 12)"
    by (simp add: demo_td_def)
  then show ?thesis
    using list_search_correct [OF demo_malloc_ok demo_list_finite demo_list_repr, of 12 4]
    by (auto simp: found_copy_def)
qed

text \<open>C17: releasing the list releases each of its nodes once and the list object, and nothing else;
  printing it writes one line for each entry, in order, and leaves the mutex free.\<close>

theorem list_free_and_print:
  assumes "list_repr l s False as ds"
  shows "free_linked_list l s = Some (s\<lparr>nodes := other_nodes s as, lls := (lls s)(l := None)\<rparr>) \<and>
    print_linked_list_thread_id l s = Some (s\<lparr>stdout := stdout s @
      map (\<lambda>d. ThreadLine (thread_id d) (file_descriptor d)) ds\<rparr>)"
  using free_list_ok [OF assms] print_list_ok [OF assms] by blast

lemma list_free_and_print_witness:
  "map_option stdout (print_linked_list_thread_id 5 demo_list) = Some [ThreadLine 11 4, ThreadLine 12 4]"
  using list_free_and_print [OF demo_list_repr] by (simp add: demo_list_def demo_td_def)

text \<open>C18: every thread that is registered when it ends is found by the joiner: after any threads with
  different identifiers were inserted and marked completed, removing their identifiers in any order
  leaves the list empty and the nodes of others, \<open>X\<close>, untouched; with the mutex and without.\<close>

theorem registered_threads_all_removed:
  assumes "distinct (map thread_id es)" and "set ts = thread_id ` set es"
  shows "(registry al l False X s [] \<longrightarrow> (\<exists>s'.
      do { s \<leftarrow> register_all (insert_element_to_linked_list al l) (set_thread_status l) es s;
           remove_all (remove_element_from_linked_list l) ts s } = Some s' \<and> registry al l False X s' [])) \<and>
    (registry al l locked X s [] \<longrightarrow> (\<exists>s'.
      do { s \<leftarrow> register_all (insert_element_to_linked_list_no_mutex al l) (set_thread_status_no_mutex l) es s;
           remove_all (remove_element_from_linked_list_no_mutex l) ts s } = Some s' \<and> registry al l locked X s' []))"
  using locked_list.all_joined [OF _ assms] plain_list.all_joined [OF _ assms] by blast

lemma registered_threads_all_removed_witness:
  "\<exists>s'. do { s \<leftarrow> register_all (insert_element_to_linked_list demo_malloc 5) (set_thread_status 5)
               [demo_td 21, demo_td 22] \<lparr>nodes = Map.empty, lls = [5 \<mapsto> \<lparr>head = NULL, mutex = False\<rparr>], mallocs = 0, stdout = []\<rparr>;
             remove_all (remove_element_from_linked_list 5) [21, 22] s } = Some s' \<and>
     registry demo_malloc 5 False Map.empty s' []"
proof -
  let ?s = "\<lparr>nodes = Map.empty, lls = [5 \<mapsto> \<lparr>head = NULL, mutex = False\<rparr>], mallocs = 0, stdout = []\<rparr>"
  have "list_repr 5 ?s False [] []" by (simp add: list_repr_def)
  then have "registry demo_malloc 5 False Map.empty ?s []"
    using demo_malloc_ok by (auto simp: registry_def other_nodes_def intro!: exI [of _ "[]"])
  then show ?thesis
    using registered_threads_all_removed [of "[demo_td 21, demo_td 22]" "[21, 22]" demo_malloc 5 Map.empty ?s]
    by (simp add: demo_td_def)
qed

text \<open>Memory that runs out is not noticed: when \<open>malloc\<close> fails, both insertions store through the
  null pointer, in every state.\<close>

lemma list_insert_unchecked_malloc:
  assumes "al (mallocs s) (nodes s) = None"
  shows "insert_element_to_linked_list al l d s = None \<and> insert_element_to_linked_list_no_mutex al l d s = None"
  using insert_null [where al = al and s = s and l = l and d = d] assms by blast

lemma list_insert_unchecked_malloc_witness:
  "insert_element_to_linked_list (\<lambda>_ _. None) 5 (demo_td 20) demo_list = None"
  using list_insert_unchecked_malloc [of "\<lambda>_ _. None"] by blast

end
