(* ===== verification/Socket_Core.thy ===== *)
theory Socket_Core
  imports Device_File Linked_List Seek_Request
begin

text \<open>
  The socket server, \<open>server/socket_core.c\<close>: the handler of one connection, with its receive loop, its
  growing buffers and its two ways to answer, the thread that joins finished handlers, and the set-up
  of the listening thread. The device file is the parameter \<open>e_dev\<close>; with the driver behind it, it is
  \<open>chardev K\<close>.

  \<open>None\<close> is again undefined behaviour, here mostly of string functions on buffers that are too small or
  not terminated. The allocators and the results of \<open>send\<close> are parameters; log and error messages are
  left out, apart from those that name a peer.
\<close>

subsection \<open>State\<close>

record full_data =
  fd_list :: nat              \<comment> \<open>the member \<open>linkedlist\<close>\<close>
  fd_data :: thread_data      \<comment> \<open>the member \<open>thread_data\<close>\<close>

record 'd server = cmem +
  to_write :: ptr
  reply_mutex :: bool
  file_mutex :: bool
  thread_join_mutex :: bool
  device_of :: 'd                          \<comment> \<open>the open file \<open>temp_file_fd\<close>\<close>
  threads :: lstate
  linked_list :: nat
  fulldatas :: "nat \<rightharpoonup> full_data"
  sent :: "int \<Rightarrow> byte list"                \<comment> \<open>what each connection has received\<close>
  closed_fds :: "int list"
  ip4 :: "byte list"                       \<comment> \<open>the text of the last peer\<close>
  peer_log :: "byte list list"             \<comment> \<open>the log messages that name a peer\<close>
  join_signals :: nat                      \<comment> \<open>signals of \<open>cv_join\<close>\<close>

record 'd env =
  e_alloc :: allocator
  e_node :: node_allocator
  e_send :: "nat \<Rightarrow> nat \<Rightarrow> int"             \<comment> \<open>the result of a call, by its number and the length\<close>
  e_dev :: "'d device"

abbreviation BUFFER_SIZE :: nat where "BUFFER_SIZE \<equiv> 1024"

subsection \<open>The C library\<close>

text \<open>\<open>strlen\<close> reads up to the terminator: an uninitialised byte before it, or none in the block, is
  undefined.\<close>

fun str_len :: "cells \<Rightarrow> nat option" where
  "str_len [] = None"
| "str_len (None # cs) = None"
| "str_len (Some b # cs) = (if b = 0 then Some 0 else map_option Suc (str_len cs))"

definition c_strlen :: "heap \<Rightarrow> ptr \<Rightarrow> nat option" where
  "c_strlen h p = (case p of NULL \<Rightarrow> None | Ptr a \<Rightarrow> (case h a of None \<Rightarrow> None | Some cs \<Rightarrow> str_len cs))"

definition c_strcat :: "ptr \<Rightarrow> ptr \<Rightarrow> 'a cmem_scheme \<Rightarrow> 'a cmem_scheme option" where
  "c_strcat dst src s =
     do { n \<leftarrow> c_strlen (heap s) dst;
          m \<leftarrow> c_strlen (heap s) src;
          c_memcpy dst n src 0 (Suc m) s }"

definition c_memset0 :: "ptr \<Rightarrow> nat \<Rightarrow> 'a cmem_scheme \<Rightarrow> 'a cmem_scheme option" where
  "c_memset0 p n s = do { h \<leftarrow> store_cells (heap s) p 0 (replicate n (Some 0)); Some (s\<lparr>heap := h\<rparr>) }"

text \<open>\<open>realloc\<close> keeps the old bytes that fit; the new block may be the old one. If it fails, the old
  block stays allocated and null is returned.\<close>

definition c_realloc :: "allocator \<Rightarrow> ptr \<Rightarrow> size_t \<Rightarrow> 'a cmem_scheme \<Rightarrow> (ptr \<times> 'a cmem_scheme) option" where
  "c_realloc al p n s =
     (case p of
        NULL \<Rightarrow> Some (c_alloc al n s)
      | Ptr a \<Rightarrow> do {
          old \<leftarrow> heap s a;
          let h = (heap s)(a := None);
          case al (calls s) h (unat n) of
            None \<Rightarrow> Some (NULL, s\<lparr>calls := Suc (calls s)\<rparr>)
          | Some b \<Rightarrow> Some (Ptr b, s\<lparr>heap := h(b \<mapsto> take (unat n) old @ replicate (unat n - length old) None),
                                  calls := Suc (calls s)\<rparr>) })"

definition c_send :: "'d env \<Rightarrow> int \<Rightarrow> byte list \<Rightarrow> 'd server \<Rightarrow> int \<times> 'd server" where
  "c_send E fd bs s =
     (let r = e_send E (calls s) (length bs)
      in (r, s\<lparr>sent := (sent s)(fd := sent s fd @ take (nat r) bs), calls := Suc (calls s)\<rparr>))"

definition c_close :: "int \<Rightarrow> 'd server \<Rightarrow> 'd server" where
  "c_close fd s = s\<lparr>closed_fds := closed_fds s @ [fd]\<rparr>"

text \<open>The mutexes of the server. A thread that finds one taken waits; in the code of a single thread,
  taking one twice is a deadlock.\<close>

definition lock_reply :: "'d server \<Rightarrow> 'd server option" where
  "lock_reply s = (if reply_mutex s then None else Some (s\<lparr>reply_mutex := True\<rparr>))"

definition unlock_reply :: "'d server \<Rightarrow> 'd server option" where
  "unlock_reply s = (if reply_mutex s then Some (s\<lparr>reply_mutex := False\<rparr>) else None)"

definition lock_file :: "'d server \<Rightarrow> 'd server option" where
  "lock_file s = (if file_mutex s then None else Some (s\<lparr>file_mutex := True\<rparr>))"

definition unlock_file :: "'d server \<Rightarrow> 'd server option" where
  "unlock_file s = (if file_mutex s then Some (s\<lparr>file_mutex := False\<rparr>) else None)"

definition on_threads :: "(lstate \<Rightarrow> lstate option) \<Rightarrow> 'd server \<Rightarrow> 'd server option" where
  "on_threads f s = do { t \<leftarrow> f (threads s); Some (s\<lparr>threads := t\<rparr>) }"

definition signal_join :: "'d server \<Rightarrow> 'd server option" where
  "signal_join s =
     (if thread_join_mutex s then None else Some (s\<lparr>join_signals := Suc (join_signals s)\<rparr>))"

declare lock_reply_def [c_defs] unlock_reply_def [c_defs] lock_file_def [c_defs] unlock_file_def [c_defs]

subsection \<open>The connection handler\<close>

text \<open>The receive loop. \<open>chunks\<close> are the results of the calls of \<open>read\<close>; the list ends, or has an empty
  chunk, where \<open>read\<close> returns 0 or fails. The loop ends with a request in the buffer or with the
  message in the local buffer.\<close>

datatype received = Seek "byte list" ptr | Message size_t ptr

fun receive_loop ::
  "'d env \<Rightarrow> byte list list \<Rightarrow> byte list \<Rightarrow> size_t \<Rightarrow> size_t \<Rightarrow> ptr \<Rightarrow> 'd server \<Rightarrow>
   (received \<times> 'd server) option" where
  "receive_loop E [] buffer bsz current_count to_write_local s = Some (Message bsz to_write_local, s)"
| "receive_loop E (c # cs) buffer bsz current_count to_write_local s =
     (if c = [] then Some (Message bsz to_write_local, s)
      else
        let buffer = c @ drop (length c) buffer; read_ret = of_nat (length c) :: size_t in
        if is_seek_request buffer then Some (Seek buffer to_write_local, s)
        else do {
          (bsz, to_write_local, s) \<leftarrow>
            (if bsz \<le> current_count + read_ret
             then do { (p, s) \<leftarrow> c_realloc (e_alloc E) to_write_local (bsz * 2) s; Some (bsz * 2, p, s) }
             else Some (bsz, to_write_local, s));
          h \<leftarrow> store_cells (heap s) to_write_local (unat current_count) (map Some (take (length c) buffer));
          let s = s\<lparr>heap := h\<rparr>;
          if length c < BUFFER_SIZE then Some (Message bsz to_write_local, s)
          else receive_loop E cs buffer bsz (current_count + read_ret) to_write_local s })"

text \<open>The seek request: the result of \<open>sscanf\<close> is only logged, so the numbers that it could not read
  stay 0.\<close>

partial_function (option) send_rest :: "'d env \<Rightarrow> int \<Rightarrow> 'd server \<Rightarrow> 'd server option" where
  "send_rest E fd s =
     do { (n, out, d) \<leftarrow> d_read (e_dev E) BUFFER_SIZE (device_of s);
          let s = s\<lparr>device_of := d\<rparr>;
          if 0 < n then send_rest E fd (snd (c_send E fd (take (nat n) out) s)) else Some s }"

declare send_rest.simps [code]

definition answer_seek :: "'d env \<Rightarrow> int \<Rightarrow> byte list \<Rightarrow> 'd server \<Rightarrow> 'd server option" where
  "answer_seek E fd buffer s =
     do { (nitems, cmd, offset) \<leftarrow> sscanf_seekto (c_string buffer);
          s \<leftarrow> lock_file s;
          (ioctl_error, d) \<leftarrow>
            d_seekto (e_dev E) \<lparr>write_cmd = word_of_int cmd, write_cmd_offset = word_of_int offset\<rparr> (device_of s);
          let s = s\<lparr>device_of := d\<rparr>;
          s \<leftarrow> (if ioctl_error < 0 then Some s else send_rest E fd s);
          unlock_file s }"

text \<open>The common end: the entry of the thread goes into the list with its completion set, the joining
  thread is woken, and the argument block is released.\<close>

definition report_end :: "'d env \<Rightarrow> nat \<Rightarrow> pthread_t \<Rightarrow> 'd server \<Rightarrow> 'd server option" where
  "report_end E p self s =
     do { f \<leftarrow> fulldatas s p;
          s \<leftarrow> on_threads (pthread_mutex_lock (fd_list f)) s;
          s \<leftarrow> on_threads (insert_element_to_linked_list_no_mutex (e_node E) (fd_list f) (fd_data f)) s;
          s \<leftarrow> on_threads (set_thread_status_no_mutex (fd_list f) self True) s;
          s \<leftarrow> on_threads (pthread_mutex_unlock (fd_list f)) s;
          s \<leftarrow> signal_join s;
          Some (s\<lparr>fulldatas := (fulldatas s)(p := None)\<rparr>) }"

text \<open>The reply to a message: it is appended to the string \<open>to_write\<close>, which is sent back; then the
  string is written to the device.\<close>

definition append_and_send :: "'d env \<Rightarrow> int \<Rightarrow> size_t \<Rightarrow> ptr \<Rightarrow> 'd server \<Rightarrow> 'd server option" where
  "append_and_send E fd bsz to_write_local s =
     do { s \<leftarrow> lock_reply s;
          old_size \<leftarrow> c_strlen (heap s) (to_write s);
          s \<leftarrow> (if of_nat old_size < bsz
                then do { (p, s) \<leftarrow> c_realloc (e_alloc E) (to_write s) (bsz + of_nat old_size + 500) s;
                          Some (s\<lparr>to_write := p\<rparr>) }
                else Some s);
          s \<leftarrow> c_strcat (to_write s) to_write_local s;
          s \<leftarrow> c_free to_write_local s;
          n \<leftarrow> c_strlen (heap s) (to_write s);
          bs \<leftarrow> load_bytes (heap s) (to_write s) 0 n;
          unlock_reply (snd (c_send E fd bs s)) }"

definition write_file :: "'d env \<Rightarrow> 'd server \<Rightarrow> 'd server option" where
  "write_file E s =
     do { s \<leftarrow> lock_file s;
          n \<leftarrow> c_strlen (heap s) (to_write s);
          bs \<leftarrow> load_bytes (heap s) (to_write s) 0 n;
          (_, d) \<leftarrow> d_write (e_dev E) bs (device_of s);
          unlock_file (s\<lparr>device_of := d\<rparr>) }"

text \<open>The peer is logged with the text that \<open>inet_ntop\<close> makes of its socket address.\<close>

definition log_accept :: "int \<Rightarrow> sockaddr_in \<Rightarrow> 'd server \<Rightarrow> 'd server" where
  "log_accept fd addr s =
     (if fd < 0 then s
      else let s = s\<lparr>ip4 := inet_ntop4 (sockaddr_bytes addr)\<rparr>
           in s\<lparr>peer_log := peer_log s @ [ascii ''Accepted connection from '' @ ip4 s]\<rparr>)"

definition connection_handler ::
  "'d env \<Rightarrow> nat \<Rightarrow> pthread_t \<Rightarrow> byte list list \<Rightarrow> 'd server \<Rightarrow> 'd server option" where
  "connection_handler E p self chunks s =
     do { let (to_write_local, s) = c_alloc (e_alloc E) (of_nat BUFFER_SIZE) s;
          s \<leftarrow> c_memset0 to_write_local BUFFER_SIZE s;
          f \<leftarrow> fulldatas s p;
          let f = f\<lparr>fd_data := (fd_data f)\<lparr>thread_id := self\<rparr>\<rparr>;
          let s = s\<lparr>fulldatas := (fulldatas s)(p \<mapsto> f)\<rparr>;
          let fd = file_descriptor (fd_data f);
          let s = log_accept fd (their_addr (fd_data f)) s;
          (got, s) \<leftarrow> receive_loop E chunks (replicate BUFFER_SIZE 0) (of_nat BUFFER_SIZE) 0 to_write_local s;
          case got of
            Seek buffer to_write_local \<Rightarrow> do {
              s \<leftarrow> answer_seek E fd buffer s;
              let s = c_close fd s;
              s \<leftarrow> c_free to_write_local s;
              report_end E p self s }
          | Message bsz to_write_local \<Rightarrow> do {
              s \<leftarrow> append_and_send E fd bsz to_write_local s;
              let s = c_close fd s;
              s \<leftarrow> write_file E s;
              report_end E p self s } }"

subsection \<open>The joining thread\<close>

text \<open>One round of \<open>joining_thread_handler\<close> after its wait: the head of the list is taken off, its thread
  is joined, the first entry of the same identifier in the rest is removed, and the node is released.
  The head is read through the global pointer, the list is changed through the argument.\<close>

definition join_round :: "nat \<Rightarrow> nat \<Rightarrow> lstate \<Rightarrow> lstate option" where
  "join_round global l s =
     do { G \<leftarrow> lls s global;
          let old_head = head G;
          L \<leftarrow> lls s l;
          h \<leftarrow> get_node (head L) s;
          let new_head = nxt h;
          s \<leftarrow> set_head l new_head s;
          n \<leftarrow> get_node old_head s;
          s \<leftarrow> remove_element_from_linked_list_no_mutex l (thread_id (data n)) s;
          free_node old_head s }"

subsection \<open>The listening thread\<close>

text \<open>The set-up of \<open>socket_listen\<close> after the socket is bound: the empty reply string, the empty list,
  the device file. \<open>la\<close> is the address of the list object; both allocations are used without a test.\<close>

definition listen_setup :: "'d env \<Rightarrow> nat option \<Rightarrow> 'd \<Rightarrow> 'd server \<Rightarrow> 'd server option" where
  "listen_setup E la d s =
     do { let (p, s) = c_alloc (e_alloc E) (of_nat BUFFER_SIZE) s;
          let s = s\<lparr>to_write := p\<rparr>;
          s \<leftarrow> c_memset0 (to_write s) BUFFER_SIZE s;
          l \<leftarrow> la;
          let s = s\<lparr>linked_list := l, threads := (threads s)\<lparr>lls := (lls (threads s))(l \<mapsto> \<lparr>head = NULL, mutex = False\<rparr>)\<rparr>\<rparr>;
          s \<leftarrow> on_threads (init_linked_list l) s;
          Some (s\<lparr>device_of := d\<rparr>) }"

text \<open>An accepted connection: the argument block of its thread is allocated, again without a test, and
  the thread is created. The result is the address that the thread gets.\<close>

definition accept_connection :: "nat option \<Rightarrow> int \<Rightarrow> sockaddr_in \<Rightarrow> pthread_t \<Rightarrow> 'd server \<Rightarrow> (nat \<times> 'd server) option" where
  "accept_connection pa new_fd addr tid s =
     do { p \<leftarrow> pa;
          let d = \<lparr>file_descriptor = new_fd, their_addr = addr, thread_id = tid, completion = False\<rparr>;
          Some (p, s\<lparr>fulldatas := (fulldatas s)(p \<mapsto> \<lparr>fd_list = linked_list s, fd_data = d\<rparr>)\<rparr>) }"

end
