(* ===== verification/Socket_Correct.thy ===== *)
theory Socket_Correct
  imports Socket_Core
begin

text \<open>
  What the connection handler does: strings in blocks, the reply to a short message, the answer to a
  seek request, the report to the list of threads; and where its buffers are too small.
\<close>

subsection \<open>Strings in blocks\<close>

lemma str_len_string [simp]: "0 \<notin> set bs \<Longrightarrow> str_len (map Some bs @ Some 0 # junk) = Some (length bs)"
  by (induction bs) auto

lemma str_len_unterminated: "0 \<notin> set bs \<Longrightarrow> str_len (map Some bs @ None # junk) = None"
  by (induction bs) auto

text \<open>A block with the string \<open>bs\<close> and room for \<open>cap\<close> bytes in all.\<close>

definition string_block :: "cells \<Rightarrow> byte list \<Rightarrow> nat \<Rightarrow> bool" where
  "string_block cs bs cap \<longleftrightarrow> 0 \<notin> set bs \<and> length cs = cap \<and> (\<exists>junk. cs = map Some bs @ Some 0 # junk)"

lemma string_blockE:
  assumes "string_block cs bs cap"
  obtains junk where "cs = map Some bs @ Some 0 # junk" "0 \<notin> set bs" "cap = length bs + 1 + length junk"
  using assms by (auto simp: string_block_def)

lemma c_strlen_block: "heap s a = Some cs \<Longrightarrow> string_block cs bs cap \<Longrightarrow> c_strlen (heap s) (Ptr a) = Some (length bs)"
  by (auto simp: c_strlen_def string_block_def)

lemma load_string:
  "heap s a = Some cs \<Longrightarrow> string_block cs bs cap \<Longrightarrow> load_bytes (heap s) (Ptr a) 0 (length bs) = Some bs"
  by (auto simp: load_bytes_def load_cells_def string_block_def)

text \<open>\<open>strcat\<close> needs room for the string and its terminator; without it the copy leaves the block.\<close>

lemma strcat_ok:
  assumes "heap s d = Some cd" "string_block cd xs cap" and "heap s e = Some ce" "string_block ce ys cap'"
    and "length xs + length ys < cap"
  shows "\<exists>c. c_strcat (Ptr d) (Ptr e) s = Some (s\<lparr>heap := (heap s)(d \<mapsto> c)\<rparr>) \<and> string_block c (xs @ ys) cap"
proof -
  obtain j where j: "cd = map Some xs @ Some 0 # j" "0 \<notin> set xs" "cap = length xs + 1 + length j"
    using assms(2) by (rule string_blockE)
  obtain k where k: "ce = map Some ys @ Some 0 # k" "0 \<notin> set ys"
    using assms(4) by (rule string_blockE)
  let ?c = "map Some (xs @ ys) @ Some 0 # drop (length ys) j"
  have "c_memcpy (Ptr d) (length xs) (Ptr e) 0 (Suc (length ys)) s = Some (s\<lparr>heap := (heap s)(d \<mapsto>
      take (length xs) cd @ take (Suc (length ys)) ce @ drop (length xs + Suc (length ys)) cd)\<rparr>)"
    using assms(1,3,5) j k c_memcpy_Ptr [of s d cd e ce "length xs" "Suc (length ys)" 0] by simp
  also have "take (length xs) cd @ take (Suc (length ys)) ce @ drop (length xs + Suc (length ys)) cd = ?c"
    using j k by (simp add: take_Suc_conv_app_nth)
  finally have "c_strcat (Ptr d) (Ptr e) s = Some (s\<lparr>heap := (heap s)(d \<mapsto> ?c)\<rparr>)"
    using assms(1-4) by (simp add: c_strcat_def c_strlen_block del: fun_upd_apply)
  moreover have "string_block ?c (xs @ ys) cap"
    using j k assms(5) by (simp add: string_block_def)
  ultimately show ?thesis by blast
qed

lemma strcat_overflow:
  assumes "heap s d = Some cd" "string_block cd xs cap" and "heap s e = Some ce" "string_block ce ys cap'"
    and "cap \<le> length xs + length ys"
  shows "c_strcat (Ptr d) (Ptr e) s = None"
proof -
  have "length cd = cap" "length ce = cap'" using assms(2,4) by (simp_all add: string_block_def)
  moreover have "length ys < cap'" using assms(4) by (auto simp: string_block_def)
  ultimately show ?thesis
    using assms by (simp add: c_strcat_def c_strlen_block c_memcpy_def load_cells_def store_cells_def bind_eq_None_conv)
qed

lemma strcat_bad_source: "c_strlen (heap s) q = None \<Longrightarrow> c_strcat p q s = None"
  by (simp add: c_strcat_def bind_eq_None_conv)

text \<open>Growing a block keeps the string. An address can be the new one only if the allocator ever gives it.\<close>

definition allocator_gives :: "allocator \<Rightarrow> nat \<Rightarrow> bool" where
  "allocator_gives al b \<longleftrightarrow> (\<exists>c h n. al c h n = Some b)"

lemma realloc_string:
  assumes al: "allocator_ok lim al" "allocator_serves k al" and fin: "finite (dom (heap s))"
    and a: "heap s a = Some cs" "string_block cs bs cap" and n: "unat n \<le> k" "length bs < unat n"
  shows "\<exists>b c. c_realloc al (Ptr a) n s =
      Some (Ptr b, s\<lparr>heap := (heap s)(a := None, b \<mapsto> c), calls := Suc (calls s)\<rparr>) \<and>
    string_block c bs (unat n) \<and> (b = a \<or> heap s b = None) \<and> allocator_gives al b"
proof -
  let ?h = "(heap s)(a := None)"
  have "finite (dom ?h)" using fin by simp
  then obtain b where b: "al (calls s) ?h (unat n) = Some b"
    using al(2) n(1) unfolding allocator_serves_def by (metis option.exhaust)
  let ?c = "take (unat n) cs @ replicate (unat n - length cs) None"
  obtain j where j: "cs = map Some bs @ Some 0 # j" "0 \<notin> set bs" using a(2) by (rule string_blockE)
  then obtain m where m: "unat n = length bs + Suc m" using n(2) by (metis add_Suc_right less_imp_Suc_add)
  have "?c = map Some bs @ Some 0 # (take m j @ replicate (unat n - length cs) None)"
    using j m by simp
  moreover have "length ?c = unat n" by simp
  ultimately have "string_block ?c bs (unat n)"
    using j(2) unfolding string_block_def by blast
  moreover have "c_realloc al (Ptr a) n s = Some (Ptr b, s\<lparr>heap := ?h(b \<mapsto> ?c), calls := Suc (calls s)\<rparr>)"
    using a(1) b by (simp add: c_realloc_def Let_def)
  moreover have "b = a \<or> heap s b = None"
    using allocator_okD(1) [OF al(1) b] by (auto split: if_splits)
  moreover have "allocator_gives al b" using b by (auto simp: allocator_gives_def)
  ultimately show ?thesis by blast
qed

subsection \<open>The state between two connections\<close>

definition string_at :: "'a cmem_scheme \<Rightarrow> ptr \<Rightarrow> byte list \<Rightarrow> nat \<Rightarrow> bool" where
  "string_at s p bs cap \<longleftrightarrow> (\<exists>a cs. p = Ptr a \<and> heap s a = Some cs \<and> string_block cs bs cap)"

text \<open>No mutex is taken, and \<open>hist\<close> is the reply string, in a block of \<open>cap\<close> bytes.\<close>

definition ready :: "'d server \<Rightarrow> byte list \<Rightarrow> nat \<Rightarrow> bool" where
  "ready s hist cap \<longleftrightarrow> string_at s (to_write s) hist cap \<and> cap < 2 ^ 63 \<and> finite (dom (heap s)) \<and>
     \<not> reply_mutex s \<and> \<not> file_mutex s \<and> \<not> thread_join_mutex s"

text \<open>The memory apart from the reply string.\<close>

definition others :: "'d server \<Rightarrow> heap" where
  "others s = heap s |` (- (case to_write s of NULL \<Rightarrow> {} | Ptr a \<Rightarrow> {a}))"

subsection \<open>The receive loop\<close>

text \<open>What the handler takes from the reads, if the first one is shorter than the buffer and no seek
  request: the bytes before the first zero byte. A connection that ends at once gives nothing.\<close>

definition one_read :: "byte list list \<Rightarrow> bool" where
  "one_read chunks \<longleftrightarrow>
     (case chunks of [] \<Rightarrow> True | c # _ \<Rightarrow> length c < BUFFER_SIZE \<and> \<not> strstr (c_string c) AESD_IOCTL_STR)"

definition text_of :: "byte list list \<Rightarrow> byte list" where
  "text_of chunks = (case chunks of [] \<Rightarrow> [] | c # _ \<Rightarrow> c_string c)"

lemma text_of_short: "one_read chunks \<Longrightarrow> length (text_of chunks) < 1024"
  by (auto simp: one_read_def text_of_def c_string_def intro: le_less_trans [OF length_takeWhile_le] split: list.splits)

lemma c_string_terminated: "c_string (c @ 0 # junk) = c_string c"
  by (induction c) (auto simp: c_string_def)

lemma string_block_c_string:
  assumes "length c < n" and "map Some c @ replicate (n - length c) (Some 0) = cs"
  shows "string_block cs (c_string c) n"
proof -
  obtain k where k: "n - length c = Suc k" using assms(1) by (cases "n - length c") simp_all
  have z: "0 \<notin> set (c_string c)" by (auto simp: c_string_def dest: set_takeWhileD)
  have "\<exists>junk. map Some c @ Some 0 # js = map Some (c_string c) @ Some 0 # junk" for js
  proof (cases "dropWhile (\<lambda>b. b \<noteq> 0) c")
    case Nil
    then have "c_string c = c" using takeWhile_dropWhile_id [of "\<lambda>b. b \<noteq> 0" c] by (simp add: c_string_def)
    then show ?thesis by auto
  next
    case (Cons z zs)
    then have "z = 0" using hd_dropWhile [of "\<lambda>b. b \<noteq> 0" c] by simp
    then have "c = c_string c @ 0 # zs" using takeWhile_dropWhile_id [of "\<lambda>b. b \<noteq> 0" c] Cons by (simp add: c_string_def)
    then have "map Some c = map Some (c_string c @ 0 # zs)" by (rule arg_cong)
    also have "\<dots> = map Some (c_string c) @ Some 0 # map Some zs" by simp
    finally have "map Some c = map Some (c_string c) @ Some 0 # map Some zs" .
    then show ?thesis by simp
  qed
  then obtain junk where "cs = map Some (c_string c) @ Some 0 # junk" using assms(2) k by auto
  moreover have "length cs = n" using assms by auto
  ultimately show ?thesis using z by (simp add: string_block_def)
qed

lemma receive_one:
  assumes one: "one_read chunks" and a: "heap s a = Some (replicate 1024 (Some 0))"
  shows "\<exists>cs. receive_loop E chunks (replicate 1024 0) 1024 0 (Ptr a) s =
      Some (Message 1024 (Ptr a), s\<lparr>heap := (heap s)(a \<mapsto> cs)\<rparr>) \<and> string_block cs (text_of chunks) 1024"
proof -
  have empty: "s\<lparr>heap := (heap s)(a \<mapsto> replicate 1024 (Some 0))\<rparr> = s" using a by (simp add: fun_upd_idem)
  have blank: "string_block (replicate 1024 (Some 0)) [] 1024"
    using string_block_c_string [of "[]" 1024] by (simp add: c_string_def)
  consider "chunks = []" | rest where "chunks = [] # rest" | m rest where "chunks = m # rest" "m \<noteq> []"
    by (cases chunks) auto
  then show ?thesis
  proof cases
    case 1
    then show ?thesis using empty blank by (intro exI [of _ "replicate 1024 (Some 0)"]) (simp add: text_of_def del: fun_upd_apply)
  next
    case 2
    then show ?thesis
      using empty blank by (intro exI [of _ "replicate 1024 (Some 0)"]) (simp add: text_of_def c_string_def del: fun_upd_apply)
  next
    case 3
    have m: "length m < 1024" "\<not> strstr (c_string m) AESD_IOCTL_STR" using one 3(1) by (simp_all add: one_read_def)
    let ?cs = "map Some m @ replicate (1024 - length m) (Some 0)"
    obtain k where k: "1024 - length m = Suc k" using m(1) by (cases "1024 - length m") simp_all
    have buf: "m @ drop (length m) (replicate 1024 0) = m @ 0 # replicate k 0"
      "map Some m @ drop (length m) (replicate 1024 (Some 0)) = ?cs"
      unfolding drop_replicate k by simp_all
    have "\<not> is_seek_request (m @ 0 # replicate k 0)" using m(2) by (simp add: is_seek_request_def c_string_terminated)
    moreover have "unat (of_nat (length m) :: size_t) = length m" using m(1) by (intro unat_of_nat_size_t) simp
    then have "\<not> (1024 :: size_t) \<le> of_nat (length m)" using m(1) by (simp add: word_le_nat_alt)
    moreover have "store_cells (heap s) (Ptr a) 0 (map Some m) = Some ((heap s)(a \<mapsto> ?cs))"
      using a m(1) buf(2) by (simp add: store_cells_def)
    ultimately have "receive_loop E (m # rest) (replicate 1024 0) 1024 0 (Ptr a) s =
        Some (Message 1024 (Ptr a), s\<lparr>heap := (heap s)(a \<mapsto> ?cs)\<rparr>)"
      using 3(2) m(1) unfolding receive_loop.simps(2) buf by (simp add: Let_def del: fun_upd_apply)
    then show ?thesis using string_block_c_string [OF m(1) refl] 3(1) by (auto simp: text_of_def)
  qed
qed

lemma receive_short:
  assumes m: "m \<noteq> []" "length m < 1024" "0 \<notin> set m" "\<not> strstr m AESD_IOCTL_STR"
    and a: "heap s a = Some (replicate 1024 (Some 0))"
  shows "\<exists>cs. receive_loop E (m # rest) (replicate 1024 0) 1024 0 (Ptr a) s =
      Some (Message 1024 (Ptr a), s\<lparr>heap := (heap s)(a \<mapsto> cs)\<rparr>) \<and> string_block cs m 1024"
proof -
  have "c_string m = m" using m(3) by (metis (mono_tags) c_string_def takeWhile_eq_all_conv)
  then show ?thesis using receive_one [of "m # rest" s a E] m(2,4) a by (simp add: one_read_def text_of_def)
qed

subsection \<open>The reply\<close>

text \<open>The string with its new room; the local block at \<open>a\<close> is released, and everything else in memory
  stays.\<close>

definition new_cap :: "byte list \<Rightarrow> nat \<Rightarrow> nat" where
  "new_cap hist cap = (if length hist < 1024 then 1524 + length hist else cap)"

definition unlocked :: "'d server \<Rightarrow> bool" where
  "unlocked s \<longleftrightarrow> \<not> reply_mutex s \<and> \<not> file_mutex s \<and> \<not> thread_join_mutex s"

lemma others_Ptr: "to_write s = Ptr b \<Longrightarrow> others s = heap s |` (- {b})"
  by (simp add: others_def)

text \<open>Room for the appended string is made if the old string is shorter than the local buffer.\<close>

lemma grow_reply:
  assumes al: "allocator_ok lim (e_alloc E)" "allocator_serves 4096 (e_alloc E)" and fin: "finite (dom (heap s))"
    and hist: "to_write s = Ptr b" "heap s b = Some cb" "string_block cb hist cap" "cap < 2 ^ 63"
    and a: "heap s a = Some ca" "a \<noteq> b"
  shows "\<exists>b' cb' c. (if of_nat (length hist) < (1024 :: size_t)
        then do { (p, s) \<leftarrow> c_realloc (e_alloc E) (to_write s) (1024 + of_nat (length hist) + 500) s;
                  Some (s\<lparr>to_write := p\<rparr>) }
        else Some s) =
      Some (s\<lparr>heap := (heap s)(b := None, b' \<mapsto> cb'), calls := c, to_write := Ptr b'\<rparr>) \<and>
    string_block cb' hist (new_cap hist cap) \<and> b' \<noteq> a \<and> (b' = b \<or> heap s b' = None) \<and>
    (length hist < 1024 \<longrightarrow> allocator_gives (e_alloc E) b')"
proof (cases "length hist < 1024")
  case True
  have small: "of_nat (length hist) < (1024 :: size_t)"
    using True by (simp add: word_less_nat_alt unat_of_nat_size_t)
  have n: "unat (1024 + of_nat (length hist) + 500 :: size_t) = 1524 + length hist"
    using True by (simp add: unat_word_ariths unat_of_nat_size_t)
  obtain b' c where "c_realloc (e_alloc E) (Ptr b) (1024 + of_nat (length hist) + 500) s =
      Some (Ptr b', s\<lparr>heap := (heap s)(b := None, b' \<mapsto> c), calls := Suc (calls s)\<rparr>)"
    "string_block c hist (1524 + length hist)" "b' = b \<or> heap s b' = None" "allocator_gives (e_alloc E) b'"
    using realloc_string [OF al fin hist(2,3), of "1024 + of_nat (length hist) + 500"] True n by auto
  then show ?thesis
    using small hist(1) True a
    by (intro exI [of _ b'] exI [of _ c] exI [of _ "Suc (calls s)"])
      (auto simp: new_cap_def simp del: fun_upd_apply)
next
  case False
  have "length hist < cap" using hist(3) by (auto simp: string_block_def)
  then have "unat (of_nat (length hist) :: size_t) = length hist"
    using hist(4) by (intro unat_of_nat_size_t) simp
  then have "\<not> of_nat (length hist) < (1024 :: size_t)"
    using False by (simp add: word_less_nat_alt)
  then show ?thesis
    using False hist a
    by (intro exI [of _ b] exI [of _ cb] exI [of _ "calls s"]) (simp add: new_cap_def fun_upd_idem)
qed

lemma append_and_send_ok:
  assumes al: "allocator_ok lim (e_alloc E)" "allocator_serves 4096 (e_alloc E)"
    and r: "ready s hist cap" and a: "heap s a = Some ca" "string_block ca m 1024" "to_write s \<noteq> Ptr a"
    and room: "length hist + length m < new_cap hist cap"
  shows "\<exists>b h c k. append_and_send E fd 1024 (Ptr a) s =
      Some (s\<lparr>heap := h, calls := c, to_write := Ptr b,
        sent := (sent s)(fd := sent s fd @ take (nat (e_send E k (length (hist @ m)))) (hist @ m))\<rparr>) \<and>
    ready (s\<lparr>heap := h, to_write := Ptr b\<rparr>) (hist @ m) (new_cap hist cap) \<and>
    h |` (- {b}) = others s |` (- {a}) \<and> (length hist < 1024 \<longrightarrow> allocator_gives (e_alloc E) b)"
proof -
  obtain b cb where b: "to_write s = Ptr b" "heap s b = Some cb" "string_block cb hist cap"
    and cap: "cap < 2 ^ 63" and fin: "finite (dom (heap s))" and un: "unlocked s"
    using r by (auto simp: ready_def string_at_def unlocked_def)
  let ?s0 = "s\<lparr>reply_mutex := True\<rparr>"
  obtain b' cb' c where g: "(if of_nat (length hist) < (1024 :: size_t)
        then do { (p, s) \<leftarrow> c_realloc (e_alloc E) (to_write ?s0) (1024 + of_nat (length hist) + 500) ?s0;
                  Some (s\<lparr>to_write := p\<rparr>) }
        else Some ?s0) =
      Some (?s0\<lparr>heap := (heap s)(b := None, b' \<mapsto> cb'), calls := c, to_write := Ptr b'\<rparr>)"
    "string_block cb' hist (new_cap hist cap)" "b' \<noteq> a" "b' = b \<or> heap s b' = None"
    "length hist < 1024 \<longrightarrow> allocator_gives (e_alloc E) b'"
    using grow_reply [OF al, of ?s0 b cb hist cap a ca] b cap fin a by auto
  let ?s1 = "?s0\<lparr>heap := (heap s)(b := None, b' \<mapsto> cb'), calls := c, to_write := Ptr b'\<rparr>"
  have ab: "a \<noteq> b" using a(3) b(1) by auto
  obtain cc where cat: "c_strcat (Ptr b') (Ptr a) ?s1 = Some (?s1\<lparr>heap := (heap ?s1)(b' \<mapsto> cc)\<rparr>)"
      "string_block cc (hist @ m) (new_cap hist cap)"
    using strcat_ok [of ?s1 b' cb' hist "new_cap hist cap" a ca m 1024] g a ab room by auto
  let ?h = "(heap s)(b := None, b' \<mapsto> cc, a := None)"
  let ?s2 = "?s1\<lparr>heap := ?h\<rparr>"
  have free: "c_free (Ptr a) (?s1\<lparr>heap := (heap ?s1)(b' \<mapsto> cc)\<rparr>) = Some ?s2"
    using a(1) ab g(3) by (simp add: c_free_def)
  have h: "heap ?s2 b' = Some cc" using g(3) by simp
  have len: "c_strlen ?h (Ptr b') = Some (length (hist @ m))" "load_bytes ?h (Ptr b') 0 (length (hist @ m)) = Some (hist @ m)"
    using c_strlen_block [OF h cat(2)] load_string [OF h cat(2)] by simp_all
  have len0: "c_strlen (heap s) (Ptr b) = Some (length hist)" by (rule c_strlen_block [OF b(2,3)])
  let ?snt = "(sent s)(fd := sent s fd @ take (nat (e_send E c (length (hist @ m)))) (hist @ m))"
  have run: "append_and_send E fd 1024 (Ptr a) s =
      Some (s\<lparr>heap := ?h, calls := Suc c, to_write := Ptr b', sent := ?snt\<rparr>)"
    using un len0 b(1) g(1) cat(1) free len
    by (simp add: append_and_send_def lock_reply_def unlock_reply_def unlocked_def c_send_def Let_def
        del: fun_upd_apply length_append) 
  have "new_cap hist cap < 2 ^ 63" using cap by (simp add: new_cap_def)
  then have "ready (s\<lparr>heap := ?h, to_write := Ptr b'\<rparr>) (hist @ m) (new_cap hist cap)"
    using h cat(2) fin un by (auto simp: ready_def string_at_def unlocked_def)
  moreover have "?h |` (- {b'}) = others s |` (- {a})"
    using b(1) g(4) by (intro ext) (auto simp: others_def restrict_map_def)
  ultimately show ?thesis using run g(5) by blast
qed


text \<open>The whole string goes to the device.\<close>

lemma write_file_ok:
  assumes r: "ready s hist cap" and w: "d_write (e_dev E) hist (device_of s) = Some (x, d)"
  shows "write_file E s = Some (s\<lparr>device_of := d\<rparr>)"
proof -
  obtain b cb where b: "to_write s = Ptr b" "heap s b = Some cb" "string_block cb hist cap" "\<not> file_mutex s"
    using r by (auto simp: ready_def string_at_def)
  then show ?thesis
    using w c_strlen_block [OF b(2,3)] load_string [OF b(2,3)]
    by (simp add: write_file_def lock_file_def unlock_file_def)
qed

subsection \<open>The report at the end\<close>

lemma registry_lock:
  assumes "registry al l False X t ds"
  shows "\<exists>u. pthread_mutex_lock l t = Some u \<and> registry al l True X u ds"
  using assms lock_ok [of l t] unfolding registry_def other_nodes_def by metis

lemma registry_unlock:
  assumes "registry al l True X t ds"
  shows "\<exists>u. pthread_mutex_unlock l t = Some u \<and> registry al l False X u ds"
  using assms unlock_ok [of l t] unfolding registry_def other_nodes_def by metis

lemma report_end_ok:
  assumes reg: "registry (e_node E) (fd_list f) False X (threads s) ds" and f: "fulldatas s p = Some f"
    and jm: "\<not> thread_join_mutex s" and self: "thread_id (fd_data f) = self"
  shows "\<exists>t. report_end E p self s = Some (s\<lparr>threads := t, join_signals := Suc (join_signals s),
      fulldatas := (fulldatas s)(p := None)\<rparr>) \<and>
    registry (e_node E) (fd_list f) False X t ((fd_data f)\<lparr>completion := True\<rparr> # ds)"
proof -
  obtain t1 where t1: "pthread_mutex_lock (fd_list f) (threads s) = Some t1"
      "registry (e_node E) (fd_list f) True X t1 ds"
    using registry_lock [OF reg] by blast
  obtain t3 where "do { s \<leftarrow> insert_element_to_linked_list_no_mutex (e_node E) (fd_list f) (fd_data f) t1;
        set_thread_status_no_mutex (fd_list f) (thread_id (fd_data f)) True s } = Some t3"
      and t3: "registry (e_node E) (fd_list f) True X t3 ((fd_data f)\<lparr>completion := True\<rparr> # ds)"
    using plain_list.register_ok [OF t1(2), of "fd_data f"] by blast
  then obtain t2 where t2: "insert_element_to_linked_list_no_mutex (e_node E) (fd_list f) (fd_data f) t1 = Some t2"
      "set_thread_status_no_mutex (fd_list f) self True t2 = Some t3"
    using self by (auto simp: bind_eq_Some_conv)
  obtain t4 where "pthread_mutex_unlock (fd_list f) t3 = Some t4"
      "registry (e_node E) (fd_list f) False X t4 ((fd_data f)\<lparr>completion := True\<rparr> # ds)"
    using registry_unlock [OF t3] by blast
  then show ?thesis
    using f jm t1(1) t2 by (intro exI [of _ t4]) (simp add: report_end_def on_threads_def signal_join_def)
qed

subsection \<open>The peer\<close>

abbreviation peer_logged :: "full_data \<Rightarrow> 'd server \<Rightarrow> 'd server" where
  "peer_logged f s \<equiv> log_accept (file_descriptor (fd_data f)) (their_addr (fd_data f)) s"

lemma log_accept_sel [simp]:
  "heap (log_accept fd a s) = heap s" "calls (log_accept fd a s) = calls s" "to_write (log_accept fd a s) = to_write s"
  "reply_mutex (log_accept fd a s) = reply_mutex s" "file_mutex (log_accept fd a s) = file_mutex s"
  "thread_join_mutex (log_accept fd a s) = thread_join_mutex s" "device_of (log_accept fd a s) = device_of s"
  "threads (log_accept fd a s) = threads s" "linked_list (log_accept fd a s) = linked_list s"
  "fulldatas (log_accept fd a s) = fulldatas s" "sent (log_accept fd a s) = sent s"
  "closed_fds (log_accept fd a s) = closed_fds s" "join_signals (log_accept fd a s) = join_signals s"
  by (simp_all add: log_accept_def Let_def)

lemma log_accept_update [simp]:
  "log_accept fd a (s\<lparr>heap := h\<rparr>) = (log_accept fd a s)\<lparr>heap := h\<rparr>"
  "log_accept fd a (s\<lparr>calls := c\<rparr>) = (log_accept fd a s)\<lparr>calls := c\<rparr>"
  "log_accept fd a (s\<lparr>fulldatas := F\<rparr>) = (log_accept fd a s)\<lparr>fulldatas := F\<rparr>"
  by (simp_all add: log_accept_def Let_def)

lemma ready_log_accept [simp]: "ready (log_accept fd a s) hist cap = ready s hist cap"
  by (simp add: ready_def string_at_def)

lemma others_log_accept [simp]: "others (log_accept fd a s) = others s"
  by (simp add: others_def)

subsection \<open>The handler, for a short message\<close>

text \<open>A message that arrives in one read: shorter than the buffer, without a terminator, and not a seek
  request.\<close>

definition short_message :: "byte list \<Rightarrow> bool" where
  "short_message m \<longleftrightarrow> m \<noteq> [] \<and> length m < BUFFER_SIZE \<and> 0 \<notin> set m \<and> \<not> strstr m AESD_IOCTL_STR"

lemma string_at_frame: "string_at s p bs cap \<Longrightarrow> heap s a = None \<Longrightarrow> heap t = (heap s)(a \<mapsto> c) \<Longrightarrow> string_at t p bs cap"
  by (auto simp: string_at_def)

text \<open>The first steps: the local buffer.\<close>

lemma local_buffer:
  assumes al: "allocator_ok lim (e_alloc E)" "allocator_serves 4096 (e_alloc E)" and fin: "finite (dom (heap s))"
  shows "\<exists>a t. c_alloc (e_alloc E) 1024 s = (Ptr a, t) \<and> heap s a = None \<and>
    c_memset0 (Ptr a) 1024 t = Some (s\<lparr>heap := (heap s)(a \<mapsto> replicate 1024 (Some 0)), calls := Suc (calls s)\<rparr>)"
proof -
  have "e_alloc E (calls s) (heap s) 1024 \<noteq> None" using al(2) fin by (simp add: allocator_serves_def)
  then obtain a where a: "e_alloc E (calls s) (heap s) 1024 = Some a" by auto
  then have "heap s a = None" using allocator_okD [OF al(1)] by blast
  then show ?thesis
    using a by (simp add: c_alloc_def c_memset0_def store_cells_def)
qed

text \<open>The handler, for any first read that is shorter than the buffer and no seek request.\<close>

lemma text_handled:
  assumes al: "allocator_ok lim (e_alloc E)" "allocator_serves 4096 (e_alloc E)"
    and r: "ready s hist cap" and one: "one_read chunks" and m: "text_of chunks = m"
    and room: "length hist + length m < new_cap hist cap"
    and f: "fulldatas s p = Some f" and reg: "registry (e_node E) (fd_list f) False X (threads s) ds"
    and w: "d_write (e_dev E) (hist @ m) (device_of s) = Some (x, d)"
  shows "\<exists>b h c k t. connection_handler E p self chunks s =
      Some ((peer_logged f s)\<lparr>heap := h, calls := c, to_write := Ptr b, device_of := d, threads := t,
        sent := (sent s)(file_descriptor (fd_data f) := sent s (file_descriptor (fd_data f)) @
          take (nat (e_send E k (length (hist @ m)))) (hist @ m)),
        closed_fds := closed_fds s @ [file_descriptor (fd_data f)],
        join_signals := Suc (join_signals s), fulldatas := (fulldatas s)(p := None)\<rparr>) \<and>
    ready (s\<lparr>heap := h, to_write := Ptr b\<rparr>) (hist @ m) (new_cap hist cap) \<and>
    h |` (- {b}) = others s \<and>
    registry (e_node E) (fd_list f) False X t ((fd_data f)\<lparr>thread_id := self, completion := True\<rparr> # ds)"
proof -
  let ?fd = "file_descriptor (fd_data f)" and ?f = "f\<lparr>fd_data := (fd_data f)\<lparr>thread_id := self\<rparr>\<rparr>"
  have fin: "finite (dom (heap s))" using r by (simp add: ready_def)
  obtain a t0 where a: "c_alloc (e_alloc E) 1024 s = (Ptr a, t0)" "heap s a = None"
      "c_memset0 (Ptr a) 1024 t0 = Some (s\<lparr>heap := (heap s)(a \<mapsto> replicate 1024 (Some 0)), calls := Suc (calls s)\<rparr>)"
    using local_buffer [OF al fin] by blast
  let ?s1 = "(peer_logged f s)\<lparr>heap := (heap s)(a \<mapsto> replicate 1024 (Some 0)), calls := Suc (calls s),
      fulldatas := (fulldatas s)(p \<mapsto> ?f)\<rparr>"
  obtain ca where rc: "receive_loop E chunks (replicate 1024 0) 1024 0 (Ptr a) ?s1 =
      Some (Message 1024 (Ptr a), ?s1\<lparr>heap := (heap ?s1)(a \<mapsto> ca)\<rparr>)" "string_block ca m 1024"
    using receive_one [OF one, of ?s1 a E] m by auto
  let ?s2 = "?s1\<lparr>heap := (heap s)(a \<mapsto> ca)\<rparr>"
  have s2: "?s1\<lparr>heap := (heap ?s1)(a \<mapsto> ca)\<rparr> = ?s2" by simp
  have r2: "ready ?s2 hist cap" "to_write ?s2 \<noteq> Ptr a" "others ?s2 |` (- {a}) = others s"
    using r a(2) by (auto simp: ready_def string_at_def others_def restrict_map_def fun_eq_iff split: ptr.split)
  obtain b h c k where as: "append_and_send E ?fd 1024 (Ptr a) ?s2 =
      Some (?s2\<lparr>heap := h, calls := c, to_write := Ptr b,
        sent := (sent s)(?fd := sent s ?fd @ take (nat (e_send E k (length (hist @ m)))) (hist @ m))\<rparr>)"
    "ready (?s2\<lparr>heap := h, to_write := Ptr b\<rparr>) (hist @ m) (new_cap hist cap)" "h |` (- {b}) = others ?s2 |` (- {a})"
    using append_and_send_ok [OF al r2(1) _ rc(2) r2(2) room, of ?fd] by auto
  let ?s3 = "?s2\<lparr>heap := h, calls := c, to_write := Ptr b,
        sent := (sent s)(?fd := sent s ?fd @ take (nat (e_send E k (length (hist @ m)))) (hist @ m)),
        closed_fds := closed_fds s @ [?fd]\<rparr>"
  have r3: "ready ?s3 (hist @ m) (new_cap hist cap)" "ready (s\<lparr>heap := h, to_write := Ptr b\<rparr>) (hist @ m) (new_cap hist cap)"
    using as(2) by (simp_all add: ready_def string_at_def)
  have wf: "write_file E ?s3 = Some (?s3\<lparr>device_of := d\<rparr>)"
    using write_file_ok [OF r3(1)] w by simp
  obtain t where re: "report_end E p self (?s3\<lparr>device_of := d\<rparr>) =
      Some (?s3\<lparr>device_of := d, threads := t, join_signals := Suc (join_signals s), fulldatas := (fulldatas s)(p := None)\<rparr>)"
    "registry (e_node E) (fd_list f) False X t ((fd_data f)\<lparr>thread_id := self, completion := True\<rparr> # ds)"
    using report_end_ok [of E ?f X "?s3\<lparr>device_of := d\<rparr>" ds p self] reg r by (auto simp: ready_def)
  have "connection_handler E p self chunks s =
      Some (?s3\<lparr>device_of := d, threads := t, join_signals := Suc (join_signals s), fulldatas := (fulldatas s)(p := None)\<rparr>)"
    using a(1,3) f rc(1) as(1) wf re(1)
    by (simp add: connection_handler_def c_close_def Let_def s2 del: receive_loop.simps fun_upd_apply)
  then show ?thesis
    using r3(2) as(3) r2(3) re(2)
    by (intro exI [of _ b] exI [of _ h] exI [of _ c] exI [of _ k] exI [of _ t]) (simp del: fun_upd_apply)
qed

lemma message_handled:
  assumes al: "allocator_ok lim (e_alloc E)" "allocator_serves 4096 (e_alloc E)"
    and r: "ready s hist cap" and m: "short_message m" and room: "length hist + length m < new_cap hist cap"
    and f: "fulldatas s p = Some f" and reg: "registry (e_node E) (fd_list f) False X (threads s) ds"
    and w: "d_write (e_dev E) (hist @ m) (device_of s) = Some (x, d)"
  shows "\<exists>b h c k t. connection_handler E p self (m # rest) s =
      Some ((peer_logged f s)\<lparr>heap := h, calls := c, to_write := Ptr b, device_of := d, threads := t,
        sent := (sent s)(file_descriptor (fd_data f) := sent s (file_descriptor (fd_data f)) @
          take (nat (e_send E k (length (hist @ m)))) (hist @ m)),
        closed_fds := closed_fds s @ [file_descriptor (fd_data f)],
        join_signals := Suc (join_signals s), fulldatas := (fulldatas s)(p := None)\<rparr>) \<and>
    ready (s\<lparr>heap := h, to_write := Ptr b\<rparr>) (hist @ m) (new_cap hist cap) \<and>
    h |` (- {b}) = others s \<and>
    registry (e_node E) (fd_list f) False X t ((fd_data f)\<lparr>thread_id := self, completion := True\<rparr> # ds)"
proof -
  have "c_string m = m" using m by (metis (mono_tags) c_string_def short_message_def takeWhile_eq_all_conv)
  then have "one_read (m # rest)" "text_of (m # rest) = m" using m by (simp_all add: one_read_def text_of_def short_message_def)
  then show ?thesis using text_handled [OF al r _ _ room f reg w] by blast
qed

subsection \<open>The handler, for a seek request\<close>

text \<open>A complete \<open>send\<close>.\<close>

definition sends_all :: "'d env \<Rightarrow> bool" where
  "sends_all E \<longleftrightarrow> (\<forall>c n. e_send E c n = int n)"

text \<open>The loop of the handler sends what the reply loop collects.\<close>

definition sends_rest :: "'d env \<Rightarrow> int \<Rightarrow> byte list \<Rightarrow> 'd \<Rightarrow> 'd server \<Rightarrow> bool" where
  "sends_rest E fd rest d s \<longleftrightarrow>
     (\<exists>c snt. send_rest E fd s = Some (s\<lparr>device_of := d, sent := snt, calls := c\<rparr>) \<and>
        (sends_all E \<longrightarrow> snt = (sent s)(fd := sent s fd @ rest)))"

definition collects :: "'d env \<Rightarrow> int \<Rightarrow> 'd device \<Rightarrow> nat \<Rightarrow> 'd \<Rightarrow> byte list \<Rightarrow> int \<times> byte list \<times> 'd \<Rightarrow> bool" where
  "collects E fd D b d acc y \<longleftrightarrow> (D = e_dev E \<and> b = 1024 \<longrightarrow>
     (\<exists>rest. fst (snd y) = acc @ rest \<and> (\<forall>s. device_of s = d \<longrightarrow> sends_rest E fd rest (snd (snd y)) s)))"

lemma collects_step:
  assumes IH: "\<And>D b d acc y. loop D b d acc = Some y \<Longrightarrow> collects E fd D b d acc y"
    and body: "do { (n, out, d) \<leftarrow> d_read D b d;
      if 0 < n then loop D b d (acc @ take (nat n) out) else Some (n, acc, d) } = Some y"
  shows "collects E fd D b d acc y"
proof (cases "D = e_dev E \<and> b = 1024")
  case False
  then show ?thesis unfolding collects_def by blast
next
  case eq: True
  obtain n out d1 where r: "d_read D b d = Some (n, out, d1)"
    using body by (auto simp: bind_eq_Some_conv)
  show ?thesis
  proof (cases "0 < n")
    case True
    let ?o = "take (nat n) out"
    have "loop D b d1 (acc @ ?o) = Some y" using body r True by simp
    then obtain rest where rest: "fst (snd y) = (acc @ ?o) @ rest"
        "\<forall>s. device_of s = d1 \<longrightarrow> sends_rest E fd rest (snd (snd y)) s"
      using IH eq unfolding collects_def by blast
    have "sends_rest E fd (?o @ rest) (snd (snd y)) s" if s: "device_of s = d" for s
    proof -
      let ?t = "snd (c_send E fd ?o (s\<lparr>device_of := d1\<rparr>))"
      have min_take: "take (min (length out) (nat n)) out = ?o" by (simp add: min_def)
      have step: "send_rest E fd s = send_rest E fd ?t"
        using r True s eq by (simp add: send_rest.simps [of E fd s] Let_def)
      have "sends_rest E fd rest (snd (snd y)) ?t"
        using rest(2) by (simp add: c_send_def Let_def)
      then obtain c snt where u: "send_rest E fd ?t = Some (?t\<lparr>device_of := snd (snd y), sent := snt, calls := c\<rparr>)"
          "sends_all E \<longrightarrow> snt = (sent ?t)(fd := sent ?t fd @ rest)"
        by (auto simp: sends_rest_def)
      have "?t\<lparr>device_of := snd (snd y), sent := snt, calls := c\<rparr> = s\<lparr>device_of := snd (snd y), sent := snt, calls := c\<rparr>"
        by (simp add: c_send_def Let_def)
      moreover have "sends_all E \<longrightarrow> snt = (sent s)(fd := sent s fd @ ?o @ rest)"
        using u(2) min_take by (simp add: c_send_def Let_def sends_all_def)
      ultimately show ?thesis using step u(1) by (auto simp: sends_rest_def)
    qed
    then show ?thesis using rest(1) unfolding collects_def by (intro impI exI [of _ "?o @ rest"]) simp
  next
    case False
    then have y: "y = (n, acc, d1)" using body r by simp
    have "sends_rest E fd [] d1 s" if s: "device_of s = d" for s
    proof -
      have "s\<lparr>device_of := d1, sent := sent s, calls := calls s\<rparr> = s\<lparr>device_of := d1\<rparr>" by (cases s) simp
      moreover have "send_rest E fd s = Some (s\<lparr>device_of := d1\<rparr>)"
        using s r False eq by (simp add: send_rest.simps [of E fd s])
      ultimately show ?thesis unfolding sends_rest_def by (intro exI [of _ "calls s"] exI [of _ "sent s"]) simp
    qed
    then show ?thesis using y unfolding collects_def by simp
  qed
qed

lemma send_rest_ok:
  assumes "reply_loop (e_dev E) 1024 (device_of s) [] = Some (n, out, d)"
  shows "sends_rest E fd out d s"
proof -
  have "collects E fd (e_dev E) 1024 (device_of s) [] (n, out, d)"
    by (rule reply_loop.raw_induct [of "collects E fd", OF collects_step assms])
  then show ?thesis by (auto simp: collects_def)
qed

text \<open>The receive loop stops at once when the first chunk starts the buffer with a request.\<close>

lemma receive_request:
  assumes "c \<noteq> []" and "is_seek_request (c @ drop (length c) buffer)"
  shows "receive_loop E (c # rest) buffer bsz n p s = Some (Seek (c @ drop (length c) buffer) p, s)"
  using assms by (simp add: Let_def)

lemma restrict_fresh: "h a = None \<Longrightarrow> (h(a \<mapsto> c))(a := None) = h"
  by (rule ext) simp

text \<open>The critical section of a seek request, as one operation of the device.\<close>

lemma answer_seek_ok:
  assumes str: "sscanf_seekto (c_string buffer) = Some (nitems, cmd, off)" and un: "\<not> file_mutex s"
    and op: "d_op (e_dev E) (Dseek \<lparr>write_cmd = word_of_int cmd, write_cmd_offset = word_of_int off\<rparr>) (device_of s) = Some (r, out, d2)"
  shows "\<exists>m snt. answer_seek E fd buffer s = Some (s\<lparr>device_of := d2, sent := snt, calls := m\<rparr>) \<and>
    (sends_all E \<longrightarrow> snt = (sent s)(fd := sent s fd @ out))"
proof -
  obtain x d1 where seek: "d_seekto (e_dev E) \<lparr>write_cmd = word_of_int cmd, write_cmd_offset = word_of_int off\<rparr> (device_of s) = Some (x, d1)"
    and rest: "(if x < 0 then Some (x, [], d1) else reply_loop (e_dev E) 1024 d1 []) = Some (r, out, d2)"
    using op by (auto simp: bind_eq_Some_conv)
  show ?thesis
  proof (cases "x < 0")
    case True
    have "s\<lparr>device_of := d2, sent := sent s, calls := calls s\<rparr> = s\<lparr>device_of := d2\<rparr>" by (cases s) simp
    moreover have "s\<lparr>file_mutex := False, device_of := d2\<rparr> = s\<lparr>device_of := d2\<rparr>" using un by (cases s) simp
    then have "answer_seek E fd buffer s = Some (s\<lparr>device_of := d2\<rparr>)"
      using True str seek rest un by (simp add: answer_seek_def lock_file_def unlock_file_def)
    ultimately show ?thesis
      using True rest by (intro exI [of _ "calls s"] exI [of _ "sent s"]) simp
  next
    case False
    then have "reply_loop (e_dev E) 1024 (device_of (s\<lparr>file_mutex := True, device_of := d1\<rparr>)) [] = Some (r, out, d2)"
      using rest by simp
    then obtain m snt where "send_rest E fd (s\<lparr>file_mutex := True, device_of := d1\<rparr>) =
        Some (s\<lparr>file_mutex := True, device_of := d2, sent := snt, calls := m\<rparr>)"
      "sends_all E \<longrightarrow> snt = (sent s)(fd := sent s fd @ out)"
      using send_rest_ok [of E "s\<lparr>file_mutex := True, device_of := d1\<rparr>" r out d2 fd]
      by (auto simp: sends_rest_def)
    moreover have "s\<lparr>device_of := d2, sent := snt, calls := m\<rparr> =
        s\<lparr>file_mutex := False, device_of := d2, sent := snt, calls := m\<rparr>"
      using un by (cases s) simp
    ultimately show ?thesis
      using False str seek un
      by (intro exI [of _ m] exI [of _ snt]) (simp add: answer_seek_def lock_file_def unlock_file_def)
  qed
qed

text \<open>A seek command that arrives in one read, and the request that it stands for.\<close>

definition seek_message :: "byte list \<Rightarrow> bool" where
  "seek_message m \<longleftrightarrow> m \<noteq> [] \<and> length m < BUFFER_SIZE \<and> 0 \<notin> set m \<and> strstr m AESD_IOCTL_STR \<and> sscanf_seekto m \<noteq> None"

definition seek_arg :: "byte list \<Rightarrow> aesd_seekto" where
  "seek_arg m = (case sscanf_seekto m of
     None \<Rightarrow> \<lparr>write_cmd = 0, write_cmd_offset = 0\<rparr>
   | Some (nitems, cmd, off) \<Rightarrow> \<lparr>write_cmd = word_of_int cmd, write_cmd_offset = word_of_int off\<rparr>)"

lemma request_buffer:
  assumes "length c < 1024" "0 \<notin> set c"
  shows "c_string (c @ drop (length c) (replicate 1024 0)) = c"
    and "strstr c AESD_IOCTL_STR \<Longrightarrow> is_seek_request (c @ drop (length c) (replicate 1024 0))"
proof -
  obtain k where k: "1024 - length c = Suc k" using assms(1) by (cases "1024 - length c") simp_all
  have buf: "c @ drop (length c) (replicate 1024 0) = c @ 0 # replicate k 0" unfolding drop_replicate k by simp
  have "takeWhile (\<lambda>b. b \<noteq> 0) (c @ 0 # xs) = c" for xs using assms(2) by (induction c) auto
  then show str: "c_string (c @ drop (length c) (replicate 1024 0)) = c" unfolding buf c_string_def by simp
  show "strstr c AESD_IOCTL_STR \<Longrightarrow> is_seek_request (c @ drop (length c) (replicate 1024 0))"
    unfolding is_seek_request_def str using assms(1) by simp
qed

lemma request_handled:
  assumes al: "allocator_ok lim (e_alloc E)" "allocator_serves 4096 (e_alloc E)"
    and r: "ready s hist cap" and c: "c \<noteq> []" "length c < 1024" "0 \<notin> set c" "strstr c AESD_IOCTL_STR"
    and scan: "sscanf_seekto c = Some (nitems, cmd, off)"
    and f: "fulldatas s p = Some f" and reg: "registry (e_node E) (fd_list f) False X (threads s) ds"
    and seek: "d_seekto (e_dev E) \<lparr>write_cmd = word_of_int cmd, write_cmd_offset = word_of_int off\<rparr> (device_of s) = Some (x, d1)"
    and reply: "if x < 0 then out = [] \<and> d2 = d1 else \<exists>n. reply_loop (e_dev E) 1024 d1 [] = Some (n, out, d2)"
  shows "\<exists>k snt t. connection_handler E p self (c # rest) s =
      Some ((peer_logged f s)\<lparr>calls := k, device_of := d2, threads := t, sent := snt,
        closed_fds := closed_fds s @ [file_descriptor (fd_data f)],
        join_signals := Suc (join_signals s), fulldatas := (fulldatas s)(p := None)\<rparr>) \<and>
    (sends_all E \<longrightarrow> snt = (sent s)(file_descriptor (fd_data f) := sent s (file_descriptor (fd_data f)) @ out)) \<and>
    registry (e_node E) (fd_list f) False X t ((fd_data f)\<lparr>thread_id := self, completion := True\<rparr> # ds)"
proof -
  let ?fd = "file_descriptor (fd_data f)" and ?f = "f\<lparr>fd_data := (fd_data f)\<lparr>thread_id := self\<rparr>\<rparr>"
  have fin: "finite (dom (heap s))" using r by (simp add: ready_def)
  obtain a t0 where a: "c_alloc (e_alloc E) 1024 s = (Ptr a, t0)" "heap s a = None"
      "c_memset0 (Ptr a) 1024 t0 = Some (s\<lparr>heap := (heap s)(a \<mapsto> replicate 1024 (Some 0)), calls := Suc (calls s)\<rparr>)"
    using local_buffer [OF al fin] by blast
  let ?buf = "c @ drop (length c) (replicate 1024 0)"
  have str: "c_string ?buf = c" and req: "is_seek_request ?buf" using request_buffer [OF c(2,3)] c(4) by blast+
  let ?s1 = "(peer_logged f s)\<lparr>heap := (heap s)(a \<mapsto> replicate 1024 (Some 0)), calls := Suc (calls s),
      fulldatas := (fulldatas s)(p \<mapsto> ?f)\<rparr>"
  have rc: "receive_loop E (c # rest) (replicate 1024 0) 1024 0 (Ptr a) ?s1 = Some (Seek ?buf (Ptr a), ?s1)"
    by (rule receive_request [OF c(1) req])
  obtain r0 where op: "d_op (e_dev E) (Dseek \<lparr>write_cmd = word_of_int cmd, write_cmd_offset = word_of_int off\<rparr>) (device_of ?s1) =
      Some (r0, out, d2)"
    using seek reply by (cases "x < 0") auto
  obtain m snt where an: "answer_seek E ?fd ?buf ?s1 = Some (?s1\<lparr>device_of := d2, sent := snt, calls := m\<rparr>)"
    and snt: "sends_all E \<longrightarrow> snt = (sent s)(?fd := sent s ?fd @ out)"
    using answer_seek_ok [of ?buf nitems cmd off ?s1 E r0 out d2 ?fd] op str scan r by (auto simp: ready_def)
  let ?s2 = "(peer_logged f s)\<lparr>calls := m, fulldatas := (fulldatas s)(p \<mapsto> ?f), device_of := d2, sent := snt,
      closed_fds := closed_fds s @ [?fd]\<rparr>"
  have free: "c_free (Ptr a) (c_close ?fd (?s1\<lparr>device_of := d2, sent := snt, calls := m\<rparr>)) = Some ?s2"
    using a(2) restrict_fresh [of "heap s" a]
    by (cases s) (simp add: c_free_def c_close_def fun_upd_same del: fun_upd_apply)
  obtain t where re: "report_end E p self ?s2 =
      Some (?s2\<lparr>threads := t, join_signals := Suc (join_signals s), fulldatas := (fulldatas s)(p := None)\<rparr>)"
    "registry (e_node E) (fd_list f) False X t ((fd_data f)\<lparr>thread_id := self, completion := True\<rparr> # ds)"
    using report_end_ok [of E ?f X ?s2 ds p self] reg r by (auto simp: ready_def)
  have "connection_handler E p self (c # rest) s =
      Some (?s2\<lparr>threads := t, join_signals := Suc (join_signals s), fulldatas := (fulldatas s)(p := None)\<rparr>)"
    using a(1,3) f rc an free re(1)
    by (simp add: connection_handler_def Let_def del: receive_loop.simps fun_upd_apply)
  then show ?thesis
    using snt re(2)
    by (intro exI [of _ m] exI [of _ snt] exI [of _ t]) (simp del: fun_upd_apply)
qed


subsection \<open>Several connections\<close>

text \<open>Connections that are served one after the other, each with one short message: the address of the
  argument block, the thread, the message.\<close>

fun serve :: "'d env \<Rightarrow> (nat \<times> pthread_t \<times> byte list) list \<Rightarrow> 'd server \<Rightarrow> 'd server option" where
  "serve E [] s = Some s"
| "serve E ((p, self, m) # cs) s = do { s \<leftarrow> connection_handler E p self [m] s; serve E cs s }"

text \<open>What the device is given: the reply string after each message.\<close>

fun prefixes_from :: "byte list \<Rightarrow> byte list list \<Rightarrow> byte list list" where
  "prefixes_from hist [] = []"
| "prefixes_from hist (m # ms) = (hist @ m) # prefixes_from (hist @ m) ms"

fun d_writes :: "'d device \<Rightarrow> byte list list \<Rightarrow> 'd \<Rightarrow> (int list \<times> 'd) option" where
  "d_writes D [] d = Some ([], d)"
| "d_writes D (bs # bss) d = do { (r, d) \<leftarrow> d_write D bs d; (rs, d) \<leftarrow> d_writes D bss d; Some (r # rs, d) }"

text \<open>What the connections receive, each the string of its turn.\<close>

fun deliver :: "(int \<Rightarrow> byte list) \<Rightarrow> int list \<Rightarrow> byte list list \<Rightarrow> int \<Rightarrow> byte list" where
  "deliver snt (fd # fds) (bs # bss) = deliver (snt(fd := snt fd @ bs)) fds bss"
| "deliver snt _ _ = snt"

definition connection_fd :: "(nat \<rightharpoonup> full_data) \<Rightarrow> nat \<times> pthread_t \<times> byte list \<Rightarrow> int" where
  "connection_fd F c = file_descriptor (fd_data (the (F (fst c))))"

definition messages :: "(nat \<times> pthread_t \<times> byte list) list \<Rightarrow> byte list list" where
  "messages cs = map (\<lambda>(p, self, m). m) cs"

text \<open>The list entry that a connection leaves.\<close>

definition done_entry :: "(nat \<rightharpoonup> full_data) \<Rightarrow> nat \<times> pthread_t \<times> byte list \<Rightarrow> thread_data" where
  "done_entry F c = (case c of (p, self, m) \<Rightarrow> (fd_data (the (F p)))\<lparr>thread_id := self, completion := True\<rparr>)"

definition waiting :: "nat \<Rightarrow> (nat \<rightharpoonup> full_data) \<Rightarrow> (nat \<times> pthread_t \<times> byte list) list \<Rightarrow> bool" where
  "waiting l F cs \<longleftrightarrow> distinct (map fst cs) \<and> (\<forall>c \<in> set cs. \<exists>f. F (fst c) = Some f \<and> fd_list f = l)"

lemma serve_ok:
  assumes al: "allocator_ok lim (e_alloc E)" "allocator_serves 4096 (e_alloc E)"
  shows "ready s hist cap \<Longrightarrow> \<forall>m \<in> set (messages cs). short_message m \<Longrightarrow> length hist + length (concat (messages cs)) < 1024 \<Longrightarrow>
    waiting l (fulldatas s) cs \<Longrightarrow> registry (e_node E) l False X (threads s) ds \<Longrightarrow>
    d_writes (e_dev E) (prefixes_from hist (messages cs)) (device_of s) = Some (rs, d) \<Longrightarrow>
    \<exists>s' cap'. serve E cs s = Some s' \<and> ready s' (hist @ concat (messages cs)) cap' \<and> others s' = others s \<and>
      device_of s' = d \<and> fulldatas s' = fulldatas s |` (- fst ` set cs) \<and>
      registry (e_node E) l False X (threads s') (rev (map (done_entry (fulldatas s)) cs) @ ds) \<and>
      join_signals s' = join_signals s + length cs \<and> linked_list s' = linked_list s \<and>
      (sends_all E \<longrightarrow> sent s' = deliver (sent s) (map (connection_fd (fulldatas s)) cs) (prefixes_from hist (messages cs)))"
proof (induction cs arbitrary: s hist cap ds rs)
  case Nil
  then show ?case by (auto simp: messages_def restrict_map_def)
next
  case (Cons c cs)
  obtain p self m where c: "c = (p, self, m)" by (cases c)
  obtain f where f: "fulldatas s p = Some f" "fd_list f = l"
    using Cons.prems(4) c by (auto simp: waiting_def)
  obtain x rs' d1 where w: "d_write (e_dev E) (hist @ m) (device_of s) = Some (x, d1)"
      "d_writes (e_dev E) (prefixes_from (hist @ m) (messages cs)) d1 = Some (rs', d)"
    using Cons.prems(6) c by (auto simp: messages_def bind_eq_Some_conv)
  have m: "short_message m" "length hist + length m < new_cap hist cap"
    using Cons.prems(2,3) c by (auto simp: messages_def new_cap_def)
  let ?e = "(fd_data f)\<lparr>thread_id := self, completion := True\<rparr>"
  obtain b h k n t where run: "connection_handler E p self [m] s =
      Some ((peer_logged f s)\<lparr>heap := h, calls := k, to_write := Ptr b, device_of := d1, threads := t,
        sent := (sent s)(file_descriptor (fd_data f) := sent s (file_descriptor (fd_data f)) @
          take (nat (e_send E n (length (hist @ m)))) (hist @ m)),
        closed_fds := closed_fds s @ [file_descriptor (fd_data f)],
        join_signals := Suc (join_signals s), fulldatas := (fulldatas s)(p := None)\<rparr>)" (is "_ = Some ?s1")
    and r: "ready (s\<lparr>heap := h, to_write := Ptr b\<rparr>) (hist @ m) (new_cap hist cap)" "h |` (- {b}) = others s"
    and reg: "registry (e_node E) l False X t (?e # ds)"
    using message_handled [OF al Cons.prems(1) m f(1) _ w(1), of X ds self "[]"] Cons.prems(5) f(2) by blast
  have s1: "ready ?s1 (hist @ m) (new_cap hist cap)" "others ?s1 = others s"
    using r by (simp_all add: ready_def string_at_def others_def)
  have wt: "waiting l (fulldatas ?s1) cs"
    using Cons.prems(4) c by (auto simp: waiting_def image_iff)
  have es: "map (done_entry (fulldatas ?s1)) cs = map (done_entry (fulldatas s)) cs"
    using Cons.prems(4) c by (auto simp: waiting_def done_entry_def image_iff)
  have fs: "fulldatas ?s1 |` (- fst ` set cs) = fulldatas s |` (- fst ` set (c # cs))"
    using c by (intro ext) (simp add: restrict_map_def)
  have e: "done_entry (fulldatas s) c = ?e" using c f by (simp add: done_entry_def)
  have ms: "length (hist @ m) + length (concat (messages cs)) < 1024" "\<forall>m \<in> set (messages cs). short_message m"
    using Cons.prems(2,3) c by (simp_all add: messages_def)
  have reg1: "registry (e_node E) l False X (threads ?s1) (?e # ds)"
    and w1: "d_writes (e_dev E) (prefixes_from (hist @ m) (messages cs)) (device_of ?s1) = Some (rs', d)"
    using reg w(2) by simp_all
  have fd: "file_descriptor (fd_data f) = connection_fd (fulldatas s) c"
    "map (connection_fd (fulldatas ?s1)) cs = map (connection_fd (fulldatas s)) cs"
    using Cons.prems(4) c f by (auto simp: waiting_def connection_fd_def image_iff)
  have snt: "sends_all E \<longrightarrow> sent ?s1 = (sent s)(connection_fd (fulldatas s) c := sent s (connection_fd (fulldatas s) c) @ hist @ m)"
    unfolding fd(1) [symmetric] by (simp add: sends_all_def del: take_append)
  obtain s' cap' where s': "serve E cs ?s1 = Some s'" "ready s' ((hist @ m) @ concat (messages cs)) cap'"
      "others s' = others ?s1" "device_of s' = d" "fulldatas s' = fulldatas ?s1 |` (- fst ` set cs)"
      "registry (e_node E) l False X (threads s') (rev (map (done_entry (fulldatas ?s1)) cs) @ ?e # ds)"
      "join_signals s' = join_signals ?s1 + length cs" "linked_list s' = linked_list ?s1"
      "sends_all E \<longrightarrow> sent s' = deliver (sent ?s1) (map (connection_fd (fulldatas ?s1)) cs) (prefixes_from (hist @ m) (messages cs))"
    using Cons.IH [OF s1(1) ms(2,1) wt reg1 w1] by blast
  have "serve E (c # cs) s = Some s'" using run s'(1) c by simp
  moreover have "ready s' (hist @ concat (messages (c # cs))) cap'"
    using s'(2) c by (simp add: messages_def)
  moreover have "join_signals s' = join_signals s + length (c # cs)" using s'(7) by simp
  moreover have "registry (e_node E) l False X (threads s') (rev (map (done_entry (fulldatas s)) (c # cs)) @ ds)"
    using s'(6) unfolding es e by (simp add: e)
  moreover have "sends_all E \<longrightarrow> sent s' = deliver (sent s) (map (connection_fd (fulldatas s)) (c # cs)) (prefixes_from hist (messages (c # cs)))"
    using s'(9) snt unfolding fd(2) by (simp add: messages_def c del: fun_upd_apply)
  moreover have "linked_list s' = linked_list s" using s'(8) by simp
  ultimately show ?case using s'(3-5) s1(2) unfolding fs by metis
qed

subsection \<open>Where the buffers are too small\<close>

text \<open>A message that does not fit into the reply string: once the string has the size of the local
  buffer, its block is never enlarged, and \<open>strcat\<close> leaves it.\<close>

lemma append_overflow:
  assumes r: "ready s hist cap" and a: "heap s a = Some ca" "string_block ca m 1024"
    and full: "1024 \<le> length hist" "cap \<le> length hist + length m"
  shows "append_and_send E fd 1024 (Ptr a) s = None"
proof -
  obtain b cb where b: "to_write s = Ptr b" "heap s b = Some cb" "string_block cb hist cap" "cap < 2 ^ 63"
      "\<not> reply_mutex s"
    using r by (auto simp: ready_def string_at_def)
  have "length hist < cap" using b(3) by (auto simp: string_block_def)
  then have "unat (of_nat (length hist) :: size_t) = length hist"
    using b(4) by (intro unat_of_nat_size_t) simp
  then have "\<not> of_nat (length hist) < (1024 :: size_t)" using full(1) by (simp add: word_less_nat_alt)
  moreover have "c_strlen (heap s) (Ptr b) = Some (length hist)" by (rule c_strlen_block [OF b(2,3)])
  moreover have "c_strcat (Ptr b) (Ptr a) (s\<lparr>reply_mutex := True\<rparr>) = None"
    using strcat_overflow [of "s\<lparr>reply_mutex := True\<rparr>" b cb hist cap a ca m 1024] b a full(2) by simp
  ultimately show ?thesis using b(1,5) by (simp add: append_and_send_def lock_reply_def)
qed

text \<open>A message that fills the receive buffer and goes on: the local block is doubled without clearing
  its new half, so after the second chunk no terminator follows the message, and \<open>strcat\<close> reads bytes
  that were never written.\<close>

lemma append_unterminated:
  assumes al: "allocator_ok lim (e_alloc E)" and b: "heap s b = Some cb" "str_len cb = None"
  shows "append_and_send E fd bsz (Ptr b) s = None"
proof -
  have src: "heap t b = Some cb \<Longrightarrow> c_strcat q (Ptr b) t = None" for q and t :: "'a server"
    using b(2) by (intro strcat_bad_source) (simp add: c_strlen_def)
  have own: "\<exists>a cs. to_write s = Ptr a \<and> heap s a = Some cs \<and> a \<noteq> b"
    if "c_strlen (heap s) (to_write s) = Some n" for n
    using that b by (cases "to_write s") (auto simp: c_strlen_def split: option.splits)
  consider "reply_mutex s \<or> c_strlen (heap s) (to_write s) = None"
    | n a cs where "\<not> reply_mutex s" "c_strlen (heap s) (to_write s) = Some n" "to_write s = Ptr a" "heap s a = Some cs" "a \<noteq> b"
    using own by (cases "c_strlen (heap s) (to_write s)") blast+
  then show ?thesis
  proof cases
    case 1
    then show ?thesis by (auto simp: append_and_send_def lock_reply_def)
  next
    case 2
    let ?h = "(heap s)(a := None)" and ?n = "bsz + of_nat n + 500 :: size_t"
    show ?thesis
    proof (cases "e_alloc E (calls s) ?h (unat ?n)")
      case None
      then show ?thesis
        using 2 src b(1)
        by (simp add: append_and_send_def lock_reply_def c_realloc_def Let_def)
    next
      case (Some x)
      then have "?h x = None" using allocator_okD [OF al] by blast
      then have "x \<noteq> b" using b(1) 2(5) by auto
      then show ?thesis
        using 2 src b(1) Some
        by (simp add: append_and_send_def lock_reply_def c_realloc_def Let_def)
    qed
  qed
qed

lemma not_request: "0 \<notin> set buf \<Longrightarrow> \<not> is_seek_request buf"
  by (simp add: is_seek_request_def)

lemma receive_long:
  assumes c1: "length c1 = 1024" "0 \<notin> set c1" and c2: "c2 \<noteq> []" "length c2 < 1024" "0 \<notin> set c2"
    and a: "heap s a = Some (replicate 1024 (Some 0))"
    and run: "receive_loop E (c1 # c2 # rest) (replicate 1024 0) 1024 0 (Ptr a) s = Some (got, t)"
  shows "\<exists>b cb. got = Message 2048 (Ptr b) \<and> heap t b = Some cb \<and> str_len cb = None"
proof -
  have ne: "c1 \<noteq> []" using c1(1) by auto
  have u1: "of_nat (length c1) = (1024 :: size_t)" using c1(1) by simp
  have buf1: "c1 @ drop (length c1) (replicate 1024 0) = c1" using c1(1) by simp
  let ?blk = "replicate 1024 (Some 0) @ replicate 1024 None :: cells"
  let ?al = "e_alloc E (calls s) ((heap s)(a := None)) 2048"
  have two: "unat (2048 :: size_t) = 2048" by simp
  obtain b where al: "?al = Some b"
    using run ne not_request [OF c1(2)] a c1(1)
    by (cases ?al) (simp_all add: u1 buf1 c_realloc_def Let_def store_cells_def)
  let ?s1 = "s\<lparr>calls := Suc (calls s), heap := (heap s)(a := None, b \<mapsto> map Some c1 @ replicate 1024 None)\<rparr>"
  have re: "c_realloc (e_alloc E) (Ptr a) 2048 s =
      Some (Ptr b, s\<lparr>heap := (heap s)(a := None, b \<mapsto> ?blk), calls := Suc (calls s)\<rparr>)"
    using a al by (simp add: c_realloc_def Let_def)
  have st: "store_cells ((heap s)(a := None, b \<mapsto> ?blk)) (Ptr b) 0 (map Some c1) =
      Some ((heap s)(a := None, b \<mapsto> map Some c1 @ replicate 1024 None))"
    using c1(1) by (simp add: store_cells_def)
  have step1: "receive_loop E (c1 # c2 # rest) (replicate 1024 0) 1024 0 (Ptr a) s =
      receive_loop E (c2 # rest) c1 2048 1024 (Ptr b) ?s1"
    using ne not_request [OF c1(2)] re st c1(1)
    by (subst receive_loop.simps) (simp add: buf1 Let_def del: receive_loop.simps fun_upd_apply)
  have buf2: "\<not> is_seek_request (c2 @ drop (length c2) c1)"
    using c1(2) c2(3) by (intro not_request) (auto dest: in_set_dropD)
  have u2: "unat (of_nat (length c2) :: size_t) = length c2" using c2(2) by (intro unat_of_nat_size_t) simp
  have "unat (1024 + of_nat (length c2) :: size_t) = 1024 + length c2"
    using c2(2) by (simp add: unat_word_ariths u2)
  then have fit: "\<not> (2048 :: size_t) \<le> 1024 + of_nat (length c2)"
    using c2(2) by (simp add: word_le_nat_alt)
  obtain k where k: "1024 - length c2 = Suc k" using c2(2) by (cases "1024 - length c2") simp_all
  let ?cb = "map Some (c1 @ c2) @ None # replicate k None"
  have st2: "store_cells (heap ?s1) (Ptr b) 1024 (map Some c2) = Some ((heap ?s1)(b \<mapsto> ?cb))"
    using c1(1) c2(2) k by (simp add: store_cells_def)
  have "receive_loop E (c2 # rest) c1 2048 1024 (Ptr b) ?s1 =
      Some (Message 2048 (Ptr b), ?s1\<lparr>heap := (heap ?s1)(b \<mapsto> ?cb)\<rparr>)"
    using c2(1,2) buf2 fit st2
    by (subst receive_loop.simps) (simp add: Let_def del: receive_loop.simps fun_upd_apply)
  then have "got = Message 2048 (Ptr b)" "heap t b = Some ?cb"
    using run step1 by auto
  moreover have "str_len ?cb = None"
    using c1(2) c2(3) by (intro str_len_unterminated) simp
  ultimately show ?thesis by blast
qed

end
