(* ===== verification/Socket_Threads.thy ===== *)
theory Socket_Threads
  imports Socket_Correct
begin

text \<open>
  The other threads of the server: the set-up of the listening thread, and the joining thread, which
  takes finished handlers off the list.
\<close>

subsection \<open>The joining thread\<close>

lemma join_round_ok:
  assumes repr: "list_repr l s locked (a # as) (d # ds)"
  shows "\<exists>s' as'. join_round l l s = Some s' \<and>
    list_repr l s' locked as' (drop_first (\<lambda>e. thread_id e = thread_id d) ds) \<and>
    other_nodes s' as' = other_nodes s (a # as) \<and> stdout s' = stdout s"
proof -
  obtain n where L: "lls s l = Some \<lparr>head = Ptr a, mutex = locked\<rparr>" and n: "nodes s a = Some n"
    and ch: "chain (nodes s) (nxt n) as"
    using list_repr_head [OF repr] by auto
  have di: "a \<notin> set as" "distinct as" and e: "data n = d" "entries (nodes s) as = ds"
    using repr n by (simp_all add: list_repr_def)
  let ?s1 = "s\<lparr>lls := (lls s)(l \<mapsto> \<lparr>head = nxt n, mutex = locked\<rparr>)\<rparr>"
  have r1: "list_repr l ?s1 locked as ds" using ch di e by (simp add: list_repr_def)
  obtain s2 as' where s2: "remove_element_from_linked_list_no_mutex l (thread_id d) ?s1 = Some s2"
      "list_repr l s2 locked as' (drop_first (\<lambda>e. thread_id e = thread_id d) ds)"
      "other_nodes s2 as' = other_nodes ?s1 as" "stdout s2 = stdout s" "set as' \<subseteq> set as"
    using remove_no_mutex_ok [OF r1, of "thread_id d"] by (auto simp: keeps_def)
  have a': "a \<notin> set as'" using di(1) s2(5) by blast
  have "other_nodes s2 as' a = other_nodes ?s1 as a" by (simp only: s2(3))
  then have a2: "nodes s2 a = Some n" using a' di(1) n by (simp add: other_nodes_def)
  let ?s3 = "s2\<lparr>nodes := (nodes s2)(a := None)\<rparr>"
  have run: "join_round l l s = Some ?s3"
    using L n e(1) s2(1) a2 by (simp add: join_round_def get_node_def set_head_def free_node_def)
  have "list_repr l ?s3 locked as' (drop_first (\<lambda>e. thread_id e = thread_id d) ds)"
    using s2(2) a' by (simp add: list_repr_def chain_frame entries_frame del: fun_upd_apply)
  moreover have "other_nodes ?s3 as' = other_nodes s (a # as)"
  proof
    fix x
    have "other_nodes s2 as' x = other_nodes ?s1 as x" by (simp only: s2(3))
    then show "other_nodes ?s3 as' x = other_nodes s (a # as) x"
      by (auto simp: other_nodes_def restrict_map_def split: if_splits)
  qed
  ultimately show ?thesis using run s2(4) by (intro exI [of _ ?s3] exI [of _ as']) simp
qed

text \<open>A wake-up with an empty list: the head is dereferenced without a test.\<close>

lemma join_round_empty:
  assumes "list_repr l s locked [] ds"
  shows "join_round l l s = None"
proof -
  obtain p where "lls s l = Some \<lparr>head = p, mutex = locked\<rparr>" "chain (nodes s) p []"
    using list_repr_head [OF assms] by blast
  then show ?thesis by (simp add: join_round_def get_node_def)
qed

text \<open>Rounds until the list is empty.\<close>

fun join_rounds :: "nat \<Rightarrow> nat \<Rightarrow> lstate \<Rightarrow> lstate option" where
  "join_rounds l 0 s = Some s"
| "join_rounds l (Suc k) s = do { s \<leftarrow> join_round l l s; join_rounds l k s }"

lemma join_rounds_ok:
  "list_repr l s locked as ds \<Longrightarrow> distinct (map thread_id ds) \<Longrightarrow> k \<le> length ds \<Longrightarrow>
   \<exists>s' as'. join_rounds l k s = Some s' \<and> list_repr l s' locked as' (drop k ds) \<and>
     other_nodes s' as' = other_nodes s as \<and> stdout s' = stdout s"
proof (induction k arbitrary: s as ds)
  case 0
  then show ?case by auto
next
  case (Suc k)
  then obtain d ds' where ds: "ds = d # ds'" by (cases ds) auto
  have "length as = length ds" using Suc.prems(1) by (auto simp: list_repr_def entries_def)
  then obtain a as' where as: "as = a # as'" using ds by (cases as) auto
  have "drop_first (\<lambda>e. thread_id e = thread_id d) ds' = ds'"
    using Suc.prems(2) ds by (intro drop_first_none) (auto simp: image_iff)
  then obtain t bs where t: "join_round l l s = Some t" "list_repr l t locked bs ds'" "other_nodes t bs = other_nodes s as" "stdout t = stdout s"
    using join_round_ok [of l s locked a as' d ds'] Suc.prems(1) ds as by auto
  then show ?case
    using Suc.IH [OF t(2)] Suc.prems(2,3) ds by auto
qed

subsection \<open>Set-up\<close>

lemma listen_setup_ok:
  assumes al: "allocator_ok lim (e_alloc E)" "allocator_serves 4096 (e_alloc E)" and fin: "finite (dom (heap s))"
    and un: "unlocked s" and l: "lls (threads s) l = None" and nal: "malloc_fresh (e_node E)" "malloc_total (e_node E)"
    and nodes: "finite (dom (nodes (threads s)))"
  shows "\<exists>s'. listen_setup E (Some l) d s = Some s' \<and> ready s' [] 1024 \<and> device_of s' = d \<and> linked_list s' = l \<and>
    others s' = heap s \<and> registry (e_node E) l False (nodes (threads s)) (threads s') [] \<and>
    fulldatas s' = fulldatas s \<and> sent s' = sent s"
proof -
  obtain a t where a: "c_alloc (e_alloc E) 1024 s = (Ptr a, t)" "heap s a = None"
      "c_memset0 (Ptr a) 1024 t = Some (s\<lparr>heap := (heap s)(a \<mapsto> replicate 1024 (Some 0)), calls := Suc (calls s)\<rparr>)"
    using local_buffer [OF al fin] by blast
  have t: "t = s\<lparr>heap := (heap s)(a \<mapsto> replicate 1024 None), calls := Suc (calls s)\<rparr>"
    using a(1) by (auto simp: c_alloc_def split: option.splits)
  let ?t = "(threads s)\<lparr>lls := (lls (threads s))(l \<mapsto> \<lparr>head = NULL, mutex = False\<rparr>)\<rparr>"
  let ?s = "s\<lparr>heap := (heap s)(a \<mapsto> replicate 1024 (Some 0)), calls := Suc (calls s), to_write := Ptr a,
      linked_list := l, threads := ?t, device_of := d\<rparr>"
  have ms: "c_memset0 (Ptr a) 1024 (t\<lparr>to_write := Ptr a\<rparr>) =
      Some (s\<lparr>heap := (heap s)(a \<mapsto> replicate 1024 (Some 0)), calls := Suc (calls s), to_write := Ptr a\<rparr>)"
    by (simp add: t c_memset0_def store_cells_def)
  have run: "listen_setup E (Some l) d s = Some ?s"
    using a(1) ms by (simp add: listen_setup_def Let_def on_threads_def init_linked_list_def)
  have "string_block (replicate 1024 (Some 0)) [] 1024"
    using replicate_Suc [of 1023 "Some (0 :: byte)"] by (auto simp: string_block_def)
  then have "ready ?s [] 1024"
    using fin un by (auto simp: ready_def string_at_def unlocked_def)
  moreover have "others ?s = heap s"
    using a(2) by (intro ext) (simp add: others_def restrict_map_def)
  moreover have "list_repr l ?t False [] []" by (simp add: list_repr_def)
  then have "registry (e_node E) l False (nodes (threads s)) ?t []"
    using nal nodes by (auto simp: registry_def other_nodes_def intro!: exI [of _ "[]"])
  ultimately show ?thesis using run by (intro exI [of _ ?s]) simp
qed

end
