(* ===== verification/Server_Properties.thy ===== *)
theory Server_Properties
  imports Socket_Threads Driver_Properties List_Properties
begin

text \<open>
  The properties of the socket server: the seek command, the handler of a connection with the driver
  behind it, the joining thread, and the limits of its buffers.
\<close>

subsection \<open>A concrete server\<close>

text \<open>The device is the freshly loaded driver; \<open>malloc\<close> serves up to 4096 bytes at the first free
  address; two connections are waiting.\<close>

definition demo_env :: "(kstate \<times> struct_file) env" where
  "demo_env =
     \<lparr>e_alloc = \<lambda>c h n. if n \<le> 4096 then first_free h else None, e_node = demo_malloc,
      e_send = \<lambda>c n. int n, e_dev = chardev demo_kernel\<rparr>"

definition demo_server :: "(kstate \<times> struct_file) server" where
  "demo_server =
     \<lparr>heap = [0 \<mapsto> [Some 0]], calls = 0, to_write = Ptr 0,
      reply_mutex = False, file_mutex = False, thread_join_mutex = False,
      device_of = (ks demo_loaded, demo_file),
      threads = \<lparr>nodes = Map.empty, lls = [5 \<mapsto> \<lparr>head = NULL, mutex = False\<rparr>], mallocs = 0, stdout = []\<rparr>,
      linked_list = 5,
      fulldatas = [7 \<mapsto> \<lparr>fd_list = 5, fd_data = demo_td 0\<rparr>, 8 \<mapsto> \<lparr>fd_list = 5, fd_data = demo_td 0\<rparr>],
      sent = \<lambda>_. [], closed_fds = [], ip4 = [], peer_log = [], join_signals = 0\<rparr>"

lemma demo_env_ok: "allocator_ok 4096 (e_alloc demo_env)" "allocator_serves 4096 (e_alloc demo_env)"
  by (auto simp: demo_env_def allocator_ok_def allocator_serves_def first_free_ok split: if_splits)

lemma demo_env_sel [simp]: "e_dev demo_env = chardev demo_kernel" "e_node demo_env = demo_malloc" "sends_all demo_env"
  by (simp_all add: demo_env_def sends_all_def)

lemma demo_ready: "ready demo_server [] 1"
  by (simp add: ready_def demo_server_def string_at_def string_block_def)

lemma demo_server_registry: "registry (e_node demo_env) 5 False Map.empty (threads demo_server) []"
proof -
  have "list_repr 5 (threads demo_server) False [] []" by (simp add: list_repr_def demo_server_def)
  then show ?thesis
    using demo_malloc_ok
    by (auto simp: registry_def other_nodes_def demo_server_def intro!: exI [of _ "[]"])
qed

lemma demo_device: "chardev_inv demo_kernel (device_of demo_server)"
  using aesd_init_ok [OF demo_load] demo_kernel_ok demo_file_ok by (simp add: chardev_inv_def demo_server_def)

lemma demo_short: "short_message [104, 105, NEWLINE]" "short_message [98, NEWLINE]"
  by (simp_all add: short_message_def AESD_IOCTL_STR_def ascii_def)

subsection \<open>The seek command\<close>

text \<open>C19: a printed seek command is understood: for all numbers that an \<open>int\<close> can hold, the decimal form
  of the command, with or without a newline after it, is recognised in the receive buffer, whatever
  the buffer holds after the terminator, and \<open>sscanf\<close> reads the two numbers back.\<close>

theorem seek_command_round_trip:
  assumes "cmd < 2 ^ 31" and "off < 2 ^ 31" and "rest = [] \<or> rest = [NEWLINE]"
  shows "is_seek_request (seek_request cmd off @ rest @ 0 # junk) \<and>
    sscanf_seekto (c_string (seek_request cmd off @ rest @ 0 # junk)) = Some (2, int cmd, int off)"
  using seek_request_recognised(1,2) [of rest cmd off junk] sscanf_printed [OF assms(1,2), of rest] assms(3)
  by (auto simp: stops_def)

lemma seek_command_round_trip_witness:
  "sscanf_seekto (c_string (seek_request 3 120 @ [] @ 0 # [55])) = Some (2, 3, 120)"
  using seek_command_round_trip [of 3 120 "[]" "[55]"] by simp

subsection \<open>One connection\<close>

lemma text_answered:
  assumes "allocator_ok lim (e_alloc E)" and "allocator_serves 4096 (e_alloc E)"
    and "ready s hist cap" and "one_read chunks" and "text_of chunks = m" and "length hist < 1024 \<or> length hist + length m < cap"
    and "fulldatas s p = Some f" and "registry (e_node E) (fd_list f) False X (threads s) ds"
    and "d_write (e_dev E) (hist @ m) (device_of s) = Some (x, d)" and "sends_all E"
  shows "\<exists>s' cap'. connection_handler E p self chunks s = Some s' \<and> ready s' (hist @ m) cap' \<and>
    sent s' = (sent s)(file_descriptor (fd_data f) := sent s (file_descriptor (fd_data f)) @ hist @ m) \<and>
    device_of s' = d \<and> closed_fds s' = closed_fds s @ [file_descriptor (fd_data f)] \<and>
    registry (e_node E) (fd_list f) False X (threads s') ((fd_data f)\<lparr>thread_id := self, completion := True\<rparr> # ds) \<and>
    join_signals s' = Suc (join_signals s) \<and> fulldatas s' = (fulldatas s)(p := None) \<and> others s' = others s"
proof -
  have room: "length hist + length m < new_cap hist cap"
    using assms(5,6) text_of_short [OF assms(4)] by (auto simp: new_cap_def)
  obtain b h c k t where "connection_handler E p self chunks s =
      Some ((peer_logged f s)\<lparr>heap := h, calls := c, to_write := Ptr b, device_of := d, threads := t,
        sent := (sent s)(file_descriptor (fd_data f) := sent s (file_descriptor (fd_data f)) @
          take (nat (e_send E k (length (hist @ m)))) (hist @ m)),
        closed_fds := closed_fds s @ [file_descriptor (fd_data f)],
        join_signals := Suc (join_signals s), fulldatas := (fulldatas s)(p := None)\<rparr>)" (is "_ = Some ?s")
    and r: "ready (s\<lparr>heap := h, to_write := Ptr b\<rparr>) (hist @ m) (new_cap hist cap)" "h |` (- {b}) = others s"
    and reg: "registry (e_node E) (fd_list f) False X t ((fd_data f)\<lparr>thread_id := self, completion := True\<rparr> # ds)"
    using text_handled [OF assms(1-5) room assms(7-9), of self] by blast
  moreover have "ready ?s (hist @ m) (new_cap hist cap)" "others ?s = others s"
    using r by (simp_all add: ready_def string_at_def others_def)
  moreover have "take (nat (e_send E k (length (hist @ m)))) (hist @ m) = hist @ m"
    using assms(10) by (simp add: sends_all_def)
  ultimately show ?thesis by (intro exI [of _ ?s] exI [of _ "new_cap hist cap"]) (simp del: take_append fun_upd_apply)
qed

text \<open>A short message. In any state between two connections the handler returns, without undefined
  behaviour, if there is room for the message: the client gets the whole reply string with the message
  at its end, the device gets the same bytes in one write, the string is kept for the next connection,
  the connection is closed, the thread is registered as completed and the joiner is signalled; the
  argument block and the local buffer are released, and no other memory changes.\<close>

theorem message_answered:
  assumes "allocator_ok lim (e_alloc E)" and "allocator_serves 4096 (e_alloc E)"
    and "ready s hist cap" and "short_message m" and "length hist < 1024 \<or> length hist + length m < cap"
    and "fulldatas s p = Some f" and "registry (e_node E) (fd_list f) False X (threads s) ds"
    and "d_write (e_dev E) (hist @ m) (device_of s) = Some (x, d)" and "sends_all E"
  shows "\<exists>s' cap'. connection_handler E p self (m # rest) s = Some s' \<and> ready s' (hist @ m) cap' \<and>
    sent s' = (sent s)(file_descriptor (fd_data f) := sent s (file_descriptor (fd_data f)) @ hist @ m) \<and>
    device_of s' = d \<and> closed_fds s' = closed_fds s @ [file_descriptor (fd_data f)] \<and>
    registry (e_node E) (fd_list f) False X (threads s') ((fd_data f)\<lparr>thread_id := self, completion := True\<rparr> # ds) \<and>
    join_signals s' = Suc (join_signals s) \<and> fulldatas s' = (fulldatas s)(p := None) \<and> others s' = others s"
proof -
  have "c_string m = m" using assms(4) by (metis (mono_tags) c_string_def short_message_def takeWhile_eq_all_conv)
  then have "one_read (m # rest)" "text_of (m # rest) = m" using assms(4) by (simp_all add: one_read_def text_of_def short_message_def)
  then show ?thesis using text_answered [OF assms(1-3) _ _ assms(5-9)] by blast
qed

lemma message_answered_witness:
  "\<exists>s'. connection_handler demo_env 7 21 [[104, 105, NEWLINE]] demo_server = Some s' \<and>
     sent s' 4 = [104, 105, NEWLINE] \<and> chardev_inv demo_kernel (device_of s')"
proof -
  obtain x d where w: "d_write (e_dev demo_env) ([] @ [104, 105, NEWLINE]) (device_of demo_server) = Some (x, d)"
      "chardev_inv demo_kernel d"
    using chardev.write_law [OF demo_device, of "[104, 105, NEWLINE]"] by auto
  have f: "fulldatas demo_server 7 = Some \<lparr>fd_list = 5, fd_data = demo_td 0\<rparr>" by (simp add: demo_server_def)
  have "sent demo_server 4 = []" "file_descriptor (demo_td 0) = 4" by (simp_all add: demo_server_def demo_td_def)
  then show ?thesis
    using message_answered [OF demo_env_ok demo_ready demo_short(1) _ f _ w(1), of Map.empty "[]" 21 "[]"]
      demo_server_registry w(2) by auto
qed

text \<open>C20: any message that arrives in one read, and the connection that ends without one. In any state
  between two connections the handler returns, without undefined behaviour, if there is room for the
  message: the client gets the whole reply string with the text of the message at its end, the device
  gets the same bytes in one write, the string is kept for the next connection, the connection is closed,
  the thread is registered as completed and the joiner is signalled; the argument block and the local
  buffer are released, and no other memory changes. But the text of a message is only what stands before
  its first zero byte: the rest of a binary message is lost. A connection without a byte gets the reply
  string as it is, which is written to the device once more.\<close>

theorem any_message_answered:
  assumes "allocator_ok lim (e_alloc E)" and "allocator_serves 4096 (e_alloc E)"
    and "ready s hist cap" and "one_read chunks" and "length hist < 1024 \<or> length hist + length (text_of chunks) < cap"
    and "fulldatas s p = Some f" and "registry (e_node E) (fd_list f) False X (threads s) ds"
    and "d_write (e_dev E) (hist @ text_of chunks) (device_of s) = Some (x, d)" and "sends_all E"
  shows "(\<exists>s' cap'. connection_handler E p self chunks s = Some s' \<and> ready s' (hist @ text_of chunks) cap' \<and>
      sent s' = (sent s)(file_descriptor (fd_data f) := sent s (file_descriptor (fd_data f)) @ hist @ text_of chunks) \<and>
      device_of s' = d \<and> closed_fds s' = closed_fds s @ [file_descriptor (fd_data f)] \<and>
      registry (e_node E) (fd_list f) False X (threads s') ((fd_data f)\<lparr>thread_id := self, completion := True\<rparr> # ds) \<and>
      join_signals s' = Suc (join_signals s) \<and> fulldatas s' = (fulldatas s)(p := None) \<and> others s' = others s) \<and>
    (\<forall>xs ys rest. chunks = (xs @ 0 # ys) # rest \<and> 0 \<notin> set xs \<longrightarrow> text_of chunks = xs) \<and>
    (\<forall>c rest. chunks = c # rest \<and> 0 \<notin> set c \<longrightarrow> text_of chunks = c) \<and> (concat chunks = [] \<longrightarrow> text_of chunks = [])"
proof (intro conjI)
  show "\<forall>xs ys rest. chunks = (xs @ 0 # ys) # rest \<and> 0 \<notin> set xs \<longrightarrow> text_of chunks = xs"
    by (auto simp: text_of_def c_string_def takeWhile_append)
  show "\<forall>c rest. chunks = c # rest \<and> 0 \<notin> set c \<longrightarrow> text_of chunks = c"
    by (auto simp: text_of_def c_string_def takeWhile_eq_all_conv)
  show "concat chunks = [] \<longrightarrow> text_of chunks = []"
    by (cases chunks) (simp_all add: text_of_def c_string_def)
qed (rule text_answered [OF assms(1-4) refl assms(5-9)])

text \<open>A binary message, and a connection that is closed at once.\<close>

lemma any_message_answered_witness:
  "(\<exists>s'. connection_handler demo_env 7 21 [[104, 105, 0, 106, NEWLINE]] demo_server = Some s' \<and> sent s' 4 = [104, 105]) \<and>
   (\<exists>s'. connection_handler demo_env 7 21 [] demo_server = Some s' \<and> sent s' 4 = [])"
proof -
  have f: "fulldatas demo_server 7 = Some \<lparr>fd_list = 5, fd_data = demo_td 0\<rparr>" by (simp add: demo_server_def)
  have snt: "sent demo_server 4 = []" "file_descriptor (demo_td 0) = 4" by (simp_all add: demo_server_def demo_td_def)
  note reg = demo_server_registry
  have ok: "\<exists>s'. connection_handler demo_env 7 21 chunks demo_server = Some s' \<and> sent s' 4 = text_of chunks"
    if one: "one_read chunks" for chunks
  proof -
    have "length (text_of chunks) \<le> MAX_RW_COUNT"
      using text_of_short [OF one] by simp
    then obtain x d where w: "d_write (e_dev demo_env) ([] @ text_of chunks) (device_of demo_server) = Some (x, d)"
      using chardev.write_law [OF demo_device, of "text_of chunks"] by auto
    show ?thesis
      using any_message_answered [OF demo_env_ok demo_ready one _ f _ w, of Map.empty "[]" 21] reg snt by auto
  qed
  have "one_read [[104, 105, 0, 106, NEWLINE]]" "one_read []" "text_of [[104, 105, 0, 106, NEWLINE]] = [104, 105]" "text_of [] = []"
    by (simp_all add: one_read_def text_of_def c_string_def AESD_IOCTL_STR_def ascii_def)
  then show ?thesis using ok by metis
qed

text \<open>A seek command, with the driver behind the device file. If the addressed byte exists and the
  seek and the reads of the driver succeed, the client gets exactly the content of the device from the
  addressed byte to the end, and the device is as before; the message is not stored. If the seek fails,
  the client gets nothing. In both cases the handler returns, with the same bookkeeping as for a
  message.\<close>

theorem seek_command_answered:
  assumes "allocator_ok lim (e_alloc E)" and "allocator_serves 4096 (e_alloc E)" and "e_dev E = chardev K" and "sends_all E"
    and "ready s hist cap" and "chardev_inv K (device_of s)"
    and "cmd < 2 ^ 31" and "off < 2 ^ 31" and "rest = [] \<or> rest = [NEWLINE]" and "length (seek_request cmd off @ rest) < 1024"
    and "fulldatas s p = Some f" and "registry (e_node E) (fd_list f) False X (threads s) ds"
    and "d_seekto (chardev K) \<lparr>write_cmd = of_nat cmd, write_cmd_offset = of_nat off\<rparr> (device_of s) = Some (x, d1)"
    and "0 \<le> x \<longrightarrow> (\<exists>out d2. reply_loop (chardev K) 1024 d1 [] = Some (0, out, d2))"
  shows "\<exists>s'. connection_handler E p self ((seek_request cmd off @ rest) # chunks) s = Some s' \<and>
    chardev_inv K (device_of s') \<and> chardev_log (device_of s') = chardev_log (device_of s) \<and>
    (\<exists>out. sent s' = (sent s)(file_descriptor (fd_data f) := sent s (file_descriptor (fd_data f)) @ out) \<and>
      (if 0 \<le> x then \<exists>pos. log_seek cmd off (chardev_log (device_of s)) = Some pos \<and>
           out = drop pos (log_content (chardev_log (device_of s)))
       else out = [])) \<and>
    registry (e_node E) (fd_list f) False X (threads s') ((fd_data f)\<lparr>thread_id := self, completion := True\<rparr> # ds) \<and>
    fulldatas s' = (fulldatas s)(p := None) \<and> heap s' = heap s \<and> to_write s' = to_write s"
proof -
  let ?c = "seek_request cmd off @ rest"
  let ?arg = "\<lparr>write_cmd = of_nat cmd, write_cmd_offset = of_nat off\<rparr> :: aesd_seekto"
  have u: "unat (of_nat cmd :: uint32_t) = cmd" "unat (of_nat off :: uint32_t) = off"
    using assms(7,8) by (simp_all add: unat_of_nat)
  have zr: "0 \<notin> set rest" using assms(9) by auto
  have "0 \<notin> set ?c"
    by (rule seek_request_recognised(3) [OF zr])
  moreover have "strstr ?c AESD_IOCTL_STR"
    using seek_request_recognised(1,2) [OF zr, of cmd off "[]"] by (simp add: is_seek_request_def)
  moreover have "sscanf_seekto ?c = Some (2, int cmd, int off)"
    using sscanf_printed [OF assms(7,8), of rest] assms(9) by (auto simp: stops_def)
  moreover have "?c \<noteq> []" by (simp add: seek_request_def AESD_IOCTL_STR_def ascii_def)
  moreover have arg: "d_seekto (e_dev E) \<lparr>write_cmd = word_of_int (int cmd), write_cmd_offset = word_of_int (int off)\<rparr> (device_of s) = Some (x, d1)"
    using assms(3,13) by simp
  note h = request_handled [OF assms(1,2,5) calculation(4) assms(10) calculation(1,2,3) assms(11,12) arg]
  obtain out d2 where o: "if x < 0 then out = [] \<and> d2 = d1 else \<exists>n. reply_loop (e_dev E) 1024 d1 [] = Some (n, out, d2)"
      "0 \<le> x \<longrightarrow> reply_loop (chardev K) 1024 d1 [] = Some (0, out, d2)"
    using assms(3,14) by (cases "x < 0") auto
  have dev: "chardev_inv K d2 \<and> chardev_log d2 = chardev_log (device_of s) \<and>
      (if 0 \<le> x then \<exists>pos. log_seek cmd off (chardev_log (device_of s)) = Some pos \<and>
           out = drop pos (log_content (chardev_log (device_of s))) else out = [])"
  proof (cases "0 \<le> x")
    case True
    then show ?thesis
      using chardev.seek_and_reply [OF assms(6) _ _ assms(13), of 1024 out d2] o u by auto
  next
    case False
    then show ?thesis using chardev.seek_law [OF assms(6), of ?arg] assms(13) o by auto
  qed
  obtain k snt t where "connection_handler E p self (?c # chunks) s =
      Some ((peer_logged f s)\<lparr>calls := k, device_of := d2, threads := t, sent := snt,
        closed_fds := closed_fds s @ [file_descriptor (fd_data f)],
        join_signals := Suc (join_signals s), fulldatas := (fulldatas s)(p := None)\<rparr>)"
    "snt = (sent s)(file_descriptor (fd_data f) := sent s (file_descriptor (fd_data f)) @ out)"
    "registry (e_node E) (fd_list f) False X t ((fd_data f)\<lparr>thread_id := self, completion := True\<rparr> # ds)"
    using h [OF o(1), of self chunks] assms(4) by blast
  then show ?thesis using dev by auto
qed

lemma seek_command_answered_witness:
  "\<exists>s'. connection_handler demo_env 7 21 [seek_request 0 1 @ [NEWLINE]] (demo_server\<lparr>device_of := (demo_state, demo_file)\<rparr>) = Some s' \<and>
     sent s' 4 = [98, NEWLINE] \<and> chardev_inv demo_kernel (device_of s')"
proof -
  let ?s = "demo_server\<lparr>device_of := (demo_state, demo_file)\<rparr>"
  let ?arg = "\<lparr>write_cmd = of_nat 0, write_cmd_offset = of_nat 1\<rparr> :: aesd_seekto"
  let ?run = "do { (x, d) \<leftarrow> d_seekto (chardev demo_kernel) \<lparr>write_cmd = 0, write_cmd_offset = 1\<rparr> (demo_state, demo_file);
                   (n, out, d) \<leftarrow> reply_loop (chardev demo_kernel) 1024 d []; Some (x, n) }"
  have "?run = Some (3 - 2, 0)" by code_simp
  then obtain x d1 out d2 where x: "d_seekto (chardev demo_kernel) ?arg (device_of ?s) = Some (x, d1)"
      "0 \<le> x" "reply_loop (chardev demo_kernel) 1024 d1 [] = Some (0, out, d2)"
    by (auto simp: bind_eq_Some_conv)
  have "ready ?s [] 1" "chardev_inv demo_kernel (device_of ?s)"
    using demo_ready demo_kernel_ok demo_inv demo_file_ok by (simp_all add: ready_def string_at_def chardev_inv_def)
  note h = seek_command_answered [OF demo_env_ok demo_env_sel(1,3) this, of 0 1 "[NEWLINE]" 7 "\<lparr>fd_list = 5, fd_data = demo_td 0\<rparr>"
      Map.empty "[]" x d1 21 "[]"]
  have "length (seek_request 0 1 @ [NEWLINE]) < 1024" by code_simp
  moreover have "fulldatas ?s 7 = Some \<lparr>fd_list = 5, fd_data = demo_td 0\<rparr>" by (simp add: demo_server_def)
  moreover have "chardev_log (device_of ?s) = \<lparr>lines = [[97, 98, NEWLINE]], pending = [99]\<rparr>" by (simp add: demo_log)
  moreover have "sent ?s 4 = []" "file_descriptor (demo_td 0) = 4" by (simp_all add: demo_server_def demo_td_def)
  ultimately show ?thesis using h x demo_server_registry by (auto simp: log_seek_def log_content_def)
qed

end
