(* ===== verification/Server_Process.thy ===== *)
theory Server_Process
  imports Socket_Threads
begin

text \<open>
  The process around the server: \<open>server/signal_handler.c\<close>, the main function of
  \<open>server/aesdsocket.c\<close>, and the listening thread of \<open>server/socket_core.c\<close> with its loop over \<open>poll\<close>
  and \<open>accept\<close>. The results of the system calls are arguments; the build with the character device and
  the one with a plain file differ in the flag \<open>char_dev\<close>.
\<close>

subsection \<open>State\<close>

text \<open>The messages of the set-up on the standard error output.\<close>

datatype start_message = Get_Address_Error int | Socket_Error | Bind_Failed | Listen_Failed

record 'd process =
  srv :: "'d server"
  signal_caught :: bool
  handled_signals :: "nat set"            \<comment> \<open>the signals with the handler installed\<close>
  socket_fd :: int
  temp_file_fd :: int
  file_removed :: bool                    \<comment> \<open>\<open>TEMP_FILE_PATH\<close> was unlinked\<close>
  timer_started :: bool
  stderr :: "start_message list"
  exit_status :: "int option"             \<comment> \<open>set by \<open>exit\<close>\<close>

abbreviation (input) SIGINT :: nat where "SIGINT \<equiv> 2"
abbreviation (input) SIGTERM :: nat where "SIGTERM \<equiv> 15"
abbreviation (input) EINTR :: int where "EINTR \<equiv> 4"

subsection \<open>Signals\<close>

text \<open>The handler releases the reply string and the list and ends the process; the list is found through
  its global pointer, which is null, that is without an object, before the listening thread has set it.\<close>

definition log_closed :: "'d server \<Rightarrow> 'd server" where
  "log_closed s = s\<lparr>peer_log := peer_log s @ [ascii ''Closed connection from '' @ ip4 s]\<rparr>"

lemma log_closed_sel [simp]:
  "heap (log_closed s) = heap s" "to_write (log_closed s) = to_write s" "threads (log_closed s) = threads s"
  "linked_list (log_closed s) = linked_list s" "fulldatas (log_closed s) = fulldatas s"
  "device_of (log_closed s) = device_of s" "closed_fds (log_closed s) = closed_fds s" "ip4 (log_closed s) = ip4 s"
  by (simp_all add: log_closed_def)

definition signal_handler :: "bool \<Rightarrow> int \<Rightarrow> 'd process \<Rightarrow> 'd process option" where
  "signal_handler char_dev remove_ret P =
     do { let P = P\<lparr>signal_caught := True\<rparr>;
          let P = P\<lparr>srv := log_closed (srv P)\<rparr>;
          let P = (if char_dev then P else P\<lparr>file_removed := (remove_ret = 0)\<rparr>);
          s \<leftarrow> c_free (to_write (srv P)) (srv P);
          s \<leftarrow> on_threads (free_linked_list (linked_list s)) s;
          let s = c_close (socket_fd P) s;
          let s = c_close (temp_file_fd P) s;
          Some (P\<lparr>srv := s, exit_status := Some 0\<rparr>) }"

text \<open>\<open>sigaction\<close> gives the result of the call for each signal.\<close>

definition install :: "(nat \<Rightarrow> int) \<Rightarrow> nat \<Rightarrow> bool \<times> 'd process \<Rightarrow> bool \<times> 'd process" where
  "install sigaction sig r = (case r of (success, P) \<Rightarrow>
     if sigaction sig \<noteq> 0 then (False, P) else (success, P\<lparr>handled_signals := insert sig (handled_signals P)\<rparr>))"

definition setup_signal_handler :: "(nat \<Rightarrow> int) \<Rightarrow> 'd process \<Rightarrow> bool \<times> 'd process" where
  "setup_signal_handler sigaction P = install sigaction SIGINT (install sigaction SIGTERM (True, P))"

subsection \<open>The listening thread\<close>

text \<open>One result of \<open>poll\<close> or \<open>accept\<close>. For an accepted connection it has also the address of the peer,
  the block that \<open>malloc\<close> gives, the indeterminate value of \<open>thread_id\<close> and the result of
  \<open>pthread_create\<close>.\<close>

record call_result =
  ret :: int
  err :: int
  peer :: sockaddr_in
  block :: "nat option"
  raw_tid :: pthread_t
  created :: int

text \<open>The two nested loops: the flag says whether the next call is \<open>accept\<close>. The results are whether the
  loop was left, the argument blocks of the threads that were created, and the state; the list of call
  results may end before the loop does. Both kinds of errors of \<open>accept\<close> lead back to \<open>poll\<close>, and a
  thread that could not be created is only logged.\<close>

fun listen_loop :: "bool \<Rightarrow> call_result list \<Rightarrow> 'd server \<Rightarrow> (bool \<times> nat list \<times> 'd server) option" where
  "listen_loop accepting [] s = Some (False, [], s)"
| "listen_loop False (r # rs) s =
     (if ret r < 0 then if err r = EINTR then listen_loop False rs s else Some (True, [], s)
      else listen_loop True rs s)"
| "listen_loop True (r # rs) s =
     (if ret r < 0 then listen_loop False rs s
      else do { (p, s) \<leftarrow> accept_connection (block r) (ret r) (peer r) (raw_tid r) s;
                (left, ps, s) \<leftarrow> listen_loop True rs s;
                Some (left, if created r = 0 then p # ps else ps, s) })"

text \<open>The socket calls before the loop. A failing \<open>getaddrinfo\<close> ends the process; failures of \<open>socket\<close>,
  \<open>bind\<close> and \<open>listen\<close> are only printed, and those of \<open>setsockopt\<close> not even that. The flag says whether the
  process goes on.\<close>

record socket_results =
  gai_status :: int
  sock :: int
  bind_ret :: int
  listen_ret :: int

definition report :: "bool \<Rightarrow> start_message \<Rightarrow> 'd process \<Rightarrow> 'd process" where
  "report failed m P = (if failed then P\<lparr>stderr := stderr P @ [m]\<rparr> else P)"

definition open_socket :: "socket_results \<Rightarrow> 'd process \<Rightarrow> bool \<times> 'd process" where
  "open_socket R P =
     (if gai_status R \<noteq> 0
      then (False, (report True (Get_Address_Error (gai_status R)) P)\<lparr>exit_status := Some 1\<rparr>)
      else let P = P\<lparr>socket_fd := sock R\<rparr>;
               P = report (socket_fd P = - 1) Socket_Error P;
               P = report (bind_ret R \<noteq> 0) Bind_Failed P
           in (True, report (listen_ret R \<noteq> 0) Listen_Failed P))"

definition socket_listen ::
  "'d env \<Rightarrow> socket_results \<Rightarrow> nat option \<Rightarrow> int \<times> 'd \<Rightarrow> call_result list \<Rightarrow> 'd process \<Rightarrow>
   (bool \<times> nat list \<times> 'd process) option" where
  "socket_listen E R la opened rs P =
     (let (going_on, P) = open_socket R P
      in if \<not> going_on then Some (True, [], P)
      else do {
        s \<leftarrow> listen_setup E la (snd opened) (srv P);
        let P = P\<lparr>temp_file_fd := fst opened\<rparr>;
        (left, ps, s) \<leftarrow> listen_loop False rs s;
        Some (left, ps, P\<lparr>srv := s\<rparr>) })"

lemma open_socket_ok:
  assumes "gai_status R = 0"
  shows "\<exists>ms. open_socket R P = (True, P\<lparr>socket_fd := sock R, stderr := stderr P @ ms\<rparr>)"
proof -
  have "P\<lparr>socket_fd := sock R\<rparr> = P\<lparr>socket_fd := sock R, stderr := stderr P @ []\<rparr>" by (cases P) simp
  then show ?thesis
    using assms
    by (intro exI [of _ "(if sock R = - 1 then [Socket_Error] else []) @ (if bind_ret R \<noteq> 0 then [Bind_Failed] else []) @
          (if listen_ret R \<noteq> 0 then [Listen_Failed] else [])"]) (simp add: open_socket_def report_def Let_def)
qed

subsection \<open>The main function\<close>

text \<open>\<open>fork_pid\<close> is the result of \<open>fork\<close> and \<open>listen\<close> the run of the listening function, which returns when its
  loop is left. The result is the exit status of the process.\<close>

definition server_main ::
  "bool \<Rightarrow> (nat \<Rightarrow> int) \<Rightarrow> int \<Rightarrow> byte list list \<Rightarrow> ('d process \<Rightarrow> 'd process option) \<Rightarrow> 'd process \<Rightarrow>
   (int \<times> 'd process) option" where
  "server_main char_dev sigaction fork_pid argv listen P =
     (let (success, P) = setup_signal_handler sigaction P
      in if \<not> success then Some (- 1, P)
         else
           let P = P\<lparr>srv := (srv P)\<lparr>file_mutex := False, reply_mutex := False\<rparr>\<rparr>;
               pid = (if length argv = 2 then if argv ! 1 = ascii ''-d'' then fork_pid else 0 else 0)
           in if pid = 0
              then do { let P = (if char_dev then P else P\<lparr>timer_started := True\<rparr>);
                        P \<leftarrow> listen P;
                        Some (case exit_status P of Some c \<Rightarrow> (c, P) | None \<Rightarrow> (0, P\<lparr>exit_status := Some 0\<rparr>)) }
              else Some (0, P\<lparr>exit_status := Some 0\<rparr>))"

subsection \<open>The listening loop\<close>

text \<open>The accepted connections among the results, in order.\<close>

fun accepted :: "bool \<Rightarrow> call_result list \<Rightarrow> call_result list" where
  "accepted accepting [] = []"
| "accepted False (r # rs) = (if ret r < 0 then if err r = EINTR then accepted False rs else [] else accepted True rs)"
| "accepted True (r # rs) = (if ret r < 0 then accepted False rs else r # accepted True rs)"

definition argument_block :: "nat \<Rightarrow> call_result \<Rightarrow> full_data" where
  "argument_block l r =
     \<lparr>fd_list = l, fd_data = \<lparr>file_descriptor = ret r, their_addr = peer r, thread_id = raw_tid r, completion = False\<rparr>\<rparr>"

text \<open>The argument blocks after the connections: a later one at the same address replaces an earlier one.\<close>

definition filled :: "nat \<Rightarrow> call_result list \<Rightarrow> (nat \<rightharpoonup> full_data) \<Rightarrow> (nat \<rightharpoonup> full_data)" where
  "filled l rs F = F ++ map_of (rev (map (\<lambda>r. (the (block r), argument_block l r)) rs))"

lemma filled_simps [simp]:
  "filled l [] F = F" "filled l (r # rs) F = filled l rs (F(the (block r) \<mapsto> argument_block l r))"
  by (simp_all add: filled_def map_add_def fun_eq_iff split: option.split)

lemma listen_loop_ok:
  "\<forall>r \<in> set (accepted accepting rs). block r \<noteq> None \<Longrightarrow>
   \<exists>left. listen_loop accepting rs s =
     Some (left, map (\<lambda>r. the (block r)) (filter (\<lambda>r. created r = 0) (accepted accepting rs)),
       s\<lparr>fulldatas := filled (linked_list s) (accepted accepting rs) (fulldatas s)\<rparr>)"
proof (induction accepting rs s rule: listen_loop.induct)
  case (3 r rs s)
  show ?case
  proof (cases "ret r < 0")
    case True
    then show ?thesis using 3 by simp
  next
    case False
    then obtain p where p: "block r = Some p" using "3.prems" by auto
    let ?s = "s\<lparr>fulldatas := (fulldatas s)(p \<mapsto> argument_block (linked_list s) r)\<rparr>"
    have a: "accept_connection (block r) (ret r) (peer r) (raw_tid r) s = Some (p, ?s)"
      using p by (simp add: accept_connection_def argument_block_def Let_def)
    show ?thesis
      using "3.IH"(2) [OF False a refl] "3.prems" False a p by (auto simp del: fun_upd_apply)
  qed
qed auto

lemma filled_lookup:
  assumes "distinct (map (\<lambda>r. the (block r)) rs)" and "r \<in> set rs"
  shows "filled l rs F (the (block r)) = Some (argument_block l r)"
proof -
  have "map_of (rev (map (\<lambda>r. (the (block r), argument_block l r)) rs)) (the (block r)) = Some (argument_block l r)"
    using assms by (intro map_of_is_SomeI) (auto simp: rev_map [symmetric] comp_def)
  then show ?thesis by (simp add: filled_def map_add_def)
qed

lemma filled_other: "p \<notin> (\<lambda>r. the (block r)) ` set rs \<Longrightarrow> filled l rs F p = F p"
  by (auto simp: filled_def map_add_def map_of_eq_None_iff image_comp split: option.split dest!: map_of_SomeD)

subsection \<open>The end of the process\<close>

text \<open>The reply string, the list with all its entries and the list object are released.\<close>

lemma signal_handler_ok:
  assumes r: "ready (srv P) hist cap" and reg: "registry al (linked_list (srv P)) locked X (threads (srv P)) ds"
  shows "\<exists>P'. signal_handler char_dev x P = Some P' \<and> heap (srv P') = others (srv P) \<and>
    nodes (threads (srv P')) = X \<and> lls (threads (srv P')) = (lls (threads (srv P)))(linked_list (srv P) := None) \<and>
    fulldatas (srv P') = fulldatas (srv P) \<and> device_of (srv P') = device_of (srv P) \<and>
    closed_fds (srv P') = closed_fds (srv P) @ [socket_fd P, temp_file_fd P] \<and> exit_status P' = Some 0 \<and>
    file_removed P' = (if char_dev then file_removed P else x = 0)"
proof -
  let ?s = "srv P" and ?l = "linked_list (srv P)"
  obtain b cb where b: "to_write ?s = Ptr b" "heap ?s b = Some cb"
    using r by (auto simp: ready_def string_at_def)
  obtain as where as: "list_repr ?l (threads ?s) locked as ds" "other_nodes (threads ?s) as = X"
    using reg by (auto simp: registry_def)
  let ?s1 = "(log_closed ?s)\<lparr>heap := (heap ?s)(b := None)\<rparr>"
  let ?s2 = "?s1\<lparr>threads := (threads ?s)\<lparr>nodes := X, lls := (lls (threads ?s))(?l := None)\<rparr>\<rparr>"
  have f: "c_free (to_write ?s) (log_closed ?s) = Some ?s1" using b by (simp add: c_free_def)
  have g: "on_threads (free_linked_list ?l) ?s1 = Some ?s2"
    using free_list_ok [OF as(1)] as(2) by (simp add: on_threads_def)
  have h: "(heap ?s)(b := None) = others ?s"
    using b by (intro ext) (simp add: others_def restrict_map_def)
  show ?thesis
    using f g h by (cases char_dev) (simp_all add: signal_handler_def c_close_def Let_def del: fun_upd_apply)
qed

text \<open>Before the listening thread has set the global list pointer, the handler follows a null pointer.\<close>

lemma signal_too_early:
  assumes "lls (threads (srv P)) (linked_list (srv P)) = None"
  shows "signal_handler char_dev x P = None"
  using assms by (simp add: signal_handler_def on_threads_def free_linked_list_def c_free_def Let_def bind_eq_None_conv
      split: ptr.split option.split)

end
