(* ===== verification/Server_Runs.thy ===== *)
theory Server_Runs
  imports Server_Properties Server_Process
begin

text \<open>
  Properties of whole runs of the server: connections one after the other on top of the driver, the
  joining thread, a run from the start-up to the release of everything, and the two ways in which its
  buffers are too small.
\<close>

subsection \<open>Where the buffers are too small\<close>

text \<open>C32: the reply string can overflow. Once the string has the size of the local buffer its block is
  never enlarged, and a message that does not fit makes \<open>strcat\<close> write behind the block: undefined
  behaviour, in every such state and for every behaviour of the allocator.\<close>

theorem message_overflows:
  assumes al: "allocator_ok lim (e_alloc E)" and r: "ready s hist cap" and m: "short_message m"
    and full: "1024 \<le> length hist" "cap \<le> length hist + length m"
  shows "connection_handler E p self (m # rest) s = None"
  using al
proof (cases rule: c_alloc_cases [of lim "e_alloc E" 1024 s])
  case fail
  then show ?thesis by (simp add: connection_handler_def c_memset0_def store_cells_def)
next
  case (ok a)
  let ?f = "\<lambda>f. f\<lparr>fd_data := (fd_data f)\<lparr>thread_id := self\<rparr>\<rparr>"
  let ?s1 = "\<lambda>f. (peer_logged f s)\<lparr>heap := (heap s)(a \<mapsto> replicate 1024 (Some 0)), calls := Suc (calls s),
      fulldatas := (fulldatas s)(p \<mapsto> ?f f)\<rparr>"
  have ms: "c_memset0 (Ptr a) 1024 (s\<lparr>heap := (heap s)(a \<mapsto> replicate 1024 None), calls := Suc (calls s)\<rparr>) =
      Some (s\<lparr>heap := (heap s)(a \<mapsto> replicate 1024 (Some 0)), calls := Suc (calls s)\<rparr>)"
    by (simp add: c_memset0_def store_cells_def)
  show ?thesis
  proof (cases "fulldatas s p")
    case None
    then show ?thesis using ok(1) ms by (simp add: connection_handler_def)
  next
    case (Some f)
    obtain ca where rc: "receive_loop E (m # rest) (replicate 1024 0) 1024 0 (Ptr a) (?s1 f) =
        Some (Message 1024 (Ptr a), (?s1 f)\<lparr>heap := (heap (?s1 f))(a \<mapsto> ca)\<rparr>)" "string_block ca m 1024"
      using receive_short [of m "?s1 f" a E rest] m by (auto simp: short_message_def)
    let ?s2 = "(?s1 f)\<lparr>heap := (heap (?s1 f))(a \<mapsto> ca)\<rparr>"
    have "ready ?s2 hist cap" using r ok(2) by (auto simp: ready_def string_at_def)
    then have "append_and_send E (file_descriptor (fd_data f)) 1024 (Ptr a) ?s2 = None"
      using append_overflow [of ?s2 hist cap a ca m E "file_descriptor (fd_data f)"] rc(2) full by simp
    then show ?thesis
      using ok(1) ms Some rc(1)
      by (simp add: connection_handler_def Let_def del: receive_loop.simps fun_upd_apply)
  qed
qed

lemma message_overflows_witness:
  "connection_handler demo_env 7 21 [[98, NEWLINE]]
     (demo_server\<lparr>heap := [0 \<mapsto> map Some (replicate 1024 97) @ [Some 0]]\<rparr>) = None"
proof -
  let ?s = "demo_server\<lparr>heap := [0 \<mapsto> map Some (replicate 1024 97) @ [Some 0]]\<rparr>"
  have "ready ?s (replicate 1024 97) 1025"
    by (auto simp: ready_def string_at_def string_block_def demo_server_def)
  then show ?thesis
    using message_overflows [OF demo_env_ok(1) _ demo_short(2), of ?s "replicate 1024 97" 1025 7 21 "[]"] by simp
qed

text \<open>Messages longer than the receive buffer are undefined. A message that fills the buffer with its
  first read and goes on is copied into a block whose second half is never cleared, so no terminator
  follows it, and \<open>strcat\<close> reads bytes that were never written. This holds in every state and for every
  behaviour of the allocator.\<close>

theorem long_message_undefined:
  assumes al: "allocator_ok lim (e_alloc E)"
    and c1: "length c1 = 1024" "0 \<notin> set c1" and c2: "c2 \<noteq> []" "length c2 < 1024" "0 \<notin> set c2"
  shows "connection_handler E p self (c1 # c2 # rest) s = None"
  using al
proof (cases rule: c_alloc_cases [of lim "e_alloc E" 1024 s])
  case fail
  then show ?thesis by (simp add: connection_handler_def c_memset0_def store_cells_def)
next
  case (ok a)
  let ?s0 = "s\<lparr>heap := (heap s)(a \<mapsto> replicate 1024 (Some 0)), calls := Suc (calls s)\<rparr>"
  have ms: "c_memset0 (Ptr a) 1024 (s\<lparr>heap := (heap s)(a \<mapsto> replicate 1024 None), calls := Suc (calls s)\<rparr>) = Some ?s0"
    by (simp add: c_memset0_def store_cells_def)
  let ?s1 = "\<lambda>f. (peer_logged f ?s0)\<lparr>fulldatas := (fulldatas s)(p \<mapsto> f\<lparr>fd_data := (fd_data f)\<lparr>thread_id := self\<rparr>\<rparr>)\<rparr>"
  consider "fulldatas s p = None"
    | f where "fulldatas s p = Some f" "receive_loop E (c1 # c2 # rest) (replicate 1024 0) 1024 0 (Ptr a) (?s1 f) = None"
    | f got t where "fulldatas s p = Some f"
        "receive_loop E (c1 # c2 # rest) (replicate 1024 0) 1024 0 (Ptr a) (?s1 f) = Some (got, t)"
    by (metis not_Some_eq surj_pair)
  then show ?thesis
  proof cases
    case 1
    then show ?thesis using ok(1) ms by (simp add: connection_handler_def)
  next
    case 2
    then show ?thesis
      using ok(1) ms by (simp add: connection_handler_def Let_def del: receive_loop.simps fun_upd_apply)
  next
    case 3
    obtain b cb where b: "got = Message 2048 (Ptr b)" "heap t b = Some cb" "str_len cb = None"
      using receive_long [OF c1 c2 _ 3(2)] by auto
    then show ?thesis
      using ok(1) ms 3 append_unterminated [OF al b(2,3)]
      by (simp add: connection_handler_def Let_def del: receive_loop.simps fun_upd_apply)
  qed
qed

lemma long_message_undefined_witness:
  "connection_handler demo_env 7 21 [replicate 1024 97, [98, NEWLINE]] demo_server = None"
  using long_message_undefined [OF demo_env_ok(1), of "replicate 1024 97" "[98, NEWLINE]" 7 21 "[]" demo_server] by simp

subsection \<open>Several connections\<close>

text \<open>Connections served one after the other, each with one short message, as long as the messages fit
  into the string: every client gets all messages up to and including its own, the device is given the
  same strings, one write for each connection; every thread is registered as completed and the joiner
  is signalled once for each; all argument blocks and local buffers are released.\<close>

theorem connections_answered:
  assumes "allocator_ok lim (e_alloc E)" and "allocator_serves 4096 (e_alloc E)" and "sends_all E"
    and "ready s hist cap" and "\<forall>m \<in> set (messages cs). short_message m"
    and "length hist + length (concat (messages cs)) < 1024"
    and "waiting l (fulldatas s) cs" and "registry (e_node E) l False X (threads s) ds"
    and "d_writes (e_dev E) (prefixes_from hist (messages cs)) (device_of s) = Some (rs, d)"
  shows "\<exists>s' cap'. serve E cs s = Some s' \<and> ready s' (hist @ concat (messages cs)) cap' \<and> others s' = others s \<and>
    sent s' = deliver (sent s) (map (connection_fd (fulldatas s)) cs) (prefixes_from hist (messages cs)) \<and>
    device_of s' = d \<and> fulldatas s' = fulldatas s |` (- fst ` set cs) \<and>
    registry (e_node E) l False X (threads s') (rev (map (done_entry (fulldatas s)) cs) @ ds) \<and>
    join_signals s' = join_signals s + length cs"
  using serve_ok [OF assms(1,2,4-9)] assms(3) by blast

abbreviation demo_connections :: "(nat \<times> pthread_t \<times> byte list) list" where
  "demo_connections \<equiv> [(7, 21, [104, 105, NEWLINE]), (8, 22, [98, NEWLINE])]"

lemma demo_waiting: "waiting 5 (fulldatas demo_server) demo_connections"
  by (auto simp: waiting_def demo_server_def)

lemma demo_short_all:
  "\<forall>m \<in> set (messages demo_connections). short_message m"
  "length ([] :: byte list) + length (concat (messages demo_connections)) < 1024"
  using demo_short by (simp_all add: messages_def)

lemma demo_writes:
  "\<exists>rs d. d_writes (e_dev demo_env) (prefixes_from [] (messages demo_connections)) (device_of demo_server) = Some (rs, d) \<and>
     rs = [3, 5]"
proof -
  have "map_option fst (d_writes (chardev demo_kernel) (prefixes_from [] (messages demo_connections)) (ks demo_loaded, demo_file)) = Some [3, 5]"
    by code_simp
  moreover have "device_of demo_server = (ks demo_loaded, demo_file)" by (simp add: demo_server_def)
  ultimately show ?thesis by auto
qed

lemma connections_answered_witness:
  "\<exists>s'. serve demo_env demo_connections demo_server = Some s' \<and>
     sent s' 4 = [104, 105, NEWLINE] @ [104, 105, NEWLINE, 98, NEWLINE] \<and> join_signals s' = 2"
proof -
  obtain d where "d_writes (e_dev demo_env) (prefixes_from [] (messages demo_connections)) (device_of demo_server) = Some ([3, 5], d)"
    using demo_writes by auto
  then show ?thesis
    using connections_answered [OF demo_env_ok demo_env_sel(3) demo_ready demo_short_all demo_waiting demo_server_registry]
    by (auto simp: messages_def demo_server_def connection_fd_def demo_td_def)
qed

text \<open>What the contract of the device says of several writes.\<close>

context device_file
begin

lemma d_writes_ok:
  "inv d \<Longrightarrow> \<forall>bs \<in> set bss. length bs \<le> MAX_RW_COUNT \<Longrightarrow>
   \<exists>rs d'. d_writes D bss d = Some (rs, d') \<and> inv d' \<and> pos d' = pos d \<and>
     ((\<forall>r \<in> set rs. 0 \<le> r) \<longrightarrow> log d' = fold log_write bss (log d))"
proof (induction bss arbitrary: d)
  case Nil
  then show ?case by simp
next
  case (Cons bs bss)
  obtain r d1 where d1: "d_write D bs d = Some (r, d1)" "inv d1" "pos d1 = pos d"
      "r < 0 \<or> r = int (length bs) \<and> log d1 = log_write bs (log d)"
    using write_law [OF Cons.prems(1), of bs] Cons.prems(2) by auto
  obtain rs d2 where "d_writes D bss d1 = Some (rs, d2)" "inv d2" "pos d2 = pos d1"
      "(\<forall>r \<in> set rs. 0 \<le> r) \<longrightarrow> log d2 = fold log_write bss (log d1)"
    using Cons.IH [OF d1(2)] Cons.prems(2) by auto
  then show ?case using d1 by (intro exI [of _ "r # rs"] exI [of _ d2]) auto
qed

end

lemma prefixes_short: "bs \<in> set (prefixes_from hist ms) \<Longrightarrow> length bs \<le> length hist + length (concat ms)"
  by (induction hist ms rule: prefixes_from.induct) fastforce+

text \<open>C21: the server on top of the driver. The connections never make the driver fail, and if all writes
  succeed the device has received the reply string of every connection in turn: not the messages, but
  the first message once for each connection, the second once for each connection but one, and so on.\<close>

theorem device_gets_every_prefix:
  assumes "allocator_ok lim (e_alloc E)" and "allocator_serves 4096 (e_alloc E)" and "e_dev E = chardev K"
    and "ready s hist cap" and "\<forall>m \<in> set (messages cs). short_message m"
    and "length hist + length (concat (messages cs)) < 1024"
    and "waiting l (fulldatas s) cs" and "registry (e_node E) l False X (threads s) ds"
    and "chardev_inv K (device_of s)"
  shows "\<exists>s' rs. serve E cs s = Some s' \<and> chardev_inv K (device_of s') \<and>
    map_option fst (d_writes (chardev K) (prefixes_from hist (messages cs)) (device_of s)) = Some rs \<and>
    ((\<forall>r \<in> set rs. 0 \<le> r) \<longrightarrow>
      chardev_log (device_of s') = fold log_write (prefixes_from hist (messages cs)) (chardev_log (device_of s)))"
proof -
  have "\<forall>bs \<in> set (prefixes_from hist (messages cs)). length bs \<le> MAX_RW_COUNT"
    using prefixes_short [of _ hist "messages cs"] assms(6) by fastforce
  then obtain rs d where d: "d_writes (chardev K) (prefixes_from hist (messages cs)) (device_of s) = Some (rs, d)"
      "chardev_inv K d"
      "(\<forall>r \<in> set rs. 0 \<le> r) \<longrightarrow> chardev_log d = fold log_write (prefixes_from hist (messages cs)) (chardev_log (device_of s))"
    using chardev.d_writes_ok [OF assms(9)] by blast
  then show ?thesis
    using serve_ok [OF assms(1,2,4-8), of rs d] assms(3) by auto
qed

lemma device_gets_every_prefix_witness:
  "\<exists>s'. serve demo_env demo_connections demo_server = Some s' \<and>
     lines (chardev_log (device_of s')) = [[104, 105, NEWLINE], [104, 105, NEWLINE], [98, NEWLINE]]"
proof -
  have l: "chardev_log (device_of demo_server) = log_empty"
    using aesd_init_ok [OF demo_load] by (simp add: demo_server_def)
  have "lines (fold log_write (prefixes_from [] (messages demo_connections)) log_empty) =
      [[104, 105, NEWLINE], [104, 105, NEWLINE], [98, NEWLINE]]" by code_simp
  then show ?thesis
    using device_gets_every_prefix [OF demo_env_ok demo_env_sel(1) demo_ready demo_short_all demo_waiting demo_server_registry demo_device]
      demo_writes l by fastforce
qed

subsection \<open>The joining thread\<close>

text \<open>the joining thread. If it wakes up once for each finished thread, each round joins and removes one
  entry, and after the last one the list is empty and all its nodes are released, those of others
  untouched. One more wake-up, which \<open>pthread_cond_wait\<close> is allowed to have without a signal,
  dereferences the null head of the empty list.\<close>

theorem joiner_empties_then_faults:
  assumes "registry al l locked X t ds" and "distinct (map thread_id ds)"
  shows "\<exists>t'. join_rounds l (length ds) t = Some t' \<and> registry al l locked X t' [] \<and>
    stdout t' = stdout t \<and> join_round l l t' = None"
proof -
  obtain as where as: "list_repr l t locked as ds" "other_nodes t as = X"
      "malloc_fresh al" "malloc_total al" "finite (dom X)"
    using assms(1) by (auto simp: registry_def)
  obtain t' as' where t': "join_rounds l (length ds) t = Some t'" "list_repr l t' locked as' (drop (length ds) ds)"
      "other_nodes t' as' = other_nodes t as" "stdout t' = stdout t"
    using join_rounds_ok [OF as(1) assms(2), of "length ds"] by auto
  then have e: "list_repr l t' locked [] []" by (auto simp: list_repr_def entries_def)
  have "as' = []" using t'(2) by (auto simp: list_repr_def entries_def)
  then have "registry al l locked X t' []"
    using e t'(3) as(2-5) by (auto simp: registry_def)
  then show ?thesis using t'(1,4) join_round_empty [OF e] by blast
qed

lemma joiner_empties_then_faults_witness:
  "\<exists>s' t'. serve demo_env demo_connections demo_server = Some s' \<and> join_rounds 5 (length demo_connections) (threads s') = Some t' \<and>
     join_round 5 5 t' = None"
proof -
  obtain d where "d_writes (e_dev demo_env) (prefixes_from [] (messages demo_connections)) (device_of demo_server) = Some ([3, 5], d)"
    using demo_writes by auto
  then obtain s' where s': "serve demo_env demo_connections demo_server = Some s'"
      "registry (e_node demo_env) 5 False Map.empty (threads s') (rev (map (done_entry (fulldatas demo_server)) demo_connections) @ [])"
    using serve_ok [OF demo_env_ok demo_ready demo_short_all demo_waiting demo_server_registry] by blast
  then show ?thesis
    using joiner_empties_then_faults [OF s'(2)] by (auto simp: done_entry_def simp del: join_rounds.simps)
qed

subsection \<open>From the start to the end\<close>




text \<open>Before the start: no memory of its own; the calls of \<open>poll\<close> and \<open>accept\<close> give two connections, with a
  failing \<open>accept\<close> and an interrupted \<open>poll\<close> in between.\<close>

definition demo_process :: "(kstate \<times> struct_file) process" where
  "demo_process =
     \<lparr>srv = demo_server\<lparr>heap := Map.empty, fulldatas := Map.empty,
        threads := \<lparr>nodes = Map.empty, lls = Map.empty, mallocs = 0, stdout = []\<rparr>\<rparr>,
      signal_caught = False, handled_signals = {}, socket_fd = 0, temp_file_fd = 0, file_removed = False,
      timer_started = False, stderr = [], exit_status = None\<rparr>"




text \<open>The termination signal, at any moment between two connections, with any finished threads still
  in the list, even while its mutex is taken: everything is released and the process exits with 0; but
  before the listening thread has set the global list pointer the handler follows it into undefined
  behaviour.\<close>

theorem signal_releases_everything:
  "(lls (threads (srv P)) (linked_list (srv P)) = None \<longrightarrow> signal_handler char_dev x P = None) \<and>
   (ready (srv P) hist cap \<and> registry al (linked_list (srv P)) locked X (threads (srv P)) ds \<longrightarrow>
     (\<exists>P'. signal_handler char_dev x P = Some P' \<and> heap (srv P') = others (srv P) \<and>
        nodes (threads (srv P')) = X \<and> lls (threads (srv P')) = (lls (threads (srv P)))(linked_list (srv P) := None) \<and>
        exit_status P' = Some 0 \<and> closed_fds (srv P') = closed_fds (srv P) @ [socket_fd P, temp_file_fd P] \<and>
        file_removed P' = (if char_dev then file_removed P else x = 0)))"
  using signal_too_early [of P char_dev x] signal_handler_ok [of P hist cap al locked X ds char_dev x] by blast

lemma signal_releases_everything_witness:
  "signal_handler False 0 demo_process = None \<and>
   (\<exists>P'. signal_handler False 0 (demo_process\<lparr>srv := demo_server\<rparr>) = Some P' \<and> heap (srv P') = others demo_server)"
proof -
  have l: "lls (threads (srv demo_process)) (linked_list (srv demo_process)) = None" "linked_list demo_server = 5"
    by (simp_all add: demo_process_def demo_server_def)
  show ?thesis
    using signal_releases_everything [of demo_process False 0 "[]" 1 demo_malloc False Map.empty "[]"]
      signal_releases_everything [of "demo_process\<lparr>srv := demo_server\<rparr>" False 0 "[]" 1 demo_malloc False Map.empty "[]"]
      demo_ready demo_server_registry l by auto
qed

end
