(* ===== verification/Interleaving.thy ===== *)
theory Interleaving
  imports Socket_Threads
begin

text \<open>
  The connection handlers as threads. The steps of a handler between its calls of the mutex functions
  are atomic here: the receive phase, which works on memory of its own, the critical section of
  \<open>reply_mutex\<close>, that of \<open>file_mutex\<close>, and the report under the mutex of the list. A scheduler picks
  any thread for the next step. In every interleaving of handlers with short messages or seek commands no step is
  undefined, the replies to messages are those of a sequential execution in the order of the critical
  sections of \<open>reply_mutex\<close>, and the replies to seek commands those of a sequential execution of the
  device operations.
\<close>

subsection \<open>The steps of a handler\<close>

definition begin_handler ::
  "'d env \<Rightarrow> nat \<Rightarrow> pthread_t \<Rightarrow> byte list list \<Rightarrow> 'd server \<Rightarrow> (received \<times> 'd server) option" where
  "begin_handler E p self chunks s =
     do { let (to_write_local, s) = c_alloc (e_alloc E) (of_nat BUFFER_SIZE) s;
          s \<leftarrow> c_memset0 to_write_local BUFFER_SIZE s;
          f \<leftarrow> fulldatas s p;
          let f = f\<lparr>fd_data := (fd_data f)\<lparr>thread_id := self\<rparr>\<rparr>;
          let s = s\<lparr>fulldatas := (fulldatas s)(p \<mapsto> f)\<rparr>;
          let s = log_accept (file_descriptor (fd_data f)) (their_addr (fd_data f)) s;
          receive_loop E chunks (replicate BUFFER_SIZE 0) (of_nat BUFFER_SIZE) 0 to_write_local s }"

definition handler_fd :: "nat \<Rightarrow> 'd server \<Rightarrow> int option" where
  "handler_fd p s = map_option (\<lambda>f. file_descriptor (fd_data f)) (fulldatas s p)"

datatype phase = Start | Got received | Replied | Wrote | Ended

record 'd world =
  wsrv :: "'d server"
  phase_of :: "nat \<Rightarrow> phase"
  replied :: "nat list"         \<comment> \<open>the threads in the order of their replies\<close>
  dev_order :: "nat list"       \<comment> \<open>the threads in the order of their critical sections of \<open>file_mutex\<close>\<close>
  ended :: "nat list"           \<comment> \<open>the threads in the order of their reports\<close>

text \<open>One step of thread \<open>i\<close>; \<open>cs\<close> has the argument block, the identifier and the message of each.\<close>

definition thread_step ::
  "'d env \<Rightarrow> (nat \<times> pthread_t \<times> byte list) list \<Rightarrow> nat \<Rightarrow> 'd world \<Rightarrow> 'd world option" where
  "thread_step E cs i w =
     (case cs ! i of (p, self, m) \<Rightarrow>
      case phase_of w i of
        Start \<Rightarrow> do {
          (got, s) \<leftarrow> begin_handler E p self [m] (wsrv w);
          Some (w\<lparr>wsrv := s, phase_of := (phase_of w)(i := Got got)\<rparr>) }
      | Got (Message bsz q) \<Rightarrow> do {
          fd \<leftarrow> handler_fd p (wsrv w);
          s \<leftarrow> append_and_send E fd bsz q (wsrv w);
          Some (w\<lparr>wsrv := s, phase_of := (phase_of w)(i := Replied), replied := replied w @ [i]\<rparr>) }
      | Got (Seek buffer q) \<Rightarrow> do {
          fd \<leftarrow> handler_fd p (wsrv w);
          s \<leftarrow> answer_seek E fd buffer (wsrv w);
          s \<leftarrow> c_free q (c_close fd s);
          Some (w\<lparr>wsrv := s, phase_of := (phase_of w)(i := Wrote), dev_order := dev_order w @ [i]\<rparr>) }
      | Replied \<Rightarrow> do {
          fd \<leftarrow> handler_fd p (wsrv w);
          s \<leftarrow> write_file E (c_close fd (wsrv w));
          Some (w\<lparr>wsrv := s, phase_of := (phase_of w)(i := Wrote), dev_order := dev_order w @ [i]\<rparr>) }
      | Wrote \<Rightarrow> do {
          s \<leftarrow> report_end E p self (wsrv w);
          Some (w\<lparr>wsrv := s, phase_of := (phase_of w)(i := Ended), ended := ended w @ [i]\<rparr>) }
      | Ended \<Rightarrow> None)"

inductive reachable :: "'d env \<Rightarrow> (nat \<times> pthread_t \<times> byte list) list \<Rightarrow> 'd world \<Rightarrow> 'd world \<Rightarrow> bool"
  for E cs w0 where
  reach_start: "reachable E cs w0 w0"
| reach_step: "reachable E cs w0 w \<Longrightarrow> i < length cs \<Longrightarrow> thread_step E cs i w = Some w' \<Longrightarrow> reachable E cs w0 w'"

subsection \<open>A thread that runs alone\<close>

lemma c_realloc_server: "c_realloc al p n s = Some (q, t) \<Longrightarrow> fulldatas t = fulldatas s" for s :: "'d server"
  by (auto simp: c_realloc_def c_alloc_def Let_def bind_eq_Some_conv split: ptr.splits option.splits)

lemma receive_loop_fulldatas:
  "receive_loop E chunks buffer bsz n p s = Some (got, t) \<Longrightarrow> fulldatas t = fulldatas s"
proof (induction E chunks buffer bsz n p s rule: receive_loop.induct)
  case (2 E c cs buffer bsz n p s)
  let ?buf = "c @ drop (length c) buffer" and ?r = "of_nat (length c) :: size_t"
  show ?case
  proof (cases "c = [] \<or> is_seek_request ?buf")
    case True
    then show ?thesis using "2.prems" by (auto simp: Let_def split: if_splits)
  next
    case False
    then obtain bsz' q u h where u: "(if bsz \<le> n + ?r
        then do { (p, s) \<leftarrow> c_realloc (e_alloc E) p (bsz * 2) s; Some (bsz * 2, p, s) } else Some (bsz, p, s)) = Some (bsz', q, u)"
      "store_cells (heap u) q (unat n) (map Some (take (length c) ?buf)) = Some h"
      and run: "(if length c < BUFFER_SIZE then Some (Message bsz' q, u\<lparr>heap := h\<rparr>)
        else receive_loop E cs ?buf bsz' (n + ?r) q (u\<lparr>heap := h\<rparr>)) = Some (got, t)"
      using "2.prems" by (auto simp: Let_def bind_eq_Some_conv split: if_splits)
    have "fulldatas u = fulldatas s"
      using u(1) c_realloc_server by (fastforce simp: bind_eq_Some_conv split: if_splits)
    then show ?thesis
      using run "2.IH" [OF _ refl refl _ u(1) refl refl u(2) refl] False by (auto split: if_splits)
  qed
qed simp

text \<open>The steps of one thread in a row are the connection handler.\<close>

lemma handler_in_steps:
  "connection_handler E p self chunks s =
     do { (got, s) \<leftarrow> begin_handler E p self chunks s;
          fd \<leftarrow> handler_fd p s;
          s \<leftarrow> (case got of
                  Seek buffer q \<Rightarrow> do { s \<leftarrow> answer_seek E fd buffer s; c_free q (c_close fd s) }
                | Message bsz q \<Rightarrow> do { s \<leftarrow> append_and_send E fd bsz q s; write_file E (c_close fd s) });
          report_end E p self s }"
proof -
  obtain q t where a: "c_alloc (e_alloc E) (of_nat BUFFER_SIZE) s = (q, t)" by fastforce
  show ?thesis
  proof (cases "do { u \<leftarrow> c_memset0 q BUFFER_SIZE t; f \<leftarrow> fulldatas u p; Some (u, f) }")
    case None
    then show ?thesis
      using a by (cases "c_memset0 q BUFFER_SIZE t") (auto simp: connection_handler_def begin_handler_def bind_eq_None_conv)
  next
    case (Some uf)
    then obtain u f where u: "c_memset0 q BUFFER_SIZE t = Some u" "fulldatas u p = Some f"
      by (auto simp: bind_eq_Some_conv)
    let ?f = "f\<lparr>fd_data := (fd_data f)\<lparr>thread_id := self\<rparr>\<rparr>"
    let ?u = "(peer_logged f u)\<lparr>fulldatas := (fulldatas u)(p \<mapsto> ?f)\<rparr>"
    let ?run = "receive_loop E chunks (replicate BUFFER_SIZE 0) (of_nat BUFFER_SIZE) 0 q ?u"
    show ?thesis
    proof (cases ?run)
      case None
      then show ?thesis
        using a u by (simp add: connection_handler_def begin_handler_def Let_def del: receive_loop.simps)
    next
      case (Some r)
      obtain got v where r: "r = (got, v)" by (cases r)
      have "fulldatas v = fulldatas ?u" using receive_loop_fulldatas Some r by blast
      then have "handler_fd p v = Some (file_descriptor (fd_data f))" by (simp add: handler_fd_def)
      then show ?thesis
        using a u Some r
        by (simp add: connection_handler_def begin_handler_def Let_def del: receive_loop.simps split: received.split)
    qed
  qed
qed

subsection \<open>The invariant\<close>

abbreviation arg_of :: "(nat \<times> pthread_t \<times> byte list) list \<Rightarrow> nat \<Rightarrow> nat" where
  "arg_of cs i \<equiv> fst (cs ! i)"

abbreviation self_of :: "(nat \<times> pthread_t \<times> byte list) list \<Rightarrow> nat \<Rightarrow> pthread_t" where
  "self_of cs i \<equiv> fst (snd (cs ! i))"

abbreviation msg_of :: "(nat \<times> pthread_t \<times> byte list) list \<Rightarrow> nat \<Rightarrow> byte list" where
  "msg_of cs i \<equiv> snd (snd (cs ! i))"

abbreviation stores :: "(nat \<times> pthread_t \<times> byte list) list \<Rightarrow> nat \<Rightarrow> bool" where
  "stores cs i \<equiv> short_message (msg_of cs i)"

definition fd_of :: "(nat \<rightharpoonup> full_data) \<Rightarrow> (nat \<times> pthread_t \<times> byte list) list \<Rightarrow> nat \<Rightarrow> int" where
  "fd_of F cs i = file_descriptor (fd_data (the (F (arg_of cs i))))"

text \<open>The reply string after the replies of some threads, and the reply that one of them got.\<close>

definition history :: "(nat \<times> pthread_t \<times> byte list) list \<Rightarrow> nat list \<Rightarrow> byte list" where
  "history cs order = concat (map (msg_of cs) order)"

definition reply_to :: "(nat \<times> pthread_t \<times> byte list) list \<Rightarrow> nat list \<Rightarrow> nat \<Rightarrow> byte list" where
  "reply_to cs order i = (if i \<in> set order then history cs (takeWhile (\<lambda>j. j \<noteq> i) order @ [i]) else [])"

definition message_threads :: "(nat \<times> pthread_t \<times> byte list) list \<Rightarrow> nat list" where
  "message_threads cs = filter (stores cs) [0..<length cs]"

fun has_replied :: "phase \<Rightarrow> bool" where
  "has_replied Start = False"
| "has_replied (Got r) = False"
| "has_replied Replied = True"
| "has_replied Wrote = True"
| "has_replied Ended = True"

fun has_written :: "phase \<Rightarrow> bool" where
  "has_written Wrote = True"
| "has_written Ended = True"
| "has_written _ = False"

fun local_of :: "phase \<Rightarrow> nat option" where
  "local_of (Got (Message bsz (Ptr a))) = Some a"
| "local_of (Got (Seek buffer (Ptr a))) = Some a"
| "local_of _ = None"

text \<open>The setting: short messages that fit together, seek commands, argument blocks and connections of
  their own, a device whose operations never are undefined.\<close>

definition setting :: "'d env \<Rightarrow> ('d \<Rightarrow> bool) \<Rightarrow> nat \<Rightarrow> (nat \<rightharpoonup> full_data) \<Rightarrow> (nat \<times> pthread_t \<times> byte list) list \<Rightarrow> bool" where
  "setting E dinv l F cs \<longleftrightarrow>
     (\<exists>lim. allocator_ok lim (e_alloc E)) \<and> allocator_serves 4096 (e_alloc E) \<and> sends_all E \<and>
     (\<forall>x d. dinv d \<and> op_fits x \<longrightarrow> (\<exists>r out d'. d_op (e_dev E) x d = Some (r, out, d') \<and> dinv d')) \<and>
     (\<forall>i < length cs. (stores cs i \<or> seek_message (msg_of cs i)) \<and> (\<exists>f. F (arg_of cs i) = Some f \<and> fd_list f = l)) \<and>
     length (history cs (message_threads cs)) < 1024 \<and>
     (\<forall>i < length cs. \<forall>j < length cs. i \<noteq> j \<longrightarrow> arg_of cs i \<noteq> arg_of cs j \<and> fd_of F cs i \<noteq> fd_of F cs j)"

text \<open>What a thread has received: a message in its local block, or a request in its buffer.\<close>

definition got_ok :: "byte list \<Rightarrow> received \<Rightarrow> nat \<Rightarrow> cells \<Rightarrow> bool" where
  "got_ok m g a ca \<longleftrightarrow>
     (if short_message m then g = Message 1024 (Ptr a) \<and> string_block ca m 1024
      else \<exists>buf. g = Seek buf (Ptr a) \<and> c_string buf = m)"

definition mem_inv :: "heap \<Rightarrow> (nat \<times> pthread_t \<times> byte list) list \<Rightarrow> 'd world \<Rightarrow> bool" where
  "mem_inv X cs w \<longleftrightarrow>
     (\<exists>cap. ready (wsrv w) (history cs (replied w)) cap) \<and>
     (\<forall>i < length cs. \<forall>g. phase_of w i = Got g \<longrightarrow>
        (\<exists>a ca. others (wsrv w) a = Some ca \<and> got_ok (msg_of cs i) g a ca)) \<and>
     (\<forall>i < length cs. \<forall>j < length cs. i \<noteq> j \<longrightarrow> local_of (phase_of w i) = None \<or> local_of (phase_of w i) \<noteq> local_of (phase_of w j)) \<and>
     others (wsrv w) |` (- {a. \<exists>i < length cs. local_of (phase_of w i) = Some a}) = X"

definition order_inv :: "(nat \<times> pthread_t \<times> byte list) list \<Rightarrow> 'd world \<Rightarrow> bool" where
  "order_inv cs w \<longleftrightarrow>
     distinct (replied w) \<and> set (replied w) = {i. i < length cs \<and> stores cs i \<and> has_replied (phase_of w i)} \<and>
     distinct (dev_order w) \<and> set (dev_order w) = {i. i < length cs \<and> has_written (phase_of w i)} \<and>
     distinct (ended w) \<and> set (ended w) = {i. i < length cs \<and> phase_of w i = Ended} \<and>
     (\<forall>i < length cs. phase_of w i = Replied \<longrightarrow> stores cs i)"

definition args_inv :: "nat \<Rightarrow> (nat \<rightharpoonup> full_data) \<Rightarrow> (nat \<times> pthread_t \<times> byte list) list \<Rightarrow> 'd world \<Rightarrow> bool" where
  "args_inv l F cs w \<longleftrightarrow>
     (\<forall>i < length cs. if phase_of w i = Ended then fulldatas (wsrv w) (arg_of cs i) = None
        else \<exists>f. fulldatas (wsrv w) (arg_of cs i) = Some f \<and> fd_list f = l \<and>
          file_descriptor (fd_data f) = fd_of F cs i \<and>
          (phase_of w i \<noteq> Start \<longrightarrow> thread_id (fd_data f) = self_of cs i)) \<and>
     (\<forall>p. p \<notin> arg_of cs ` {..<length cs} \<longrightarrow> fulldatas (wsrv w) p = F p)"

definition list_inv :: "node_allocator \<Rightarrow> nat \<Rightarrow> (nat \<rightharpoonup> node) \<Rightarrow> nat \<Rightarrow> (nat \<times> pthread_t \<times> byte list) list \<Rightarrow> 'd world \<Rightarrow> bool" where
  "list_inv al l Y j0 cs w \<longleftrightarrow> join_signals (wsrv w) = j0 + length (ended w) \<and>
     (\<exists>ds. registry al l False Y (threads (wsrv w)) ds \<and> map thread_id ds = rev (map (self_of cs) (ended w)) \<and>
        (\<forall>d \<in> set ds. completion d))"

text \<open>The device operations are those of a sequential execution in the order of the critical sections: the
  one of a thread with a message writes the reply string of that moment, which has its message, and the
  one of a thread with a seek command performs its request. \<open>ns\<close> says how many threads had replied.\<close>

definition op_of :: "(nat \<times> pthread_t \<times> byte list) list \<Rightarrow> nat list \<Rightarrow> nat \<times> nat \<Rightarrow> dev_op" where
  "op_of cs order ik =
     (if stores cs (fst ik) then Dwrite (history cs (take (snd ik) order)) else Dseek (seek_arg (msg_of cs (fst ik))))"

definition dev_run ::
  "'d device \<Rightarrow> 'd \<Rightarrow> (nat \<times> pthread_t \<times> byte list) list \<Rightarrow> nat list \<Rightarrow> nat list \<Rightarrow> nat list \<Rightarrow> (int \<times> byte list) list \<Rightarrow> 'd \<Rightarrow> bool" where
  "dev_run D d0 cs order dorder ns outs d \<longleftrightarrow>
     length ns = length dorder \<and> sorted ns \<and> (\<forall>k \<in> set ns. k \<le> length order) \<and>
     (\<forall>(i, k) \<in> set (zip dorder ns). stores cs i \<longrightarrow> i \<in> set (take k order)) \<and>
     d_ops D (map (op_of cs order) (zip dorder ns)) d0 = Some (outs, d)"

definition answer_to ::
  "(nat \<times> pthread_t \<times> byte list) list \<Rightarrow> nat list \<Rightarrow> nat list \<Rightarrow> (int \<times> byte list) list \<Rightarrow> nat \<Rightarrow> byte list" where
  "answer_to cs order dorder outs i =
     (if stores cs i then reply_to cs order i
      else case map_of (zip dorder outs) i of None \<Rightarrow> [] | Some (r, out) \<Rightarrow> out)"

definition io_inv ::
  "'d device \<Rightarrow> ('d \<Rightarrow> bool) \<Rightarrow> 'd \<Rightarrow> (nat \<rightharpoonup> full_data) \<Rightarrow> (int \<Rightarrow> byte list) \<Rightarrow> (nat \<times> pthread_t \<times> byte list) list \<Rightarrow> 'd world \<Rightarrow> bool" where
  "io_inv D dinv d0 F snt cs w \<longleftrightarrow> dinv (device_of (wsrv w)) \<and>
     (\<exists>ns outs. dev_run D d0 cs (replied w) (dev_order w) ns outs (device_of (wsrv w)) \<and>
        (\<forall>i < length cs. sent (wsrv w) (fd_of F cs i) = snt (fd_of F cs i) @ answer_to cs (replied w) (dev_order w) outs i))"

definition world_inv ::
  "'d env \<Rightarrow> ('d \<Rightarrow> bool) \<Rightarrow> nat \<Rightarrow> heap \<Rightarrow> (nat \<rightharpoonup> node) \<Rightarrow> 'd \<Rightarrow> nat \<Rightarrow> (nat \<rightharpoonup> full_data) \<Rightarrow> (int \<Rightarrow> byte list) \<Rightarrow>
   (nat \<times> pthread_t \<times> byte list) list \<Rightarrow> 'd world \<Rightarrow> bool" where
  "world_inv E dinv l X Y d0 j0 F snt cs w \<longleftrightarrow> mem_inv X cs w \<and> order_inv cs w \<and> args_inv l F cs w \<and>
     list_inv (e_node E) l Y j0 cs w \<and> io_inv (e_dev E) dinv d0 F snt cs w"

text \<open>The start: nobody has begun.\<close>

definition start_world :: "'d server \<Rightarrow> 'd world" where
  "start_world s = \<lparr>wsrv = s, phase_of = (\<lambda>_. Start), replied = [], dev_order = [], ended = []\<rparr>"

lemma start_inv:
  assumes "ready s [] cap" and "setting E dinv l (fulldatas s) cs" and "registry (e_node E) l False Y (threads s) []"
    and "dinv (device_of s)"
  shows "world_inv E dinv l (others s) Y (device_of s) (join_signals s) (fulldatas s) (sent s) cs (start_world s)"
proof -
  let ?w = "start_world s"
  have "mem_inv (others s) cs ?w" using assms(1) by (auto simp: mem_inv_def start_world_def history_def restrict_map_def)
  moreover have "order_inv cs ?w" by (simp add: order_inv_def start_world_def)
  moreover have "args_inv l (fulldatas s) cs ?w"
    using assms(2) by (auto simp: args_inv_def start_world_def setting_def fd_of_def)
  moreover have "list_inv (e_node E) l Y (join_signals s) cs ?w"
    using assms(3) by (auto simp: list_inv_def start_world_def)
  moreover have "io_inv (e_dev E) dinv (device_of s) (fulldatas s) (sent s) cs ?w"
    using assms(4) by (simp add: io_inv_def start_world_def dev_run_def answer_to_def reply_to_def)
  ultimately show ?thesis by (simp add: world_inv_def)
qed

subsection \<open>Room\<close>

lemma history_append: "history cs (xs @ ys) = history cs xs @ history cs ys"
  by (simp add: history_def)

lemma length_history: "length (history cs xs) = (\<Sum>i\<leftarrow>xs. length (msg_of cs i))"
  by (simp add: history_def length_concat comp_def)

lemma history_bounded:
  assumes "distinct xs" and "set xs \<subseteq> {i. i < length cs \<and> stores cs i}"
  shows "length (history cs xs) \<le> length (history cs (message_threads cs))"
proof -
  have "(\<Sum>i\<leftarrow>xs. length (msg_of cs i)) = (\<Sum>i \<in> set xs. length (msg_of cs i))"
    using assms(1) by (simp add: sum_list_distinct_conv_sum_set)
  also have "\<dots> \<le> (\<Sum>i \<in> set (message_threads cs). length (msg_of cs i))"
    using assms(2) by (intro sum_mono2) (auto simp: message_threads_def)
  also have "\<dots> = (\<Sum>i\<leftarrow>message_threads cs. length (msg_of cs i))"
    by (subst sum_list_distinct_conv_sum_set) (simp_all add: message_threads_def)
  finally show ?thesis by (simp only: length_history)
qed

lemma history_short:
  assumes "setting E dinv l F cs" and "order_inv cs w"
  shows "length (history cs (replied w)) < 1024"
proof -
  have "length (history cs (replied w)) \<le> length (history cs (message_threads cs))"
    using assms(2) by (intro history_bounded) (auto simp: order_inv_def)
  then show ?thesis using assms(1) by (simp add: setting_def)
qed

lemma room:
  assumes "setting E dinv l F cs" and "order_inv cs w" and "i < length cs" "stores cs i" "\<not> has_replied (phase_of w i)"
  shows "length (history cs (replied w)) + length (msg_of cs i) < 1024"
proof -
  have "length (history cs (replied w @ [i])) \<le> length (history cs (message_threads cs))"
    using assms(2-5) by (intro history_bounded) (auto simp: order_inv_def)
  then show ?thesis using assms(1) by (simp add: history_append setting_def) (simp add: history_def)
qed

subsection \<open>The parts of the invariant under a step\<close>

lemma mem_invI:
  assumes "ready (wsrv w) (history cs (replied w)) cap"
    and "\<And>i g. i < length cs \<Longrightarrow> phase_of w i = Got g \<Longrightarrow> \<exists>a ca. others (wsrv w) a = Some ca \<and> got_ok (msg_of cs i) g a ca"
    and "\<And>i j. i < length cs \<Longrightarrow> j < length cs \<Longrightarrow> i \<noteq> j \<Longrightarrow>
      local_of (phase_of w i) = None \<or> local_of (phase_of w i) \<noteq> local_of (phase_of w j)"
    and "others (wsrv w) |` (- {a. \<exists>i < length cs. local_of (phase_of w i) = Some a}) = X"
  shows "mem_inv X cs w"
  using assms unfolding mem_inv_def by blast

lemma mem_inv_got:
  assumes "mem_inv X cs w" and "i < length cs" and "phase_of w i = Got g"
  shows "\<exists>a ca. others (wsrv w) a = Some ca \<and> got_ok (msg_of cs i) g a ca"
  using assms unfolding mem_inv_def by blast

lemma got_ok_local: "got_ok m g a ca \<Longrightarrow> local_of (Got g) = Some a"
  by (auto simp: got_ok_def split: if_splits)

lemma mem_inv_local:
  assumes "mem_inv X cs w" and "i < length cs" and "local_of (phase_of w i) = Some a"
  shows "others (wsrv w) a \<noteq> None"
proof -
  obtain g where g: "phase_of w i = Got g" using assms(3) by (cases "phase_of w i") auto
  then show ?thesis using mem_inv_got [OF assms(1,2) g] got_ok_local assms(3) by fastforce
qed

lemma mem_inv_rest:
  assumes "mem_inv X cs w"
  shows "others (wsrv w) |` (- {a. \<exists>i < length cs. local_of (phase_of w i) = Some a}) = X"
    and "i < length cs \<Longrightarrow> j < length cs \<Longrightarrow> i \<noteq> j \<Longrightarrow>
      local_of (phase_of w i) = None \<or> local_of (phase_of w i) \<noteq> local_of (phase_of w j)"
  using assms unfolding mem_inv_def by blast+

text \<open>A thread gets its local block, or releases it.\<close>

lemma mem_inv_acquire:
  assumes mi: "mem_inv X cs w" and i: "i < length cs" "phase_of w i = Start"
    and r: "ready s' (history cs (replied w)) cap" and o: "others s' = (others (wsrv w))(a \<mapsto> ca)" "others (wsrv w) a = None"
    and g: "got_ok (msg_of cs i) g a ca"
  shows "mem_inv X cs (w\<lparr>wsrv := s', phase_of := (phase_of w)(i := Got g)\<rparr>)" (is "mem_inv X cs ?w")
proof (rule mem_invI [where cap = cap])
  let ?s = "wsrv w"
  have fresh: "local_of (phase_of w j) \<noteq> Some a" if "j < length cs" for j
    using mem_inv_local [OF mi that] o(2) by auto
  note la = got_ok_local [OF g]
  show "ready (wsrv ?w) (history cs (replied ?w)) cap" using r by simp
  show "\<exists>x cx. others (wsrv ?w) x = Some cx \<and> got_ok (msg_of cs j) h x cx" if j: "j < length cs" "phase_of ?w j = Got h" for j h
  proof (cases "j = i")
    case True
    then show ?thesis using j g o(1) by (intro exI [of _ a] exI [of _ ca]) simp
  next
    case False
    then obtain x cx where x: "others ?s x = Some cx" "got_ok (msg_of cs j) h x cx"
      using mem_inv_got [OF mi j(1), of h] j(2) by auto
    then have "x \<noteq> a" using o(2) by auto
    then show ?thesis using x o(1) by auto
  qed
  show "local_of (phase_of ?w j) = None \<or> local_of (phase_of ?w j) \<noteq> local_of (phase_of ?w k)"
    if jk: "j < length cs" "k < length cs" "j \<noteq> k" for j k
    using mem_inv_rest(2) [OF mi jk] fresh [OF jk(1)] fresh [OF jk(2)] jk(3) la by (auto simp: eq_commute [of "Some a"])
  have locs: "{x. \<exists>j < length cs. local_of (phase_of ?w j) = Some x} =
      insert a {x. \<exists>j < length cs. local_of (phase_of w j) = Some x}"
    using i la by auto (metis local_of.simps(3) option.distinct(1))
  note X = mem_inv_rest(1) [OF mi]
  have "others (wsrv ?w) = (others ?s)(a \<mapsto> ca)" using o(1) by simp
  then show "others (wsrv ?w) |` (- {x. \<exists>j < length cs. local_of (phase_of ?w j) = Some x}) = X"
    unfolding locs by (subst X [symmetric]) (auto simp: restrict_map_def fun_eq_iff o(2))
qed

lemma mem_inv_release:
  assumes mi: "mem_inv X cs w" and i: "i < length cs" "phase_of w i = Got g" "local_of (phase_of w i) = Some a"
    and r: "ready s' (history cs (replied w')) cap" and o: "others s' = others (wsrv w) |` (- {a})"
    and w': "wsrv w' = s'" "phase_of w' = (phase_of w)(i := ph)" and ph: "\<And>g. ph \<noteq> Got g"
  shows "mem_inv X cs w'"
proof (rule mem_invI [where cap = cap])
  have other: "local_of (phase_of w j) \<noteq> Some a" if "j < length cs" "j \<noteq> i" for j
    using mem_inv_rest(2) [OF mi i(1) that(1)] that(2) i(3) by auto
  have lph: "local_of ph = None" using ph by (cases ph) auto
  show "ready (wsrv w') (history cs (replied w')) cap" using r w'(1) by simp
  show "\<exists>x cx. others (wsrv w') x = Some cx \<and> got_ok (msg_of cs j) h x cx" if j: "j < length cs" "phase_of w' j = Got h" for j h
  proof -
    have ji: "j \<noteq> i" "phase_of w j = Got h" using j(2) ph w'(2) by (auto split: if_splits)
    obtain x cx where x: "others (wsrv w) x = Some cx" "got_ok (msg_of cs j) h x cx"
      using mem_inv_got [OF mi j(1) ji(2)] by blast
    have "x \<noteq> a" using other [OF j(1) ji(1)] ji(2) got_ok_local [OF x(2)] by auto
    then show ?thesis using x o w'(1) by (intro exI [of _ x] exI [of _ cx]) simp
  qed
  show "local_of (phase_of w' j) = None \<or> local_of (phase_of w' j) \<noteq> local_of (phase_of w' k)"
    if jk: "j < length cs" "k < length cs" "j \<noteq> k" for j k
    using mem_inv_rest(2) [OF mi jk] jk(3) lph unfolding w'(2) by auto
  have locs: "{x. \<exists>j < length cs. local_of (phase_of w' j) = Some x} =
      {x. \<exists>j < length cs. local_of (phase_of w j) = Some x} - {a}"
    using i other lph unfolding w'(2) by (auto split: if_splits) (metis option.inject)
  have "(others (wsrv w) |` (- {a})) |` (- ({x. \<exists>j < length cs. local_of (phase_of w j) = Some x} - {a})) =
      others (wsrv w) |` (- {x. \<exists>j < length cs. local_of (phase_of w j) = Some x})"
    using i(1,3) by (auto simp: restrict_map_def fun_eq_iff)
  then show "others (wsrv w') |` (- {x. \<exists>j < length cs. local_of (phase_of w' j) = Some x}) = X"
    unfolding locs w'(1) o by (simp only: mem_inv_rest(1) [OF mi])
qed

lemma mem_inv_step:
  assumes "mem_inv X cs w" and "ready s' (history cs (replied w)) cap" and "others s' = others (wsrv w)"
    and "\<And>g. phase_of w i \<noteq> Got g" "\<And>g. ph \<noteq> Got g"
    and "wsrv w' = s'" "phase_of w' = (phase_of w)(i := ph)" "replied w' = replied w"
  shows "mem_inv X cs w'"
proof -
  have l: "local_of (phase_of w' j) = local_of (phase_of w j)" for j
    using assms(4,5,7) by (cases ph; cases "phase_of w i") auto
  have g: "phase_of w' j = Got g \<longleftrightarrow> phase_of w j = Got g" for j g
    using assms(4,5,7) by auto
  show ?thesis
    using assms(1-3,6,8) unfolding mem_inv_def l g by auto
qed

text \<open>The device operations and the replies.\<close>

lemma io_invE:
  assumes "io_inv D dinv d0 F snt cs w"
  obtains ns outs where "dev_run D d0 cs (replied w) (dev_order w) ns outs (device_of (wsrv w))"
    and "\<And>i. i < length cs \<Longrightarrow> sent (wsrv w) (fd_of F cs i) = snt (fd_of F cs i) @ answer_to cs (replied w) (dev_order w) outs i"
    and "dinv (device_of (wsrv w))"
  using assms unfolding io_inv_def by blast

lemma io_inv_frame:
  assumes "io_inv D dinv d0 F snt cs w"
    and "device_of (wsrv w') = device_of (wsrv w)" "sent (wsrv w') = sent (wsrv w)" "replied w' = replied w" "dev_order w' = dev_order w"
  shows "io_inv D dinv d0 F snt cs w'"
  using assms by (simp add: io_inv_def)

lemma reply_to_snoc:
  assumes "j \<notin> set order"
  shows "reply_to cs (order @ [j]) i = (if i = j then history cs (order @ [j]) else reply_to cs order i)"
proof -
  have "takeWhile (\<lambda>k. k \<noteq> j) order = order" using assms by (auto simp: takeWhile_eq_all_conv)
  moreover have "i \<in> set order \<Longrightarrow> takeWhile (\<lambda>k. k \<noteq> i) (order @ [j]) = takeWhile (\<lambda>k. k \<noteq> i) order"
    by (auto intro: takeWhile_append1)
  ultimately show ?thesis by (auto simp: reply_to_def takeWhile_append)
qed

lemma dev_run_reply:
  assumes "dev_run D d0 cs order dorder ns outs d"
  shows "dev_run D d0 cs (order @ [i]) dorder ns outs d"
proof -
  have n: "n \<le> length order" if "(j, n) \<in> set (zip dorder ns)" for j n
    using assms set_zip_rightD [OF that] by (simp add: dev_run_def)
  then have "map (op_of cs (order @ [i])) (zip dorder ns) = map (op_of cs order) (zip dorder ns)"
    by (intro map_cong refl) (auto simp: op_of_def)
  moreover have "\<forall>(j, n) \<in> set (zip dorder ns). stores cs j \<longrightarrow> j \<in> set (take n (order @ [i]))"
    using assms unfolding dev_run_def by fastforce
  moreover have "\<forall>n \<in> set ns. n \<le> length (order @ [i])" using assms by (auto simp: dev_run_def)
  ultimately show ?thesis using assms unfolding dev_run_def by (simp only: simp_thms)
qed

lemma io_inv_reply:
  assumes io: "io_inv D dinv d0 F snt cs w" and i: "i < length cs" "stores cs i" "i \<notin> set (replied w)"
    and fds: "\<And>j. j < length cs \<Longrightarrow> j \<noteq> i \<Longrightarrow> fd_of F cs j \<noteq> fd_of F cs i"
    and w': "replied w' = replied w @ [i]" "dev_order w' = dev_order w" "device_of (wsrv w') = device_of (wsrv w)"
      "sent (wsrv w') = (sent (wsrv w))(fd_of F cs i := sent (wsrv w) (fd_of F cs i) @ history cs (replied w @ [i]))"
  shows "io_inv D dinv d0 F snt cs w'"
proof -
  obtain ns outs where r: "dev_run D d0 cs (replied w) (dev_order w) ns outs (device_of (wsrv w))" "dinv (device_of (wsrv w))"
    and s: "\<And>i. i < length cs \<Longrightarrow> sent (wsrv w) (fd_of F cs i) = snt (fd_of F cs i) @ answer_to cs (replied w) (dev_order w) outs i"
    using io_invE [OF io] by metis
  have "sent (wsrv w') (fd_of F cs j) = snt (fd_of F cs j) @ answer_to cs (replied w') (dev_order w') outs j"
    if j: "j < length cs" for j
  proof (cases "j = i")
    case True
    then show ?thesis
      using s [OF i(1)] i(2,3) by (simp add: w' answer_to_def reply_to_snoc) (simp add: reply_to_def)
  next
    case False
    then show ?thesis
      using s [OF j] fds [OF j False] i(3) by (simp add: w' answer_to_def reply_to_snoc)
  qed
  then show ?thesis
    using dev_run_reply [OF r(1), of i] r(2) unfolding io_inv_def w'(1-3) by blast
qed

lemma io_inv_op:
  assumes io: "io_inv D dinv d0 F snt cs w" and i: "i < length cs" "i \<notin> set (dev_order w)" "stores cs i \<Longrightarrow> i \<in> set (replied w)"
    and op: "d_op D (op_of cs (replied w) (i, length (replied w))) (device_of (wsrv w)) = Some (r, out, d)" "dinv d"
    and fds: "\<And>j. j < length cs \<Longrightarrow> j \<noteq> i \<Longrightarrow> fd_of F cs j \<noteq> fd_of F cs i"
    and w': "replied w' = replied w" "dev_order w' = dev_order w @ [i]" "device_of (wsrv w') = d"
      "sent (wsrv w') = (if stores cs i then sent (wsrv w) else (sent (wsrv w))(fd_of F cs i := sent (wsrv w) (fd_of F cs i) @ out))"
  shows "io_inv D dinv d0 F snt cs w'"
proof -
  obtain ns outs where run: "dev_run D d0 cs (replied w) (dev_order w) ns outs (device_of (wsrv w))"
    and s: "\<And>i. i < length cs \<Longrightarrow> sent (wsrv w) (fd_of F cs i) = snt (fd_of F cs i) @ answer_to cs (replied w) (dev_order w) outs i"
    using io_invE [OF io] by metis
  have len: "length ns = length (dev_order w)" "sorted ns" "\<forall>k \<in> set ns. k \<le> length (replied w)"
    and ops: "d_ops D (map (op_of cs (replied w)) (zip (dev_order w) ns)) d0 = Some (outs, device_of (wsrv w))"
    and own: "\<forall>(i, k) \<in> set (zip (dev_order w) ns). stores cs i \<longrightarrow> i \<in> set (take k (replied w))"
    using run by (auto simp: dev_run_def)
  have lo: "length outs = length (dev_order w)" using length_d_ops [OF ops] len(1) by simp
  have "dev_run D d0 cs (replied w) (dev_order w @ [i]) (ns @ [length (replied w)]) (outs @ [(r, out)]) d"
    using len own i(3) d_ops_snoc [OF ops op(1)] unfolding dev_run_def by (auto simp: sorted_append)
  moreover have "sent (wsrv w') (fd_of F cs j) = snt (fd_of F cs j) @ answer_to cs (replied w) (dev_order w @ [i]) (outs @ [(r, out)]) j"
    if j: "j < length cs" for j
  proof (cases "j = i")
    case True
    have none: "map_of (zip (dev_order w) outs) i = None" using i(2) lo by (simp add: map_of_zip_is_None)
    then show ?thesis
      using s [OF i(1)] lo True by (simp add: none w'(4) answer_to_def map_add_def)
  next
    case False
    then show ?thesis
      using s [OF j] fds [OF j False] lo False by (auto simp: w'(4) answer_to_def map_add_def split: option.split dest!: map_of_SomeD dest: set_zip_leftD)
  qed
  ultimately show ?thesis using op(2) unfolding io_inv_def w'(1-3) by blast
qed

text \<open>The orders.\<close>

lemma order_inv_same:
  assumes "order_inv cs w" and "phase_of w i = Start" "phase_of w' = (phase_of w)(i := Got g)"
    and "replied w' = replied w" "dev_order w' = dev_order w" "ended w' = ended w"
  shows "order_inv cs w'"
proof -
  have "has_replied (phase_of w' j) = has_replied (phase_of w j)" "has_written (phase_of w' j) = has_written (phase_of w j)"
    "(phase_of w' j = Ended) = (phase_of w j = Ended)" "phase_of w' j = Replied \<Longrightarrow> phase_of w j = Replied" for j
    using assms(2,3) by (simp_all split: if_splits)
  then show ?thesis using assms(1,4-6) unfolding order_inv_def by simp
qed

lemma world_invD:
  assumes "world_inv E dinv l X Y d0 j0 F snt cs w"
  shows "mem_inv X cs w" and "order_inv cs w" and "args_inv l F cs w" and "list_inv (e_node E) l Y j0 cs w"
    and "io_inv (e_dev E) dinv d0 F snt cs w" and "\<exists>cap. ready (wsrv w) (history cs (replied w)) cap"
  using assms by (simp_all add: world_inv_def mem_inv_def)

subsection \<open>The receive phase\<close>

lemma begin_ok:
  assumes al: "allocator_ok lim (e_alloc E)" "allocator_serves 4096 (e_alloc E)" and fin: "finite (dom (heap s))"
    and m: "short_message m \<or> seek_message m" and f: "fulldatas s p = Some f"
  shows "\<exists>g a ca. begin_handler E p self [m] s = Some (g, (peer_logged f s)\<lparr>heap := (heap s)(a \<mapsto> ca), calls := Suc (calls s),
      fulldatas := (fulldatas s)(p \<mapsto> f\<lparr>fd_data := (fd_data f)\<lparr>thread_id := self\<rparr>\<rparr>)\<rparr>) \<and>
    heap s a = None \<and> got_ok m g a ca"
proof -
  obtain a t where a: "c_alloc (e_alloc E) 1024 s = (Ptr a, t)" "heap s a = None"
      "c_memset0 (Ptr a) 1024 t = Some (s\<lparr>heap := (heap s)(a \<mapsto> replicate 1024 (Some 0)), calls := Suc (calls s)\<rparr>)"
    using local_buffer [OF al fin] by blast
  let ?s1 = "(peer_logged f s)\<lparr>heap := (heap s)(a \<mapsto> replicate 1024 (Some 0)), calls := Suc (calls s),
      fulldatas := (fulldatas s)(p \<mapsto> f\<lparr>fd_data := (fd_data f)\<lparr>thread_id := self\<rparr>\<rparr>)\<rparr>"
  have "\<exists>g ca. receive_loop E [m] (replicate 1024 0) 1024 0 (Ptr a) ?s1 = Some (g, ?s1\<lparr>heap := (heap ?s1)(a \<mapsto> ca)\<rparr>) \<and> got_ok m g a ca"
  proof (cases "short_message m")
    case True
    then obtain ca where "receive_loop E [m] (replicate 1024 0) 1024 0 (Ptr a) ?s1 =
        Some (Message 1024 (Ptr a), ?s1\<lparr>heap := (heap ?s1)(a \<mapsto> ca)\<rparr>)" "string_block ca m 1024"
      using receive_short [of m ?s1 a E "[]"] by (auto simp: short_message_def)
    then show ?thesis using True unfolding got_ok_def by (intro exI [of _ "Message 1024 (Ptr a)"] exI [of _ ca]) simp
  next
    case False
    then have sm: "m \<noteq> []" "length m < 1024" "0 \<notin> set m" "strstr m AESD_IOCTL_STR"
      using m by (simp_all add: seek_message_def)
    let ?buf = "m @ drop (length m) (replicate 1024 0)"
    have "?s1\<lparr>heap := (heap ?s1)(a \<mapsto> replicate 1024 (Some 0))\<rparr> = ?s1" by simp
    then have "receive_loop E [m] (replicate 1024 0) 1024 0 (Ptr a) ?s1 =
        Some (Seek ?buf (Ptr a), ?s1\<lparr>heap := (heap ?s1)(a \<mapsto> replicate 1024 (Some 0))\<rparr>)"
      using receive_request [of m "replicate 1024 0" E "[]" 1024 0 "Ptr a" ?s1] request_buffer(2) [OF sm(2,3,4)] sm(1) by simp
    then show ?thesis
      using False request_buffer(1) [OF sm(2,3)] unfolding got_ok_def
      by (intro exI [of _ "Seek ?buf (Ptr a)"] exI [of _ "replicate 1024 (Some 0)"]) simp
  qed
  then obtain g ca where g: "receive_loop E [m] (replicate 1024 0) 1024 0 (Ptr a) ?s1 = Some (g, ?s1\<lparr>heap := (heap ?s1)(a \<mapsto> ca)\<rparr>)"
    "got_ok m g a ca"
    by blast
  show ?thesis
    using a f g by (intro exI [of _ g] exI [of _ a] exI [of _ ca]) (simp add: begin_handler_def Let_def del: receive_loop.simps)
qed

lemma step_receive:
  assumes S: "setting E dinv l F cs" and inv: "world_inv E dinv l X Y d0 j0 F snt cs w"
    and i: "i < length cs" "phase_of w i = Start"
  shows "\<exists>w'. thread_step E cs i w = Some w' \<and> world_inv E dinv l X Y d0 j0 F snt cs w'"
proof -
  let ?s = "wsrv w" and ?h = "history cs (replied w)"
  note defs = world_invD [OF inv]
  obtain cap where r: "ready ?s ?h cap" using defs(6) by blast
  then have fin: "finite (dom (heap ?s))" by (simp add: ready_def)
  obtain f where f: "fulldatas ?s (arg_of cs i) = Some f" "fd_list f = l" "file_descriptor (fd_data f) = fd_of F cs i"
    using defs(3) i by (auto simp: args_inv_def split: if_splits)
  obtain lim where al: "allocator_ok lim (e_alloc E)" "allocator_serves 4096 (e_alloc E)"
    and m: "stores cs i \<or> seek_message (msg_of cs i)"
    using S i by (auto simp: setting_def)
  let ?f = "f\<lparr>fd_data := (fd_data f)\<lparr>thread_id := self_of cs i\<rparr>\<rparr>"
  obtain g a ca where st: "begin_handler E (arg_of cs i) (self_of cs i) [msg_of cs i] ?s =
      Some (g, (peer_logged f ?s)\<lparr>heap := (heap ?s)(a \<mapsto> ca), calls := Suc (calls ?s),
        fulldatas := (fulldatas ?s)(arg_of cs i \<mapsto> ?f)\<rparr>)" (is "_ = Some (_, ?s')")
    and a: "heap ?s a = None" "got_ok (msg_of cs i) g a ca"
    using begin_ok [OF al fin m f(1)] by blast
  let ?w = "w\<lparr>wsrv := ?s', phase_of := (phase_of w)(i := Got g)\<rparr>"
  have step: "thread_step E cs i w = Some ?w" using st i(2) by (simp add: thread_step_def split_beta)
  obtain b cb where "to_write ?s = Ptr b" "heap ?s b = Some cb" using r by (auto simp: ready_def string_at_def)
  then have b: "to_write ?s = Ptr b" "b \<noteq> a" using a(1) by auto
  have o: "others ?s' = (others ?s)(a \<mapsto> ca)" using b by (intro ext) (simp add: others_def restrict_map_def)
  have oa: "others ?s a = None" using a(1) b by (simp add: others_def restrict_map_def)
  have r': "ready ?s' ?h cap" using r a(1) by (auto simp: ready_def string_at_def)
  have "mem_inv X cs ?w" by (rule mem_inv_acquire [OF defs(1) i r' o oa a(2)])
  moreover have "order_inv cs ?w" by (rule order_inv_same [OF defs(2) i(2)]) simp_all
  moreover have "args_inv l F cs ?w"
    using defs(3) i f S by (auto simp: args_inv_def setting_def)
  moreover have "list_inv (e_node E) l Y j0 cs ?w" using defs(4) by (simp add: list_inv_def)
  moreover have "io_inv (e_dev E) dinv d0 F snt cs ?w" by (rule io_inv_frame [OF defs(5)]) simp_all
  ultimately have "world_inv E dinv l X Y d0 j0 F snt cs ?w" unfolding world_inv_def by (intro conjI)
  then show ?thesis using step by (intro exI [of _ ?w] conjI)
qed

subsection \<open>The critical section of the reply\<close>

lemma step_reply:
  assumes S: "setting E dinv l F cs" and inv: "world_inv E dinv l X Y d0 j0 F snt cs w"
    and i: "i < length cs" "phase_of w i = Got g" and m: "stores cs i"
  shows "\<exists>w'. thread_step E cs i w = Some w' \<and> world_inv E dinv l X Y d0 j0 F snt cs w'"
proof -
  let ?s = "wsrv w" and ?h = "history cs (replied w)" and ?m = "msg_of cs i" and ?fd = "fd_of F cs i"
  note defs = world_invD [OF inv]
  obtain cap where r: "ready ?s ?h cap" using defs(6) by blast
  obtain f where f: "fulldatas ?s (arg_of cs i) = Some f" "file_descriptor (fd_data f) = ?fd"
    using defs(3) i by (auto simp: args_inv_def split: if_splits)
  obtain a ca where a: "g = Message 1024 (Ptr a)" "others ?s a = Some ca" "string_block ca ?m 1024"
    using mem_inv_got [OF defs(1) i] m by (auto simp: got_ok_def)
  have ha: "heap ?s a = Some ca" "to_write ?s \<noteq> Ptr a"
    using a(2) by (auto simp: others_def restrict_map_def split: ptr.splits if_splits)
  obtain lim where al: "allocator_ok lim (e_alloc E)" "allocator_serves 4096 (e_alloc E)" and sa: "sends_all E"
    using S by (auto simp: setting_def)
  have "length ?h + length ?m < 1024" using room [OF S defs(2) i(1) m] i(2) by simp
  then have rm: "length ?h + length ?m < new_cap ?h cap" by (simp add: new_cap_def)
  obtain b h c k where ap: "append_and_send E ?fd 1024 (Ptr a) ?s =
      Some (?s\<lparr>heap := h, calls := c, to_write := Ptr b,
        sent := (sent ?s)(?fd := sent ?s ?fd @ take (nat (e_send E k (length (?h @ ?m)))) (?h @ ?m))\<rparr>)" (is "_ = Some ?s'")
    and r': "ready (?s\<lparr>heap := h, to_write := Ptr b\<rparr>) (?h @ ?m) (new_cap ?h cap)"
    and o: "h |` (- {b}) = others ?s |` (- {a})"
    using append_and_send_ok [OF al r ha(1) a(3) ha(2) rm, of ?fd] by blast
  let ?w = "w\<lparr>wsrv := ?s', phase_of := (phase_of w)(i := Replied), replied := replied w @ [i]\<rparr>"
  have step: "thread_step E cs i w = Some ?w"
    using ap f i(2) a(1) by (simp add: thread_step_def split_beta handler_fd_def del: fun_upd_apply)
  have hi: "history cs (replied w @ [i]) = ?h @ ?m" by (simp add: history_def)
  have o': "others ?s' = others ?s |` (- {a})" using o by (simp add: others_def)
  have nr: "i \<notin> set (replied w)" using defs(2) i(2) by (simp add: order_inv_def)
  have r'': "ready ?s' (history cs (replied ?w)) (new_cap ?h cap)" using r' hi by (simp add: ready_def string_at_def)
  have la: "local_of (phase_of w i) = Some a" using i(2) a(1) by simp
  have "mem_inv X cs ?w" by (rule mem_inv_release [OF defs(1) i la r'' o', where ph = Replied]) simp_all
  moreover have "order_inv cs ?w"
  proof -
    have "{j. j < length cs \<and> stores cs j \<and> has_replied (phase_of ?w j)} =
        insert i {j. j < length cs \<and> stores cs j \<and> has_replied (phase_of w j)}"
      "{j. j < length cs \<and> has_written (phase_of ?w j)} = {j. j < length cs \<and> has_written (phase_of w j)}"
      "{j. j < length cs \<and> phase_of ?w j = Ended} = {j. j < length cs \<and> phase_of w j = Ended}"
      using i m by auto
    then show ?thesis using defs(2) nr m unfolding order_inv_def by simp
  qed
  moreover have "args_inv l F cs ?w" using defs(3) i by (auto simp: args_inv_def)
  moreover have "list_inv (e_node E) l Y j0 cs ?w" using defs(4) by (simp add: list_inv_def)
  moreover have "io_inv (e_dev E) dinv d0 F snt cs ?w"
  proof (rule io_inv_reply [OF defs(5) i(1) m nr])
    show "fd_of F cs j \<noteq> ?fd" if "j < length cs" "j \<noteq> i" for j
      using S i(1) that by (auto simp: setting_def)
    have "take (nat (e_send E k (length (?h @ ?m)))) (?h @ ?m) = ?h @ ?m" using sa by (simp add: sends_all_def)
    then show "sent (wsrv ?w) = (sent ?s)(?fd := sent ?s ?fd @ history cs (replied w @ [i]))"
      unfolding hi by (simp del: take_append)
  qed simp_all
  ultimately have "world_inv E dinv l X Y d0 j0 F snt cs ?w" unfolding world_inv_def by (intro conjI)
  then show ?thesis using step by (intro exI [of _ ?w] conjI)
qed

subsection \<open>The critical sections of the device\<close>

lemma order_inv_op:
  assumes "order_inv cs w" and i: "i < length cs" "\<not> has_written (phase_of w i)" "stores cs i = has_replied (phase_of w i)"
    and "phase_of w' = (phase_of w)(i := Wrote)" "replied w' = replied w" "dev_order w' = dev_order w @ [i]" "ended w' = ended w"
  shows "order_inv cs w'"
proof -
  have "{j. j < length cs \<and> stores cs j \<and> has_replied (phase_of w' j)} = {j. j < length cs \<and> stores cs j \<and> has_replied (phase_of w j)}"
    "{j. j < length cs \<and> has_written (phase_of w' j)} = insert i {j. j < length cs \<and> has_written (phase_of w j)}"
    "{j. j < length cs \<and> phase_of w' j = Ended} = {j. j < length cs \<and> phase_of w j = Ended}"
    using i unfolding assms(5) by auto
  moreover have "i \<notin> set (dev_order w)" using assms(1) i(2) by (simp add: order_inv_def)
  ultimately show ?thesis using assms(1,5-8) unfolding order_inv_def by simp
qed

lemma step_seek:
  assumes S: "setting E dinv l F cs" and inv: "world_inv E dinv l X Y d0 j0 F snt cs w"
    and i: "i < length cs" "phase_of w i = Got g" and m: "\<not> stores cs i"
  shows "\<exists>w'. thread_step E cs i w = Some w' \<and> world_inv E dinv l X Y d0 j0 F snt cs w'"
proof -
  let ?s = "wsrv w" and ?h = "history cs (replied w)" and ?m = "msg_of cs i" and ?fd = "fd_of F cs i"
  note defs = world_invD [OF inv]
  obtain cap where r: "ready ?s ?h cap" using defs(6) by blast
  obtain f where f: "fulldatas ?s (arg_of cs i) = Some f" "file_descriptor (fd_data f) = ?fd"
    using defs(3) i by (auto simp: args_inv_def split: if_splits)
  obtain a ca buf where a: "g = Seek buf (Ptr a)" "others ?s a = Some ca" "c_string buf = ?m"
    using mem_inv_got [OF defs(1) i] m by (auto simp: got_ok_def)
  obtain b where b: "to_write ?s = Ptr b" "heap ?s a = Some ca" "a \<noteq> b"
    using a(2) r by (auto simp: others_def restrict_map_def ready_def string_at_def split: if_splits)
  have sm: "seek_message ?m" using S i(1) m by (auto simp: setting_def)
  obtain nitems cmd off where scan: "sscanf_seekto (c_string buf) = Some (nitems, cmd, off)"
    using sm a(3) by (auto simp: seek_message_def)
  have arg: "seek_arg ?m = \<lparr>write_cmd = word_of_int cmd, write_cmd_offset = word_of_int off\<rparr>"
    using scan a(3) by (simp add: seek_arg_def)
  have di: "dinv (device_of ?s)" using defs(5) by (simp add: io_inv_def)
  have "op_fits (Dseek (seek_arg ?m))" by simp
  then obtain x out d where op: "d_op (e_dev E) (Dseek (seek_arg ?m)) (device_of ?s) = Some (x, out, d)" "dinv d"
    using S di unfolding setting_def by meson
  have sa: "sends_all E" using S by (simp add: setting_def)
  obtain k snt' where an: "answer_seek E ?fd buf ?s = Some (?s\<lparr>device_of := d, sent := snt', calls := k\<rparr>)"
    and snt: "snt' = (sent ?s)(?fd := sent ?s ?fd @ out)"
    using answer_seek_ok [OF scan _ op(1) [unfolded arg], of ?fd] r sa by (auto simp: ready_def)
  let ?s1 = "c_close ?fd (?s\<lparr>device_of := d, sent := snt', calls := k\<rparr>)"
  let ?s' = "?s1\<lparr>heap := (heap ?s)(a := None)\<rparr>"
  have fr: "c_free (Ptr a) ?s1 = Some ?s'" using b(2) by (simp add: c_free_def c_close_def)
  let ?w = "w\<lparr>wsrv := ?s', phase_of := (phase_of w)(i := Wrote), dev_order := dev_order w @ [i]\<rparr>"
  have step: "thread_step E cs i w = Some ?w"
    using an fr f i(2) a(1) by (simp add: thread_step_def split_beta handler_fd_def del: fun_upd_apply)
  have o': "others ?s' = others ?s |` (- {a})"
    using b by (auto simp: others_def c_close_def restrict_map_def fun_eq_iff)
  have "ready ?s' ?h cap" using r b by (auto simp: ready_def string_at_def c_close_def)
  then have r'': "ready ?s' (history cs (replied ?w)) cap" by simp
  have la: "local_of (phase_of w i) = Some a" using i(2) a(1) by simp
  have "mem_inv X cs ?w" by (rule mem_inv_release [OF defs(1) i la r'' o', where ph = Wrote]) simp_all
  moreover have "order_inv cs ?w" by (rule order_inv_op [OF defs(2) i(1)]) (simp_all add: i m)
  moreover have "args_inv l F cs ?w" using defs(3) i by (auto simp: args_inv_def c_close_def)
  moreover have "list_inv (e_node E) l Y j0 cs ?w" using defs(4) by (simp add: list_inv_def c_close_def)
  moreover have "io_inv (e_dev E) dinv d0 F snt cs ?w"
  proof (rule io_inv_op [OF defs(5) i(1)])
    show "i \<notin> set (dev_order w)" using defs(2) i(2) by (simp add: order_inv_def)
    show "stores cs i \<Longrightarrow> i \<in> set (replied w)" using m by simp
    show "d_op (e_dev E) (op_of cs (replied w) (i, length (replied w))) (device_of ?s) = Some (x, out, d)"
      using op(1) m by (simp add: op_of_def)
    show "fd_of F cs j \<noteq> ?fd" if "j < length cs" "j \<noteq> i" for j
      using S i(1) that by (auto simp: setting_def)
  qed (simp_all add: op(2) m snt c_close_def)
  ultimately have "world_inv E dinv l X Y d0 j0 F snt cs ?w" unfolding world_inv_def by (intro conjI)
  then show ?thesis using step by (intro exI [of _ ?w] conjI)
qed

lemma step_write:
  assumes S: "setting E dinv l F cs" and inv: "world_inv E dinv l X Y d0 j0 F snt cs w"
    and i: "i < length cs" "phase_of w i = Replied"
  shows "\<exists>w'. thread_step E cs i w = Some w' \<and> world_inv E dinv l X Y d0 j0 F snt cs w'"
proof -
  let ?s = "wsrv w" and ?h = "history cs (replied w)" and ?fd = "fd_of F cs i"
  note defs = world_invD [OF inv]
  obtain cap where r: "ready ?s ?h cap" using defs(6) by blast
  obtain f where f: "fulldatas ?s (arg_of cs i) = Some f" "file_descriptor (fd_data f) = ?fd"
    using defs(3) i by (auto simp: args_inv_def split: if_splits)
  have m: "stores cs i" using defs(2) i by (simp add: order_inv_def)
  have di: "dinv (device_of ?s)" using defs(5) by (simp add: io_inv_def)
  have "op_fits (Dwrite ?h)" using history_short [OF S defs(2)] by simp
  then obtain x out d where op: "d_op (e_dev E) (Dwrite ?h) (device_of ?s) = Some (x, out, d)" "dinv d"
    using S di unfolding setting_def by meson
  have d: "d_write (e_dev E) ?h (device_of ?s) = Some (x, d)" using op(1) by (auto simp: bind_eq_Some_conv)
  have r1: "ready (c_close ?fd ?s) ?h cap" using r by (simp add: c_close_def ready_def string_at_def)
  have wf: "write_file E (c_close ?fd ?s) = Some ((c_close ?fd ?s)\<lparr>device_of := d\<rparr>)"
    using write_file_ok [OF r1] d by (simp add: c_close_def)
  let ?s' = "(c_close ?fd ?s)\<lparr>device_of := d\<rparr>"
  let ?w = "w\<lparr>wsrv := ?s', phase_of := (phase_of w)(i := Wrote), dev_order := dev_order w @ [i]\<rparr>"
  have step: "thread_step E cs i w = Some ?w"
    using wf f i(2) by (simp add: thread_step_def split_beta handler_fd_def)
  have r': "ready ?s' ?h cap" "others ?s' = others ?s"
    using r by (simp_all add: c_close_def ready_def string_at_def others_def)
  have "mem_inv X cs ?w" by (rule mem_inv_step [OF defs(1) r']) (simp_all add: i(2))
  moreover have "order_inv cs ?w" by (rule order_inv_op [OF defs(2) i(1)]) (simp_all add: i m)
  moreover have "args_inv l F cs ?w" using defs(3) i by (auto simp: args_inv_def c_close_def)
  moreover have "list_inv (e_node E) l Y j0 cs ?w" using defs(4) by (simp add: list_inv_def c_close_def)
  moreover have "io_inv (e_dev E) dinv d0 F snt cs ?w"
  proof (rule io_inv_op [OF defs(5) i(1)])
    show "i \<notin> set (dev_order w)" using defs(2) i(2) by (simp add: order_inv_def)
    show "i \<in> set (replied w)" using defs(2) i m by (simp add: order_inv_def)
    show "d_op (e_dev E) (op_of cs (replied w) (i, length (replied w))) (device_of ?s) = Some (x, out, d)"
      using op(1) m by (simp add: op_of_def)
    show "fd_of F cs j \<noteq> ?fd" if "j < length cs" "j \<noteq> i" for j
      using S i(1) that by (auto simp: setting_def)
  qed (simp_all add: op(2) m c_close_def)
  ultimately have "world_inv E dinv l X Y d0 j0 F snt cs ?w" unfolding world_inv_def by (intro conjI)
  then show ?thesis using step by (intro exI [of _ ?w] conjI)
qed

subsection \<open>The report\<close>

lemma step_report:
  assumes S: "setting E dinv l F cs" and inv: "world_inv E dinv l X Y d0 j0 F snt cs w"
    and i: "i < length cs" "phase_of w i = Wrote"
  shows "\<exists>w'. thread_step E cs i w = Some w' \<and> world_inv E dinv l X Y d0 j0 F snt cs w'"
proof -
  let ?s = "wsrv w" and ?h = "history cs (replied w)" and ?p = "arg_of cs i"
  note defs = world_invD [OF inv]
  obtain cap where r: "ready ?s ?h cap" using defs(6) by blast
  obtain f where f: "fulldatas ?s ?p = Some f" "fd_list f = l" "thread_id (fd_data f) = self_of cs i"
    using defs(3) i by (auto simp: args_inv_def split: if_splits)
  obtain ds where ds: "registry (e_node E) l False Y (threads ?s) ds" "map thread_id ds = rev (map (self_of cs) (ended w))"
      "\<forall>d \<in> set ds. completion d" "join_signals ?s = j0 + length (ended w)"
    using defs(4) unfolding list_inv_def by blast
  obtain t where t: "report_end E ?p (self_of cs i) ?s = Some (?s\<lparr>threads := t, join_signals := Suc (join_signals ?s),
        fulldatas := (fulldatas ?s)(?p := None)\<rparr>)" (is "_ = Some ?s'")
      "registry (e_node E) l False Y t ((fd_data f)\<lparr>completion := True\<rparr> # ds)"
    using report_end_ok [of E f Y ?s ds ?p "self_of cs i"] ds(1) f r by (auto simp: ready_def)
  let ?w = "w\<lparr>wsrv := ?s', phase_of := (phase_of w)(i := Ended), ended := ended w @ [i]\<rparr>"
  have step: "thread_step E cs i w = Some ?w"
    using t(1) i(2) by (simp add: thread_step_def split_beta)
  have r': "ready ?s' ?h cap" "others ?s' = others ?s"
    using r by (simp_all add: ready_def string_at_def others_def)
  have "mem_inv X cs ?w" by (rule mem_inv_step [OF defs(1) r']) (simp_all add: i(2))
  moreover have "order_inv cs ?w"
  proof -
    have "{j. j < length cs \<and> stores cs j \<and> has_replied (phase_of ?w j)} = {j. j < length cs \<and> stores cs j \<and> has_replied (phase_of w j)}"
      "{j. j < length cs \<and> has_written (phase_of ?w j)} = {j. j < length cs \<and> has_written (phase_of w j)}"
      "{j. j < length cs \<and> phase_of ?w j = Ended} = insert i {j. j < length cs \<and> phase_of w j = Ended}"
      using i by auto
    moreover have "i \<notin> set (ended w)" using defs(2) i(2) by (simp add: order_inv_def)
    ultimately show ?thesis using defs(2) unfolding order_inv_def by simp
  qed
  moreover have "args_inv l F cs ?w"
  proof -
    have "arg_of cs j \<noteq> ?p" if "j < length cs" "j \<noteq> i" for j using S i(1) that by (auto simp: setting_def)
    then show ?thesis using defs(3) i by (auto simp: args_inv_def)
  qed
  moreover have "list_inv (e_node E) l Y j0 cs ?w"
    using t(2) ds(2-4) f(3) unfolding list_inv_def
    by (intro conjI exI [of _ "(fd_data f)\<lparr>completion := True\<rparr> # ds"]) simp_all
  moreover have "io_inv (e_dev E) dinv d0 F snt cs ?w" by (rule io_inv_frame [OF defs(5)]) simp_all
  ultimately have "world_inv E dinv l X Y d0 j0 F snt cs ?w" unfolding world_inv_def by (intro conjI)
  then show ?thesis using step by (intro exI [of _ ?w] conjI)
qed

subsection \<open>Every interleaving\<close>

lemma thread_step_ok:
  assumes "setting E dinv l F cs" and "world_inv E dinv l X Y d0 j0 F snt cs w" and "i < length cs" "phase_of w i \<noteq> Ended"
  shows "\<exists>w'. thread_step E cs i w = Some w' \<and> world_inv E dinv l X Y d0 j0 F snt cs w'"
  using assms(4) step_receive [OF assms(1-3)] step_reply [OF assms(1-3)] step_seek [OF assms(1-3)] step_write [OF assms(1-3)]
    step_report [OF assms(1-3)]
  by (cases "phase_of w i"; cases "stores cs i") auto

lemma thread_step_ended: "phase_of w i = Ended \<Longrightarrow> thread_step E cs i w = None"
  by (simp add: thread_step_def split: prod.split)

lemma reachable_inv:
  assumes "reachable E cs w0 w" and "setting E dinv l F cs" and "world_inv E dinv l X Y d0 j0 F snt cs w0"
  shows "world_inv E dinv l X Y d0 j0 F snt cs w"
  using assms(1)
proof induction
  case reach_start
  show ?case by (rule assms(3))
next
  case (reach_step w i w')
  then have "phase_of w i \<noteq> Ended" using thread_step_ended by fastforce
  then show ?case using thread_step_ok [OF assms(2) reach_step.IH reach_step.hyps(2)] reach_step.hyps(3) by auto
qed

subsection \<open>Every run ends\<close>

text \<open>Each step uses up some of the work that is left, so no run is longer than four steps for each
  thread, and a run that cannot be continued has ended all threads.\<close>

fun rank :: "phase \<Rightarrow> nat" where
  "rank Start = 4"
| "rank (Got r) = 3"
| "rank Replied = 2"
| "rank Wrote = 1"
| "rank Ended = 0"

definition work_left :: "nat \<Rightarrow> 'd world \<Rightarrow> nat" where
  "work_left n w = (\<Sum>i < n. rank (phase_of w i))"

lemma thread_step_phase:
  assumes "thread_step E cs i w = Some w'"
  shows "\<exists>ph. phase_of w' = (phase_of w)(i := ph) \<and> rank ph < rank (phase_of w i)"
proof (cases "phase_of w i")
  case (Got r)
  then show ?thesis using assms by (cases r) (auto simp: thread_step_def split_beta bind_eq_Some_conv)
qed (use assms in \<open>auto simp: thread_step_def split_beta bind_eq_Some_conv\<close>)

lemma work_decreases:
  assumes "thread_step E cs i w = Some w'" and "i < n"
  shows "work_left n w' < work_left n w"
proof -
  obtain ph where ph: "phase_of w' = (phase_of w)(i := ph)" "rank ph < rank (phase_of w i)"
    using thread_step_phase [OF assms(1)] by blast
  show ?thesis
    unfolding work_left_def
  proof (rule sum_strict_mono_ex1)
    show "\<forall>j \<in> {..<n}. rank (phase_of w' j) \<le> rank (phase_of w j)" using ph by simp
    show "\<exists>j \<in> {..<n}. rank (phase_of w' j) < rank (phase_of w j)" using ph assms(2) by (intro bexI [of _ i]) simp_all
  qed simp
qed

lemma run_completes:
  assumes S: "setting E dinv l F cs"
  shows "world_inv E dinv l X Y d0 j0 F snt cs w \<Longrightarrow> reachable E cs w0 w \<Longrightarrow>
    \<exists>w'. reachable E cs w0 w' \<and> (\<forall>i < length cs. phase_of w' i = Ended)"
proof (induction "work_left (length cs) w" arbitrary: w rule: less_induct)
  case less
  show ?case
  proof (cases "\<forall>i < length cs. phase_of w i = Ended")
    case True
    then show ?thesis using less.prems(2) by blast
  next
    case False
    then obtain i where i: "i < length cs" "phase_of w i \<noteq> Ended" by blast
    obtain w1 where w1: "thread_step E cs i w = Some w1" "world_inv E dinv l X Y d0 j0 F snt cs w1"
      using thread_step_ok [OF S less.prems(1) i] by blast
    then show ?thesis
      using less.hyps [OF work_decreases [OF w1(1) i(1)] w1(2) reach_step [OF less.prems(2) i(1) w1(1)]] by blast
  qed
qed

lemma reachable_trans: "reachable E cs w1 w2 \<Longrightarrow> reachable E cs w0 w1 \<Longrightarrow> reachable E cs w0 w2"
  by (induction rule: reachable.induct) (auto intro: reach_step)

end
