(* ===== verification/Interleaving_Properties.thy ===== *)
theory Interleaving_Properties
  imports Server_Runs Interleaving "HOL-Library.Multiset"
begin

text \<open>
  Properties of connection handlers that run at the same time.
\<close>










subsection \<open>Seek commands between other connections\<close>













end
