(* ===== verification/Handler_Frame.thy ===== *)
theory Handler_Frame
  imports Socket_Correct
begin

text \<open>
  What no step of a connection handler changes after its start: the text and the log messages about the
  peer, and the global pointer to the list of threads.
\<close>

abbreviation peer_state :: "'d server \<Rightarrow> byte list \<times> byte list list \<times> nat" where
  "peer_state s \<equiv> (ip4 s, peer_log s, linked_list s)"

lemma memory_peer:
  "c_realloc al p n s = Some (q, t) \<Longrightarrow> peer_state t = peer_state s"
  "c_free p s = Some t \<Longrightarrow> peer_state t = peer_state s"
  "c_strcat p q s = Some t \<Longrightarrow> peer_state t = peer_state s"
  for s :: "'d server"
  by (auto simp: c_realloc_def c_alloc_def c_free_def c_strcat_def c_memcpy_def Let_def bind_eq_Some_conv
      split: ptr.splits option.splits)

lemma lock_peer:
  "lock_reply s = Some t \<Longrightarrow> peer_state t = peer_state s" "unlock_reply s = Some t \<Longrightarrow> peer_state t = peer_state s"
  "lock_file s = Some t \<Longrightarrow> peer_state t = peer_state s" "unlock_file s = Some t \<Longrightarrow> peer_state t = peer_state s"
  "on_threads f s = Some t \<Longrightarrow> peer_state t = peer_state s" "signal_join s = Some t \<Longrightarrow> peer_state t = peer_state s"
  by (auto simp: lock_reply_def unlock_reply_def lock_file_def unlock_file_def on_threads_def signal_join_def
      bind_eq_Some_conv split: if_splits)

lemma output_peer [simp]:
  "ip4 (snd (c_send E fd bs s)) = ip4 s" "peer_log (snd (c_send E fd bs s)) = peer_log s"
  "linked_list (snd (c_send E fd bs s)) = linked_list s" "linked_list (c_close fd s) = linked_list s"
  "ip4 (c_close fd s) = ip4 s" "peer_log (c_close fd s) = peer_log s"
  by (simp_all add: c_send_def c_close_def Let_def)

lemma receive_loop_peer:
  "receive_loop E chunks buffer bsz n p s = Some (got, t) \<Longrightarrow> peer_state t = peer_state s"
proof (induction E chunks buffer bsz n p s rule: receive_loop.induct)
  case (2 E c cs buffer bsz n p s)
  let ?buf = "c @ drop (length c) buffer" and ?r = "of_nat (length c) :: size_t"
  show ?case
  proof (cases "c = [] \<or> is_seek_request ?buf")
    case True
    then show ?thesis using "2.prems" by (auto simp: Let_def split: if_splits)
  next
    case False
    then obtain bsz' q u h where u: "(if bsz \<le> n + ?r
        then do { (p, s) \<leftarrow> c_realloc (e_alloc E) p (bsz * 2) s; Some (bsz * 2, p, s) } else Some (bsz, p, s)) = Some (bsz', q, u)"
      "store_cells (heap u) q (unat n) (map Some (take (length c) ?buf)) = Some h"
      and run: "(if length c < BUFFER_SIZE then Some (Message bsz' q, u\<lparr>heap := h\<rparr>)
        else receive_loop E cs ?buf bsz' (n + ?r) q (u\<lparr>heap := h\<rparr>)) = Some (got, t)"
      using "2.prems" by (auto simp: Let_def bind_eq_Some_conv split: if_splits)
    have "peer_state u = peer_state s"
      using u(1) memory_peer(1) by (fastforce simp: bind_eq_Some_conv split: if_splits)
    then show ?thesis
      using run "2.IH" [OF _ refl refl _ u(1) refl refl u(2) refl] False by (auto split: if_splits)
  qed
qed simp

lemma send_rest_peer:
  assumes "send_rest E fd s = Some t"
  shows "peer_state t = peer_state s"
proof (rule send_rest.raw_induct [of "\<lambda>E fd s t. peer_state t = peer_state s", OF _ assms])
  fix rest_of :: "'a env \<Rightarrow> int \<Rightarrow> 'a server \<Rightarrow> 'a server option" and E fd s t
  assume IH: "\<And>E fd s t. rest_of E fd s = Some t \<Longrightarrow> peer_state t = peer_state s"
    and run: "do { (n, out, d) \<leftarrow> d_read (e_dev E) BUFFER_SIZE (device_of s);
        let s = s\<lparr>device_of := d\<rparr>;
        if 0 < n then rest_of E fd (snd (c_send E fd (take (nat n) out) s)) else Some s } = Some t"
  obtain n out d where r: "(if 0 < n then rest_of E fd (snd (c_send E fd (take (nat n) out) (s\<lparr>device_of := d\<rparr>)))
      else Some (s\<lparr>device_of := d\<rparr>)) = Some t"
    using run by (auto simp: bind_eq_Some_conv Let_def)
  show "peer_state t = peer_state s"
  proof (cases "0 < n")
    case True
    then show ?thesis using r IH [of E fd "snd (c_send E fd (take (nat n) out) (s\<lparr>device_of := d\<rparr>))" t] by simp
  next
    case False
    then show ?thesis using r by auto
  qed
qed

lemma answer_seek_peer: "answer_seek E fd buffer s = Some t \<Longrightarrow> peer_state t = peer_state s"
  by (auto simp: answer_seek_def Let_def bind_eq_Some_conv dest!: lock_peer send_rest_peer split: if_splits)

lemma append_and_send_peer: "append_and_send E fd bsz p s = Some t \<Longrightarrow> peer_state t = peer_state s"
  by (auto simp: append_and_send_def Let_def bind_eq_Some_conv dest!: lock_peer memory_peer split: if_splits)

lemma write_file_peer: "write_file E s = Some t \<Longrightarrow> peer_state t = peer_state s"
  by (auto simp: write_file_def Let_def bind_eq_Some_conv dest!: lock_peer)

lemma report_end_peer: "report_end E p self s = Some t \<Longrightarrow> peer_state t = peer_state s"
  by (auto simp: report_end_def Let_def bind_eq_Some_conv dest!: lock_peer)

lemma c_memset0_peer: "c_memset0 p n s = Some t \<Longrightarrow> peer_state t = peer_state s \<and> fulldatas t = fulldatas s" for s :: "'d server"
  by (auto simp: c_memset0_def bind_eq_Some_conv)

text \<open>So after the handler the peer is logged, and nothing else.\<close>

lemma handler_peer:
  assumes "connection_handler E p self chunks s = Some t" and f: "fulldatas s p = Some f"
  shows "peer_state t = peer_state (peer_logged f s)"
proof -
  obtain q u where a: "c_alloc (e_alloc E) 1024 s = (q, u)" by fastforce
  then have u: "peer_state u = peer_state s" "fulldatas u = fulldatas s"
    by (auto simp: c_alloc_def split: option.splits)
  obtain v where v: "c_memset0 q 1024 u = Some v"
    using assms a by (auto simp: connection_handler_def bind_eq_Some_conv)
  have vs: "peer_state v = peer_state s" "fulldatas v p = Some f" using c_memset0_peer [OF v] u f by simp_all
  let ?f = "f\<lparr>fd_data := (fd_data f)\<lparr>thread_id := self\<rparr>\<rparr>"
  let ?w = "(peer_logged f v)\<lparr>fulldatas := (fulldatas v)(p \<mapsto> ?f)\<rparr>"
  obtain got x where x: "receive_loop E chunks (replicate 1024 0) 1024 0 q ?w = Some (got, x)"
    and rest: "(case got of
        Seek buffer q \<Rightarrow> do { s \<leftarrow> answer_seek E (file_descriptor (fd_data f)) buffer x;
          s \<leftarrow> c_free q (c_close (file_descriptor (fd_data f)) s); report_end E p self s }
      | Message bsz q \<Rightarrow> do { s \<leftarrow> append_and_send E (file_descriptor (fd_data f)) bsz q x;
          s \<leftarrow> write_file E (c_close (file_descriptor (fd_data f)) s); report_end E p self s }) = Some t"
    using assms(1) a v vs(2)
    by (auto simp: connection_handler_def Let_def bind_eq_Some_conv simp del: receive_loop.simps cong: received.case_cong)
  have "peer_state t = peer_state x"
    using rest by (auto simp: bind_eq_Some_conv split: received.splits
        dest!: answer_seek_peer append_and_send_peer write_file_peer report_end_peer memory_peer)
  also have "\<dots> = peer_state ?w" using receive_loop_peer [OF x] .
  also have "\<dots> = peer_state (peer_logged f s)" using vs(1) by (simp add: log_accept_def Let_def)
  finally show ?thesis .
qed

end
