(* ===== verification/Signal_Properties.thy ===== *)
theory Signal_Properties
  imports Interleaving_Properties Handler_Frame
begin

text \<open>
  The termination signal while connection handlers run. The signal handler is entered between any two
  steps of the threads; it releases the reply string and the list of threads, and takes no mutex.
\<close>

subsection \<open>The global pointer to the list\<close>




subsection \<open>The block that moves\<close>







end
