(* ===== verification/Joiner_Thread.thy ===== *)
theory Joiner_Thread
  imports Socket_Threads "HOL-Library.Multiset"
begin

text \<open>
  The joining thread next to the ends of the connection handlers. \<open>joining_thread_handler\<close> waits for the
  condition variable \<open>cv_join\<close> and then works on the list without its mutex; a handler enters its entry
  under the mutex of the list and signals the variable, in two critical sections. Every statement of the
  joiner that reads or changes shared data is a step of its own here; a signal that finds nobody waiting
  is lost, as for every condition variable.
\<close>

subsection \<open>Outcomes\<close>

text \<open>A step can be blocked, which waiting for another thread may end, or undefined.\<close>

datatype 'a outcome = Blocked | Undefined | Next 'a

fun step_of :: "'a option \<Rightarrow> ('a \<Rightarrow> 'b outcome) \<Rightarrow> 'b outcome" where
  "step_of None f = Undefined"
| "step_of (Some x) f = f x"

fun then_step :: "'a outcome \<Rightarrow> ('a \<Rightarrow> 'b outcome) \<Rightarrow> 'b outcome" where
  "then_step Blocked f = Blocked"
| "then_step Undefined f = Undefined"
| "then_step (Next x) f = f x"

subsection \<open>The threads\<close>

text \<open>Where the joiner is: before its wait, waiting, woken, and after each of its statements, with the values
  of its variables \<open>old_head\<close> and \<open>new_head\<close>.\<close>

datatype joiner =
    Entering
  | Waiting
  | Woken
  | Read_Old ptr
  | Read_New ptr ptr
  | Cut ptr
  | Joined ptr
  | Removed ptr

datatype handler = Working | Registered | Signalled

record jworld =
  jlist :: lstate
  joiner_at :: joiner
  handler_at :: "nat \<Rightarrow> handler"
  registered :: "nat list"          \<comment> \<open>the handlers in the order of their registrations\<close>
  joined :: "pthread_t list"

text \<open>The joiner. \<open>hs\<close> has the list entry of each handler; \<open>pthread_join\<close> waits until the thread has ended.\<close>

definition running :: "thread_data list \<Rightarrow> (nat \<Rightarrow> handler) \<Rightarrow> pthread_t \<Rightarrow> bool" where
  "running hs at tid \<longleftrightarrow> (\<exists>i \<in> set [0..<length hs]. thread_id (hs ! i) = tid \<and> at i \<noteq> Signalled)"

definition joiner_step :: "nat \<Rightarrow> thread_data list \<Rightarrow> jworld \<Rightarrow> jworld outcome" where
  "joiner_step l hs w =
     (let s = jlist w in
      case joiner_at w of
        Entering \<Rightarrow> Next (w\<lparr>joiner_at := Waiting\<rparr>)
      | Waiting \<Rightarrow> Blocked
      | Woken \<Rightarrow> step_of (lls s l) (\<lambda>L. Next (w\<lparr>joiner_at := Read_Old (head L)\<rparr>))
      | Read_Old old_head \<Rightarrow>
          step_of (do { L \<leftarrow> lls s l; get_node (head L) s }) (\<lambda>n. Next (w\<lparr>joiner_at := Read_New old_head (nxt n)\<rparr>))
      | Read_New old_head new_head \<Rightarrow>
          step_of (set_head l new_head s) (\<lambda>s. Next (w\<lparr>jlist := s, joiner_at := Cut old_head\<rparr>))
      | Cut old_head \<Rightarrow>
          step_of (get_node old_head s) (\<lambda>n.
            if running hs (handler_at w) (thread_id (data n)) then Blocked
            else Next (w\<lparr>joiner_at := Joined old_head, joined := joined w @ [thread_id (data n)]\<rparr>))
      | Joined old_head \<Rightarrow>
          step_of (do { n \<leftarrow> get_node old_head s; remove_element_from_linked_list_no_mutex l (thread_id (data n)) s })
            (\<lambda>s. Next (w\<lparr>jlist := s, joiner_at := Removed old_head\<rparr>))
      | Removed old_head \<Rightarrow>
          step_of (free_node old_head s) (\<lambda>s. Next (w\<lparr>jlist := s, joiner_at := Entering\<rparr>)))"

text \<open>The end of a handler: the entry, under the mutex of the list, and then the signal.\<close>

definition register_entry :: "node_allocator \<Rightarrow> nat \<Rightarrow> thread_data \<Rightarrow> lstate \<Rightarrow> lstate option" where
  "register_entry al l d s =
     do { s \<leftarrow> pthread_mutex_lock l s;
          s \<leftarrow> insert_element_to_linked_list_no_mutex al l d s;
          s \<leftarrow> set_thread_status_no_mutex l (thread_id d) True s;
          pthread_mutex_unlock l s }"

definition handler_step :: "node_allocator \<Rightarrow> nat \<Rightarrow> thread_data list \<Rightarrow> nat \<Rightarrow> jworld \<Rightarrow> jworld outcome" where
  "handler_step al l hs i w =
     (case handler_at w i of
        Working \<Rightarrow> step_of (register_entry al l (hs ! i) (jlist w))
          (\<lambda>s. Next (w\<lparr>jlist := s, handler_at := (handler_at w)(i := Registered), registered := registered w @ [i]\<rparr>))
      | Registered \<Rightarrow>
          Next (w\<lparr>handler_at := (handler_at w)(i := Signalled),
                  joiner_at := (if joiner_at w = Waiting then Woken else joiner_at w)\<rparr>)
      | Signalled \<Rightarrow> Blocked)"

text \<open>A round without interruption.\<close>

fun joiner_steps :: "nat \<Rightarrow> nat \<Rightarrow> thread_data list \<Rightarrow> jworld \<Rightarrow> jworld outcome" where
  "joiner_steps 0 l hs w = Next w"
| "joiner_steps (Suc k) l hs w = then_step (joiner_step l hs w) (joiner_steps k l hs)"

text \<open>All interleavings of the single steps, and those in which a round of the joiner is one step.\<close>

inductive fine :: "node_allocator \<Rightarrow> nat \<Rightarrow> thread_data list \<Rightarrow> jworld \<Rightarrow> jworld \<Rightarrow> bool"
  for al l hs w0 where
  fine_start: "fine al l hs w0 w0"
| fine_handler: "fine al l hs w0 w \<Longrightarrow> i < length hs \<Longrightarrow> handler_step al l hs i w = Next w' \<Longrightarrow> fine al l hs w0 w'"
| fine_joiner: "fine al l hs w0 w \<Longrightarrow> joiner_step l hs w = Next w' \<Longrightarrow> fine al l hs w0 w'"

definition atomic_step :: "nat \<Rightarrow> thread_data list \<Rightarrow> jworld \<Rightarrow> jworld outcome" where
  "atomic_step l hs w = (if joiner_at w = Woken then joiner_steps 6 l hs w else joiner_step l hs w)"

inductive coarse :: "node_allocator \<Rightarrow> nat \<Rightarrow> thread_data list \<Rightarrow> jworld \<Rightarrow> jworld \<Rightarrow> bool"
  for al l hs w0 where
  coarse_start: "coarse al l hs w0 w0"
| coarse_handler: "coarse al l hs w0 w \<Longrightarrow> i < length hs \<Longrightarrow> handler_step al l hs i w = Next w' \<Longrightarrow> coarse al l hs w0 w'"
| coarse_joiner: "coarse al l hs w0 w \<Longrightarrow> atomic_step l hs w = Next w' \<Longrightarrow> coarse al l hs w0 w'"

subsection \<open>The steps are those of the code in a row\<close>

lemma report_end_is_register:
  assumes "fulldatas s p = Some f" and "thread_id (fd_data f) = self"
  shows "report_end E p self s =
    do { s \<leftarrow> on_threads (register_entry (e_node E) (fd_list f) (fd_data f)) s;
         s \<leftarrow> signal_join s;
         Some (s\<lparr>fulldatas := (fulldatas s)(p := None)\<rparr>) }"
  using assms by (simp add: report_end_def register_entry_def on_threads_def split: bind_splits)

lemma joiner_round:
  assumes "joiner_at w = Woken" and L: "lls (jlist w) l = Some L" and n: "get_node (head L) (jlist w) = Some n"
    and nr: "\<not> running hs (handler_at w) (thread_id (data n))" and run: "join_round l l (jlist w) = Some s"
  shows "joiner_steps 6 l hs w = Next (w\<lparr>jlist := s, joiner_at := Entering, joined := joined w @ [thread_id (data n)]\<rparr>)"
proof -
  obtain s1 s2 where s: "set_head l (nxt n) (jlist w) = Some s1" "get_node (head L) s1 = Some n"
      "remove_element_from_linked_list_no_mutex l (thread_id (data n)) s1 = Some s2" "free_node (head L) s2 = Some s"
    using run L n by (auto simp: join_round_def bind_eq_Some_conv set_head_def get_node_def split: ptr.splits)
  have six: "(6 :: nat) = Suc (Suc (Suc (Suc (Suc (Suc 0)))))" by simp
  show ?thesis
    using assms(1) L n nr s unfolding six by (simp add: joiner_step_def Let_def)
qed

lemma register_entry_ok:
  assumes "registry al l False X s ds"
  shows "\<exists>t. register_entry al l d s = Some t \<and> registry al l False X t (d\<lparr>completion := True\<rparr> # ds)"
proof -
  obtain t1 where t1: "pthread_mutex_lock l s = Some t1" "registry al l True X t1 ds"
    using registry_lock [OF assms] by blast
  obtain t3 where t3: "do { s \<leftarrow> insert_element_to_linked_list_no_mutex al l d t1;
        set_thread_status_no_mutex l (thread_id d) True s } = Some t3" "registry al l True X t3 (d\<lparr>completion := True\<rparr> # ds)"
    using plain_list.register_ok [OF t1(2), of d] by blast
  obtain t4 where "pthread_mutex_unlock l t3 = Some t4" "registry al l False X t4 (d\<lparr>completion := True\<rparr> # ds)"
    using registry_unlock [OF t3(2)] by blast
  then show ?thesis
    using t1(1) t3(1) by (intro exI [of _ t4]) (auto simp: register_entry_def bind_eq_Some_conv)
qed

text \<open>A round whose thread has not ended yet waits for it.\<close>

lemma joiner_round_blocked:
  assumes "joiner_at w = Woken" and L: "lls (jlist w) l = Some L" and n: "get_node (head L) (jlist w) = Some n"
    and nr: "running hs (handler_at w) (thread_id (data n))"
  shows "joiner_steps 6 l hs w = Blocked"
proof -
  obtain s1 where s: "set_head l (nxt n) (jlist w) = Some s1" "get_node (head L) s1 = Some n"
    using L n by (auto simp: set_head_def get_node_def split: ptr.splits)
  have six: "(6 :: nat) = Suc (Suc (Suc (Suc (Suc (Suc 0)))))" by simp
  show ?thesis
    using assms(1) L n nr s unfolding six by (simp add: joiner_step_def Let_def)
qed

subsection \<open>Rounds that are not interrupted\<close>

text \<open>Every registered thread is in the list or joined, and there have been at most as many wake-ups as
  signals.\<close>

definition ids_of :: "thread_data list \<Rightarrow> nat list \<Rightarrow> pthread_t list" where
  "ids_of hs is = map (\<lambda>i. thread_id (hs ! i)) is"

definition joiner_inv :: "node_allocator \<Rightarrow> nat \<Rightarrow> (nat \<rightharpoonup> node) \<Rightarrow> thread_data list \<Rightarrow> jworld \<Rightarrow> bool" where
  "joiner_inv al l Y hs w \<longleftrightarrow>
     joiner_at w \<in> {Entering, Waiting, Woken} \<and> distinct (registered w) \<and>
     set (registered w) = {i. i < length hs \<and> handler_at w i \<noteq> Working} \<and>
     (\<exists>ds. registry al l False Y (jlist w) ds \<and>
        mset (map thread_id ds) + mset (joined w) = mset (ids_of hs (registered w))) \<and>
     length (joined w) + (if joiner_at w = Woken then 1 else 0) \<le> card {i. i < length hs \<and> handler_at w i = Signalled}"

definition start_joiner :: "lstate \<Rightarrow> jworld" where
  "start_joiner s = \<lparr>jlist = s, joiner_at = Entering, handler_at = (\<lambda>_. Working), registered = [], joined = []\<rparr>"

lemma start_joiner_inv: "registry al l False Y s [] \<Longrightarrow> joiner_inv al l Y hs (start_joiner s)"
  by (auto simp: joiner_inv_def start_joiner_def ids_of_def intro!: exI [of _ "[]"])

lemma registered_ids_distinct:
  assumes "joiner_inv al l Y hs w" and "distinct (map thread_id hs)"
  shows "distinct (ids_of hs (registered w))"
proof -
  have "inj_on (\<lambda>i. thread_id (hs ! i)) {..<length hs}"
    using assms(2) by (auto simp: distinct_conv_nth inj_on_def)
  then have "inj_on (\<lambda>i. thread_id (hs ! i)) (set (registered w))"
    using assms(1) by (auto simp: joiner_inv_def elim!: inj_on_subset)
  then show ?thesis using assms(1) by (simp add: ids_of_def distinct_map joiner_inv_def)
qed

lemma handler_step_inv:
  assumes inv: "joiner_inv al l Y hs w" and i: "i < length hs" "handler_at w i \<noteq> Signalled"
  shows "\<exists>w'. handler_step al l hs i w = Next w' \<and> joiner_inv al l Y hs w'"
proof (cases "handler_at w i")
  case Working
  obtain ds where ds: "registry al l False Y (jlist w) ds" "mset (map thread_id ds) + mset (joined w) = mset (ids_of hs (registered w))"
    using inv by (auto simp: joiner_inv_def)
  obtain t where t: "register_entry al l (hs ! i) (jlist w) = Some t"
      "registry al l False Y t ((hs ! i)\<lparr>completion := True\<rparr> # ds)"
    using register_entry_ok [OF ds(1)] by blast
  let ?w = "w\<lparr>jlist := t, handler_at := (handler_at w)(i := Registered), registered := registered w @ [i]\<rparr>"
  have s: "{j. j < length hs \<and> handler_at ?w j \<noteq> Working} = insert i {j. j < length hs \<and> handler_at w j \<noteq> Working}"
    "{j. j < length hs \<and> handler_at ?w j = Signalled} = {j. j < length hs \<and> handler_at w j = Signalled}"
    using i Working by auto
  have "mset (map thread_id ((hs ! i)\<lparr>completion := True\<rparr> # ds)) + mset (joined ?w) = mset (ids_of hs (registered ?w))"
    using ds(2) by (simp add: ids_of_def)
  then have "joiner_inv al l Y hs ?w"
    using inv t(2) s Working unfolding joiner_inv_def by (intro conjI exI [of _ "(hs ! i)\<lparr>completion := True\<rparr> # ds"]) auto
  then show ?thesis using t(1) Working by (simp add: handler_step_def)
next
  case Registered
  let ?w = "w\<lparr>handler_at := (handler_at w)(i := Signalled), joiner_at := (if joiner_at w = Waiting then Woken else joiner_at w)\<rparr>"
  have s: "{j. j < length hs \<and> handler_at ?w j \<noteq> Working} = {j. j < length hs \<and> handler_at w j \<noteq> Working}"
    "{j. j < length hs \<and> handler_at ?w j = Signalled} = insert i {j. j < length hs \<and> handler_at w j = Signalled}"
    using i Registered by auto
  have "card (insert i {j. j < length hs \<and> handler_at w j = Signalled}) = Suc (card {j. j < length hs \<and> handler_at w j = Signalled})"
    using Registered by (intro card_insert_disjoint) auto
  then have "joiner_inv al l Y hs ?w"
    using inv unfolding joiner_inv_def s by (auto split: if_splits)
  then show ?thesis using Registered by (simp add: handler_step_def)
qed (use i in simp)

lemma atomic_step_inv:
  assumes inv: "joiner_inv al l Y hs w" and di: "distinct (map thread_id hs)"
  shows "atomic_step l hs w = Blocked \<or> (\<exists>w'. atomic_step l hs w = Next w' \<and> joiner_inv al l Y hs w')"
proof -
  consider "joiner_at w = Entering" | "joiner_at w = Waiting" | "joiner_at w = Woken"
    using inv by (auto simp: joiner_inv_def)
  then show ?thesis
  proof cases
    case 1
    then have "joiner_inv al l Y hs (w\<lparr>joiner_at := Waiting\<rparr>)" using inv by (simp add: joiner_inv_def)
    then show ?thesis using 1 by (simp add: atomic_step_def joiner_step_def)
  next
    case 2
    then show ?thesis by (simp add: atomic_step_def joiner_step_def)
  next
    case 3
    obtain ds where ds: "registry al l False Y (jlist w) ds"
        "mset (map thread_id ds) + mset (joined w) = mset (ids_of hs (registered w))"
      and reg: "distinct (registered w)" "set (registered w) = {i. i < length hs \<and> handler_at w i \<noteq> Working}"
      and le: "length (joined w) + 1 \<le> card {i. i < length hs \<and> handler_at w i = Signalled}"
      using inv 3 by (auto simp: joiner_inv_def)
    have "card {i. i < length hs \<and> handler_at w i = Signalled} \<le> card (set (registered w))"
      unfolding reg(2) by (intro card_mono) auto
    then have "length (joined w) + 1 \<le> length (ids_of hs (registered w))"
      using le reg(1) by (simp add: distinct_card ids_of_def)
    moreover have "length ds + length (joined w) = length (ids_of hs (registered w))"
      using arg_cong [OF ds(2), of size] by simp
    ultimately obtain d ds' where d: "ds = d # ds'" by (cases ds) auto
    have "distinct (map thread_id ds @ joined w)"
      using registered_ids_distinct [OF inv di] ds(2) by (metis mset_append mset_eq_imp_distinct_iff)
    then have "drop_first (\<lambda>e. thread_id e = thread_id d) ds' = ds'"
      unfolding d by (intro drop_first_none) (auto simp: image_iff)
    moreover obtain as where as: "list_repr l (jlist w) False as ds" "other_nodes (jlist w) as = Y"
      using ds(1) by (auto simp: registry_def)
    then obtain a as0 where a: "as = a # as0" unfolding d by (cases as) (auto simp: list_repr_def entries_def)
    ultimately obtain t bs where t: "join_round l l (jlist w) = Some t" "list_repr l t False bs ds'"
        "other_nodes t bs = Y"
      using join_round_ok [of l "jlist w" False a as0 d ds'] as unfolding d by auto
    obtain n where n: "lls (jlist w) l = Some \<lparr>head = Ptr a, mutex = False\<rparr>" "nodes (jlist w) a = Some n" "data n = d"
      using as(1) unfolding a d by (auto simp: list_repr_def)
    show ?thesis
    proof (cases "running hs (handler_at w) (thread_id d)")
      case True
      then show ?thesis
        using joiner_round_blocked [OF 3 n(1), of n hs] n(2,3) 3 by (simp add: atomic_step_def get_node_def)
    next
      case False
      let ?w = "w\<lparr>jlist := t, joiner_at := Entering, joined := joined w @ [thread_id d]\<rparr>"
      have "atomic_step l hs w = Next ?w"
        using joiner_round [OF 3 n(1) _ _ t(1), of n hs] n(2,3) 3 False by (simp add: atomic_step_def get_node_def)
      moreover have "registry al l False Y t ds'" using t(2,3) ds(1) by (auto simp: registry_def)
      moreover have "mset (map thread_id ds') + mset (joined ?w) = mset (ids_of hs (registered w))"
        using ds(2) by (simp add: d)
      ultimately have "joiner_inv al l Y hs ?w" using reg le unfolding joiner_inv_def by auto
      then show ?thesis using \<open>atomic_step l hs w = Next ?w\<close> by blast
    qed
  qed
qed

lemma coarse_inv:
  assumes "coarse al l hs w0 w" and "joiner_inv al l Y hs w0" and "distinct (map thread_id hs)"
  shows "joiner_inv al l Y hs w"
  using assms(1)
proof induction
  case coarse_start
  show ?case by (rule assms(2))
next
  case (coarse_handler w i w')
  have "handler_at w i \<noteq> Signalled" using coarse_handler.hyps(3) by (auto simp: handler_step_def)
  then show ?case using handler_step_inv [OF coarse_handler.IH coarse_handler.hyps(2)] coarse_handler.hyps(3) by auto
next
  case (coarse_joiner w w')
  then show ?case using atomic_step_inv [OF coarse_joiner.IH assms(3)] by auto
qed

end
