(* ===== verification/Joiner_Properties.thy ===== *)
theory Joiner_Properties
  imports Joiner_Thread Server_Runs
begin

text \<open>
  Properties of the joining thread next to the handlers.
\<close>

subsection \<open>Rounds that are not interrupted\<close>


subsection \<open>Signals that are lost\<close>

text \<open>A handler that ends while the joiner waits, with the round that follows; and one that ends while it
  does not wait.\<close>

lemma served_one:
  assumes inv: "joiner_inv al l Y hs w" and di: "distinct (map thread_id hs)"
    and j: "joiner_at w = Entering" and i: "i < length hs" "handler_at w i = Working" and reg: "registry al l False Y (jlist w) []"
  shows "\<exists>w'. coarse al l hs w w' \<and> joiner_at w' = Entering \<and> handler_at w' = (handler_at w)(i := Signalled) \<and>
    registry al l False Y (jlist w') [] \<and> length (joined w') = Suc (length (joined w))"
proof -
  let ?d = "(hs ! i)\<lparr>completion := True\<rparr>"
  let ?w1 = "w\<lparr>joiner_at := Waiting\<rparr>"
  have c1: "coarse al l hs w ?w1"
    using j by (intro coarse_joiner [OF coarse_start]) (simp add: atomic_step_def joiner_step_def)
  obtain t where t: "register_entry al l (hs ! i) (jlist w) = Some t" "registry al l False Y t [?d]"
    using register_entry_ok [OF reg] by blast
  let ?w2 = "?w1\<lparr>jlist := t, handler_at := (handler_at w)(i := Registered), registered := registered w @ [i]\<rparr>"
  have c2: "coarse al l hs w ?w2"
    using t(1) i by (intro coarse_handler [OF c1 i(1)]) (simp add: handler_step_def)
  let ?w3 = "?w2\<lparr>handler_at := (handler_at w)(i := Signalled), joiner_at := Woken\<rparr>"
  have c3: "coarse al l hs w ?w3"
    using i by (intro coarse_handler [OF c2 i(1)]) (simp add: handler_step_def)
  obtain as where as: "list_repr l t False as [?d]" "other_nodes t as = Y" using t(2) by (auto simp: registry_def)
  then obtain a where a: "as = [a]" by (cases as) (auto simp: list_repr_def entries_def)
  obtain u bs where u: "join_round l l t = Some u" "list_repr l u False bs []" "other_nodes u bs = Y"
    using join_round_ok [of l t False a "[]" ?d "[]"] as a by auto
  obtain n where n: "lls t l = Some \<lparr>head = Ptr a, mutex = False\<rparr>" "nodes t a = Some n" "data n = ?d"
    using as(1) unfolding a by (auto simp: list_repr_def)
  have nr: "\<not> running hs ((handler_at w)(i := Signalled)) (thread_id (hs ! i))"
    using di i(1) by (auto simp: running_def distinct_conv_nth)
  let ?w4 = "?w3\<lparr>jlist := u, joiner_at := Entering, joined := joined w @ [thread_id (hs ! i)]\<rparr>"
  have "joiner_steps 6 l hs ?w3 = Next ?w4"
    using joiner_round [of ?w3 l "\<lparr>head = Ptr a, mutex = False\<rparr>" n hs u] n u(1) nr by (simp add: get_node_def)
  then have c4: "coarse al l hs w ?w4"
    by (intro coarse_joiner [OF c3]) (simp add: atomic_step_def)
  moreover have "registry al l False Y u []" using u(2,3) reg by (auto simp: registry_def)
  ultimately show ?thesis by (intro exI [of _ ?w4]) simp
qed

lemma missed_one:
  assumes j: "joiner_at w = Entering" and i: "i < length hs" "handler_at w i = Working" and reg: "registry al l False Y (jlist w) ds"
  shows "\<exists>w'. coarse al l hs w w' \<and> joiner_at w' = Entering \<and> handler_at w' = (handler_at w)(i := Signalled) \<and>
    registry al l False Y (jlist w') ((hs ! i)\<lparr>completion := True\<rparr> # ds) \<and> joined w' = joined w"
proof -
  obtain t where t: "register_entry al l (hs ! i) (jlist w) = Some t" "registry al l False Y t ((hs ! i)\<lparr>completion := True\<rparr> # ds)"
    using register_entry_ok [OF reg] by blast
  let ?w1 = "w\<lparr>jlist := t, handler_at := (handler_at w)(i := Registered), registered := registered w @ [i]\<rparr>"
  have c1: "coarse al l hs w ?w1"
    using t(1) i by (intro coarse_handler [OF coarse_start i(1)]) (simp add: handler_step_def)
  let ?w2 = "?w1\<lparr>handler_at := (handler_at w)(i := Signalled), joiner_at := Entering\<rparr>"
  have "coarse al l hs w ?w2"
    using i j by (intro coarse_handler [OF c1 i(1)]) (simp add: handler_step_def)
  then show ?thesis using t(2) by (intro exI [of _ ?w2]) simp
qed

lemma coarse_trans: "coarse al l hs w1 w2 \<Longrightarrow> coarse al l hs w0 w1 \<Longrightarrow> coarse al l hs w0 w2"
  by (induction rule: coarse.induct) (auto intro: coarse_handler coarse_joiner)

lemma serve_first:
  assumes reg: "registry al l False Y s []" and di: "distinct (map thread_id hs)"
  shows "k \<le> length hs \<Longrightarrow> \<exists>w. coarse al l hs (start_joiner s) w \<and> joiner_at w = Entering \<and>
    (\<forall>i. handler_at w i = (if i < k then Signalled else Working)) \<and> registry al l False Y (jlist w) [] \<and> length (joined w) = k"
proof (induction k)
  case 0
  then show ?case using reg by (intro exI [of _ "start_joiner s"]) (simp add: coarse_start start_joiner_def)
next
  case (Suc k)
  then obtain w where w: "coarse al l hs (start_joiner s) w" "joiner_at w = Entering"
      "\<forall>i. handler_at w i = (if i < k then Signalled else Working)" "registry al l False Y (jlist w) []" "length (joined w) = k"
    by auto
  have inv: "joiner_inv al l Y hs w" by (rule coarse_inv [OF w(1) start_joiner_inv [OF reg] di])
  obtain w' where "coarse al l hs w w'" "joiner_at w' = Entering" "handler_at w' = (handler_at w)(k := Signalled)"
      "registry al l False Y (jlist w') []" "length (joined w') = Suc k"
    using served_one [OF inv di w(2) _ _ w(4), of k] w(3,5) Suc.prems by auto
  then show ?case
    using coarse_trans [OF _ w(1)] w(3) by (intro exI [of _ w']) auto
qed

lemma miss_rest:
  assumes w: "joiner_at w = Entering" "\<And>i. handler_at w i = (if i < k then Signalled else Working)" "registry al l False Y (jlist w) []"
  shows "k + m \<le> length hs \<Longrightarrow> \<exists>w' ds. coarse al l hs w w' \<and> joiner_at w' = Entering \<and>
    (\<forall>i. handler_at w' i = (if i < k + m then Signalled else Working)) \<and> registry al l False Y (jlist w') ds \<and>
    map thread_id ds = rev (map thread_id (take m (drop k hs))) \<and> joined w' = joined w"
proof (induction m)
  case 0
  then show ?case using w by (intro exI [of _ w] exI [of _ "[]"]) (simp add: coarse_start)
next
  case (Suc m)
  then obtain w1 ds where w1: "coarse al l hs w w1" "joiner_at w1 = Entering"
      "\<forall>i. handler_at w1 i = (if i < k + m then Signalled else Working)" "registry al l False Y (jlist w1) ds"
      "map thread_id ds = rev (map thread_id (take m (drop k hs)))" "joined w1 = joined w"
    by auto
  obtain w2 where w2: "coarse al l hs w1 w2" "joiner_at w2 = Entering" "handler_at w2 = (handler_at w1)(k + m := Signalled)"
      "registry al l False Y (jlist w2) ((hs ! (k + m))\<lparr>completion := True\<rparr> # ds)" "joined w2 = joined w1"
    using missed_one [OF w1(2) _ _ w1(4), where i = "k + m" and hs = hs] w1(3) Suc.prems by auto
  have "take (Suc m) (drop k hs) = take m (drop k hs) @ [hs ! (k + m)]"
    using Suc.prems by (simp add: take_Suc_conv_app_nth)
  then show ?case
    using coarse_trans [OF w2(1) w1(1)] w2(2-5) w1(3,5,6)
    by (intro exI [of _ w2] exI [of _ "(hs ! (k + m))\<lparr>completion := True\<rparr> # ds"]) auto
qed

text \<open>C28: signals are lost. For every number of handlers, and every smaller number \<open>k\<close>, there is a run, even
  with uninterrupted rounds, after which all handlers have ended, only the first \<open>k\<close> of them have been
  joined, the entries of all others are still in the list, and nothing can happen any more: the joiner
  waits for a signal and no handler is left to give one. With \<open>k = 0\<close>, none is ever joined.\<close>

theorem joiner_misses_signals:
  assumes "registry al l False Y s []" and "distinct (map thread_id hs)" and "k \<le> length hs"
  shows "\<exists>w ds. coarse al l hs (start_joiner s) w \<and> (\<forall>i < length hs. handler_at w i = Signalled) \<and>
    length (joined w) = k \<and> registry al l False Y (jlist w) ds \<and> map thread_id ds = rev (map thread_id (drop k hs)) \<and>
    atomic_step l hs w = Blocked \<and> (\<forall>i < length hs. handler_step al l hs i w = Blocked)"
proof -
  obtain w where w: "coarse al l hs (start_joiner s) w" "joiner_at w = Entering"
      "\<forall>i. handler_at w i = (if i < k then Signalled else Working)" "registry al l False Y (jlist w) []" "length (joined w) = k"
    using serve_first [OF assms(1,2,3)] by blast
  obtain w' ds where w': "coarse al l hs w w'" "joiner_at w' = Entering"
      "\<forall>i. handler_at w' i = (if i < k + (length hs - k) then Signalled else Working)" "registry al l False Y (jlist w') ds"
      "map thread_id ds = rev (map thread_id (take (length hs - k) (drop k hs)))" "joined w' = joined w"
    using miss_rest [OF w(2) _ w(4), of k "length hs - k" hs] w(3) assms(3) by auto
  let ?w = "w'\<lparr>joiner_at := Waiting\<rparr>"
  have "coarse al l hs (start_joiner s) ?w"
    using w'(2) by (intro coarse_joiner [OF coarse_trans [OF w'(1) w(1)]]) (simp add: atomic_step_def joiner_step_def)
  then show ?thesis
    using w'(3-6) w(5) assms(3)
    by (intro exI [of _ ?w] exI [of _ ds]) (simp add: atomic_step_def joiner_step_def handler_step_def)
qed

text \<open>Two finished handlers.\<close>

abbreviation demo_entries :: "thread_data list" where
  "demo_entries \<equiv> [demo_td 21, demo_td 22]"

lemma demo_entries_distinct: "distinct (map thread_id demo_entries)"
  by (simp add: demo_td_def)


lemma joiner_misses_signals_witness:
  "\<exists>w ds. coarse demo_malloc 5 demo_entries (start_joiner (threads demo_server)) w \<and> joined w = [] \<and>
     map thread_id ds = [22, 21] \<and> registry demo_malloc 5 False Map.empty (jlist w) ds \<and> atomic_step 5 demo_entries w = Blocked"
proof -
  have reg: "registry demo_malloc 5 False Map.empty (threads demo_server) []" using demo_server_registry by simp
  have "rev (map thread_id (drop 0 demo_entries)) = [22, 21]" by (simp add: demo_td_def)
  then show ?thesis using joiner_misses_signals [OF reg demo_entries_distinct, of 0] by (metis length_0_conv le0)
qed

subsection \<open>Entries that are lost\<close>

lemma fine_joiners: "fine al l hs w0 w \<Longrightarrow> joiner_steps k l hs w = Next w' \<Longrightarrow> fine al l hs w0 w'"
proof (induction k arbitrary: w)
  case (Suc k)
  then obtain v where v: "joiner_step l hs w = Next v" "joiner_steps k l hs v = Next w'"
    by (cases "joiner_step l hs w") auto
  show ?case by (rule Suc.IH [OF fine_joiner [OF Suc.prems(1) v(1)] v(2)])
qed simp

lemma register_entry_repr:
  assumes al: "malloc_fresh al" and repr: "list_repr l s False as ds" and a: "al (mallocs s) (nodes s) = Some a"
  shows "\<exists>t. register_entry al l d s = Some t \<and> list_repr l t False (a # as) (d\<lparr>completion := True\<rparr> # ds) \<and>
    other_nodes t (a # as) = other_nodes s as \<and> a \<notin> set as"
proof -
  obtain s1 where s1: "pthread_mutex_lock l s = Some s1" "list_repr l s1 True as ds" "nodes s1 = nodes s" "mallocs s1 = mallocs s"
    using lock_ok [OF repr] by blast
  obtain s2 where s2: "insert_element_to_linked_list_no_mutex al l d s1 = Some s2" "list_repr l s2 True (a # as) (d # ds)"
      "keeps s1 as s2 (a # as)"
    using insert_no_mutex_ok [OF al s1(2), of a d] a s1(3,4) by auto
  obtain s3 where s3: "set_thread_status_no_mutex l (thread_id d) True s2 = Some s3"
      "list_repr l s3 True (a # as) (d\<lparr>completion := True\<rparr> # ds)" "keeps s2 (a # as) s3 (a # as)"
    using set_status_no_mutex_ok [OF s2(2), of "thread_id d" True] by auto
  obtain s4 where s4: "pthread_mutex_unlock l s3 = Some s4" "list_repr l s4 False (a # as) (d\<lparr>completion := True\<rparr> # ds)" "nodes s4 = nodes s3"
    using unlock_ok [OF s3(2)] by blast
  have "other_nodes s4 (a # as) = other_nodes s as"
    using s1(3) s2(3) s3(3) s4(3) by (simp add: keeps_def other_nodes_def)
  moreover have "a \<notin> set as" using s4(2) by (simp add: list_repr_def)
  ultimately show ?thesis using s1(1) s2(1) s3(1) s4(1,2) by (intro exI [of _ s4]) (simp add: register_entry_def)
qed

text \<open>A signal to a joiner that is about to wait, with an empty list.\<close>

lemma empty_list_undefined:
  assumes "list_repr l (jlist w) False [] []" and "joiner_at w = Entering" and "i < length hs" and "handler_at w i = Registered"
  shows "\<exists>w'. fine al l hs w w' \<and> joiner_step l hs w' = Undefined"
proof -
  have L: "lls (jlist w) l = Some \<lparr>head = NULL, mutex = False\<rparr>" using assms(1) by (auto simp: list_repr_def)
  let ?w1 = "w\<lparr>joiner_at := Waiting\<rparr>"
  have g1: "fine al l hs w ?w1" using assms(2) by (intro fine_joiner [OF fine_start]) (simp add: joiner_step_def)
  let ?w2 = "?w1\<lparr>handler_at := (handler_at w)(i := Signalled), joiner_at := Woken\<rparr>"
  have g2: "fine al l hs w ?w2" using assms(4) by (intro fine_handler [OF g1 assms(3)]) (simp add: handler_step_def)
  let ?w3 = "?w2\<lparr>joiner_at := Read_Old NULL\<rparr>"
  have "fine al l hs w ?w3" using L by (intro fine_joiner [OF g2]) (simp add: joiner_step_def)
  moreover have "joiner_step l hs ?w3 = Undefined" using L by (simp add: joiner_step_def get_node_def)
  ultimately show ?thesis by blast
qed

text \<open>Two registrations, one after the other.\<close>

lemma two_registrations:
  assumes "registry al l False Y s []"
  shows "\<exists>s1 s2 a0 a1. register_entry al l d s = Some s1 \<and> register_entry al l e s1 = Some s2 \<and> a1 \<noteq> a0 \<and> Y a1 = None \<and>
    list_repr l s1 False [a0] [d\<lparr>completion := True\<rparr>] \<and>
    list_repr l s2 False [a1, a0] [e\<lparr>completion := True\<rparr>, d\<lparr>completion := True\<rparr>]"
proof -
  have al: "malloc_fresh al" "malloc_total al" "finite (dom Y)" and r0: "list_repr l s False [] []" "other_nodes s [] = Y"
    using assms by (auto simp: registry_def list_repr_def entries_def)
  have "finite (dom (nodes s))" using al(3) r0(2) by (auto simp: other_nodes_def restrict_map_def)
  then obtain a0 where a0: "al (mallocs s) (nodes s) = Some a0" using al(2) by (auto simp: malloc_total_def)
  obtain s1 where s1: "register_entry al l d s = Some s1" "list_repr l s1 False [a0] [d\<lparr>completion := True\<rparr>]" "other_nodes s1 [a0] = Y"
    using register_entry_repr [OF al(1) r0(1) a0, of d] r0(2) by auto
  have "finite (dom (nodes s1))" by (rule finite_nodes [of _ "[a0]"]) (simp add: s1(3) al(3))
  then obtain a1 where a1: "al (mallocs s1) (nodes s1) = Some a1" using al(2) by (auto simp: malloc_total_def)
  obtain s2 where s2: "register_entry al l e s1 = Some s2"
      "list_repr l s2 False [a1, a0] [e\<lparr>completion := True\<rparr>, d\<lparr>completion := True\<rparr>]" "other_nodes s2 [a1, a0] = Y" "a1 \<noteq> a0"
    using register_entry_repr [OF al(1) s1(2) a1, of e] s1(3) by auto
  have "Y a1 = None" using s2(3) by (auto simp: other_nodes_def restrict_map_def)
  then show ?thesis using s1(1,2) s2(1,2,4) by blast
qed

text \<open>C29: entries are lost. With two handlers or more, there is a run of single steps in which the second
  handler registers after the joiner has read the successor of the head and before it stores it: the
  entry of the second handler is gone from the list although it was never joined, its node stays
  allocated with nothing that points to it, and the list is empty. When that handler gives its signal,
  the joiner follows the null head of the list.\<close>

theorem joiner_loses_entries:
  assumes "registry al l False Y s []" and "distinct (map thread_id hs)" and "2 \<le> length hs"
  shows "\<exists>w a n. fine al l hs (start_joiner s) w \<and> registered w = [0, 1] \<and> joined w = [thread_id (hs ! 0)] \<and>
    list_repr l (jlist w) False [] [] \<and> nodes (jlist w) a = Some n \<and> thread_id (data n) = thread_id (hs ! 1) \<and> Y a = None \<and>
    (\<exists>w'. fine al l hs w w' \<and> joiner_step l hs w' = Undefined)"
proof -
  let ?d0 = "(hs ! 0)\<lparr>completion := True\<rparr>" and ?d1 = "(hs ! 1)\<lparr>completion := True\<rparr>" and ?F = "fine al l hs (start_joiner s)"
  have lt: "0 < length hs" "1 < length hs" using assms(3) by auto
  obtain s1 s2 a0 a1 where s1: "register_entry al l (hs ! 0) s = Some s1" "list_repr l s1 False [a0] [?d0]"
      and s2: "register_entry al l (hs ! 1) s1 = Some s2" "list_repr l s2 False [a1, a0] [?d1, ?d0]" "a1 \<noteq> a0" and Ya: "Y a1 = None"
    using two_registrations [OF assms(1), of "hs ! 0" "hs ! 1"] by blast
  obtain n0 where n0: "lls s1 l = Some \<lparr>head = Ptr a0, mutex = False\<rparr>" "nodes s1 a0 = Some n0" "nxt n0 = NULL"
    using s1(2) by (auto simp: list_repr_def)
  obtain m0 m1 where m: "lls s2 l = Some \<lparr>head = Ptr a1, mutex = False\<rparr>" "nodes s2 a1 = Some m1" "nodes s2 a0 = Some m0"
      "data m1 = ?d1" "data m0 = ?d0"
    using s2(2) by (auto simp: list_repr_def)
  let ?w0 = "start_joiner s"
  let ?w1 = "?w0\<lparr>joiner_at := Waiting\<rparr>"
  have f1: "?F ?w1" by (intro fine_joiner [OF fine_start]) (simp add: joiner_step_def start_joiner_def)
  let ?w2 = "?w1\<lparr>jlist := s1, handler_at := (\<lambda>_. Working)(0 := Registered), registered := [0]\<rparr>"
  have f2: "?F ?w2" using s1(1) by (intro fine_handler [OF f1 lt(1)]) (simp add: handler_step_def start_joiner_def)
  let ?w3 = "?w2\<lparr>handler_at := (\<lambda>_. Working)(0 := Signalled), joiner_at := Woken\<rparr>"
  have f3: "?F ?w3" by (intro fine_handler [OF f2 lt(1)]) (simp add: handler_step_def)
  let ?w4 = "?w3\<lparr>joiner_at := Read_New (Ptr a0) NULL\<rparr>"
  have two: "(2 :: nat) = Suc (Suc 0)" by simp
  have f4: "?F ?w4" by (rule fine_joiners [OF f3, of 2]) (simp add: two joiner_step_def n0 get_node_def)
  let ?w5 = "?w4\<lparr>jlist := s2, handler_at := (\<lambda>_. Working)(0 := Signalled, 1 := Registered), registered := [0, 1]\<rparr>"
  have f5: "?F ?w5" using s2(1) by (intro fine_handler [OF f4 lt(2)]) (simp add: handler_step_def)
  let ?s3 = "s2\<lparr>lls := (lls s2)(l \<mapsto> \<lparr>head = NULL, mutex = False\<rparr>)\<rparr>"
  have empty: "list_repr l ?s3 False [] []" by (simp add: list_repr_def)
  obtain s4 bs where s4: "remove_element_from_linked_list_no_mutex l (thread_id (hs ! 0)) ?s3 = Some s4"
      "list_repr l s4 False bs []" "keeps ?s3 [] s4 bs" "bs = []"
    using remove_no_mutex_ok [OF empty, of "thread_id (hs ! 0)"] by auto
  have n4: "nodes s4 = nodes s2" using s4(3,4) by (simp add: keeps_def other_nodes_def restrict_map_def)
  let ?s5 = "s4\<lparr>nodes := (nodes s4)(a0 := None)\<rparr>"
  have nr: "\<not> running hs ((\<lambda>_. Working)(0 := Signalled, 1 := Registered)) (thread_id (hs ! 0))"
    using assms(2) lt by (auto simp: running_def distinct_conv_nth)
  let ?w6 = "?w5\<lparr>jlist := ?s5, joiner_at := Entering, joined := [thread_id (hs ! 0)]\<rparr>"
  have four: "(4 :: nat) = Suc (Suc (Suc (Suc 0)))" by simp
  have "joiner_steps 4 l hs ?w5 = Next ?w6"
    using m s4(1) n4 nr
    by (simp add: four joiner_step_def set_head_def get_node_def free_node_def start_joiner_def)
  then have f6: "?F ?w6" by (rule fine_joiners [OF f5])
  have l5: "list_repr l ?s5 False [] []" using s4(2,4) by (simp add: list_repr_def)
  have n1: "nodes ?s5 a1 = Some m1" using n4 m(2) s2(3) by simp
  have "\<exists>w'. fine al l hs ?w6 w' \<and> joiner_step l hs w' = Undefined"
    using l5 by (intro empty_list_undefined [OF _ _ lt(2)]) simp_all
  moreover have "registered ?w6 = [0, 1]" "joined ?w6 = [thread_id (hs ! 0)]" by simp_all
  moreover have "list_repr l (jlist ?w6) False [] []" "nodes (jlist ?w6) a1 = Some m1" using l5 n1 by simp_all
  moreover have "thread_id (data m1) = thread_id (hs ! 1)" using m(4) by simp
  ultimately show ?thesis using f6 Ya by blast
qed

lemma joiner_loses_entries_witness:
  "\<exists>w w'. fine demo_malloc 5 demo_entries (start_joiner (threads demo_server)) w \<and> joined w = [21] \<and> registered w = [0, 1] \<and>
     list_repr 5 (jlist w) False [] [] \<and> fine demo_malloc 5 demo_entries w w' \<and> joiner_step 5 demo_entries w' = Undefined"
proof -
  have reg: "registry demo_malloc 5 False Map.empty (threads demo_server) []" using demo_server_registry by simp
  have "thread_id (demo_entries ! 0) = 21" by (simp add: demo_td_def)
  then show ?thesis using joiner_loses_entries [OF reg demo_entries_distinct] by auto
qed

end
