(* ===== verification/Peer_Properties.thy ===== *)
theory Peer_Properties
  imports Server_Runs Handler_Frame
begin

text \<open>
  What the server logs about its peers.
\<close>

text \<open>C30: the address in the log. Whatever a handler receives, once it has run the string \<open>ip4\<close> and the log
  message about its connection are made of the address family and the port of the peer: \<open>2.0.\<close>, the
  upper and the lower byte of the port. The address of the peer plays no part, so two peers with the same
  port get the same text, and the text is the right one only if the peer is in the network
  \<open>2.0.0.0/16\<close>. The message of the signal handler repeats it.\<close>

theorem log_names_port_not_address:
  assumes "connection_handler E p self chunks s = Some t" and "fulldatas s p = Some f"
    and "0 \<le> file_descriptor (fd_data f)" and "sin_family (their_addr (fd_data f)) = AF_INET"
  shows "ip4 t = ascii ''2.0.'' @ dec (unat (sin_port (their_addr (fd_data f))) div 256) @ [46] @
      dec (unat (sin_port (their_addr (fd_data f))) mod 256) \<and>
    peer_log t = peer_log s @ [ascii ''Accepted connection from '' @ ip4 t] \<and> length (ip4 t) < 16 \<and>
    (ip4 t = dotted (sin_addr (their_addr (fd_data f))) \<longrightarrow> unat (sin_addr (their_addr (fd_data f))) div 65536 = 512) \<and>
    (\<forall>P P'. srv P = t \<and> signal_handler char_dev x P = Some P' \<longrightarrow>
       peer_log (srv P') = peer_log t @ [ascii ''Closed connection from '' @ ip4 t])"
proof -
  let ?a = "their_addr (fd_data f)"
  have t: "ip4 t = inet_ntop4 (sockaddr_bytes ?a)" "peer_log t = peer_log s @ [ascii ''Accepted connection from '' @ ip4 t]"
    using handler_peer [OF assms(1,2)] assms(3) by (simp_all add: log_accept_def Let_def)
  have d: "dec 2 = [50]" "dec 0 = [48]" by (simp_all add: dec.simps)
  have "ip4 t = ascii ''2.0.'' @ dec (unat (sin_port ?a) div 256) @ [46] @ dec (unat (sin_port ?a) mod 256)"
    unfolding t(1) inet_ntop_sockaddr [OF assms(4)] d by (simp add: ascii_def)
  moreover have "length (ip4 t) < 16" unfolding t(1) using length_inet_ntop4 [of "sockaddr_bytes ?a"] by simp
  moreover have "ip4 t = dotted (sin_addr ?a) \<longrightarrow> unat (sin_addr ?a) div 65536 = 512"
    unfolding t(1) using inet_ntop_sockaddr_dotted [OF assms(4)] by blast
  moreover have "peer_log (srv P') = peer_log t @ [ascii ''Closed connection from '' @ ip4 t]"
    if "srv P = t" "signal_handler char_dev x P = Some P'" for P P'
    using that
    by (cases char_dev) (auto simp: signal_handler_def Let_def bind_eq_Some_conv log_closed_def dest!: lock_peer memory_peer)
  ultimately show ?thesis using t(2) by blast
qed

lemma log_names_port_not_address_witness:
  "\<exists>t. connection_handler demo_env 7 21 [[104, 105, NEWLINE]] demo_server = Some t \<and> ip4 t = ascii ''2.0.35.40''"
proof -
  obtain x d where w: "d_write (e_dev demo_env) ([] @ [104, 105, NEWLINE]) (device_of demo_server) = Some (x, d)"
    using chardev.write_law [OF demo_device, of "[104, 105, NEWLINE]"] by auto
  have f: "fulldatas demo_server 7 = Some \<lparr>fd_list = 5, fd_data = demo_td 0\<rparr>" by (simp add: demo_server_def)
  obtain t where t: "connection_handler demo_env 7 21 [[104, 105, NEWLINE]] demo_server = Some t"
    using message_handled [OF demo_env_ok demo_ready demo_short(1) _ f _ w, of Map.empty "[]" 21 "[]"]
      demo_server_registry by (auto simp: new_cap_def)
  have "dec 35 = [51, 53]" "dec 40 = [52, 48]" by (simp_all add: dec.simps)
  then show ?thesis
    using log_names_port_not_address [OF t f] t by (auto simp: demo_td_def ascii_def)
qed

end
