(* ===== verification/Timer_Thread.thy ===== *)
theory Timer_Thread
  imports Socket_Correct
begin

text \<open>
  The timer thread of the build without the character device: \<open>printing_time\<close> of
  \<open>server/aesdsocket.c\<close> and \<open>get_time\<close> of \<open>server/socket_core.c\<close>. Every ten seconds it appends a time
  stamp to the reply string and to the file. \<open>strftime\<close> is modelled for the format in use and the
  locale \<open>C\<close>, in which the program runs since it never calls \<open>setlocale\<close>.
\<close>

subsection \<open>The time stamp\<close>

record tm =
  tm_sec :: int
  tm_min :: int
  tm_hour :: int
  tm_mday :: int
  tm_mon :: int
  tm_year :: int
  tm_wday :: int
  tm_gmtoff :: int

text \<open>What \<open>localtime\<close> guarantees of its result.\<close>

definition tm_valid :: "tm \<Rightarrow> bool" where
  "tm_valid t \<longleftrightarrow> tm_sec t \<in> {0..60} \<and> tm_min t \<in> {0..59} \<and> tm_hour t \<in> {0..23} \<and> tm_mday t \<in> {1..31} \<and>
     tm_mon t \<in> {0..11} \<and> tm_wday t \<in> {0..6} \<and> \<bar>tm_gmtoff t\<bar> < 360000"

definition pad2 :: "int \<Rightarrow> byte list" where
  "pad2 n = [48 + of_int (n div 10), 48 + of_int (n mod 10)]"

definition dec_int :: "int \<Rightarrow> byte list" where
  "dec_int n = (if n < 0 then ascii ''-'' @ dec (nat (- n)) else dec (nat n))"

text \<open>The names of the days and months, and \<open>?\<close> for a number that has none.\<close>

definition name_of :: "string list \<Rightarrow> int \<Rightarrow> byte list" where
  "name_of names n = (if 0 \<le> n \<and> n < int (length names) then ascii (names ! nat n) else ascii ''?'')"

definition weekdays :: "string list" where
  "weekdays = [''Sun'', ''Mon'', ''Tue'', ''Wed'', ''Thu'', ''Fri'', ''Sat'']"

definition months :: "string list" where
  "months = [''Jan'', ''Feb'', ''Mar'', ''Apr'', ''May'', ''Jun'', ''Jul'', ''Aug'', ''Sep'', ''Oct'', ''Nov'', ''Dec'']"

text \<open>The format \<open>timestamp:%a, %d %b %Y %T %z\<close> and a newline.\<close>

definition timestamp :: "tm \<Rightarrow> byte list" where
  "timestamp t =
     ascii ''timestamp:'' @ name_of weekdays (tm_wday t) @ ascii '', '' @ pad2 (tm_mday t) @ ascii '' '' @
     name_of months (tm_mon t) @ ascii '' '' @ dec_int (1900 + tm_year t) @ ascii '' '' @
     pad2 (tm_hour t) @ ascii '':'' @ pad2 (tm_min t) @ ascii '':'' @ pad2 (tm_sec t) @ ascii '' '' @
     (if tm_gmtoff t < 0 then ascii ''-'' else ascii ''+'') @
     pad2 (\<bar>tm_gmtoff t\<bar> div 3600) @ pad2 (\<bar>tm_gmtoff t\<bar> div 60 mod 60) @ [NEWLINE]"

text \<open>\<open>get_time\<close>: \<open>now\<close> is the result of \<open>localtime\<close>, whose failure is printed before its result is used
  anyway. \<open>strftime\<close> is told that the buffer has 200 bytes; a longer text would leave it unspecified.\<close>

definition get_time :: "tm option \<Rightarrow> ptr \<Rightarrow> 'a cmem_scheme \<Rightarrow> 'a cmem_scheme option" where
  "get_time now outstr s =
     (case now of
        None \<Rightarrow> None
      | Some t \<Rightarrow>
          if length (timestamp t) < 200
          then do { h \<leftarrow> store_cells (heap s) outstr 0 (map Some (timestamp t @ [0])); Some (s\<lparr>heap := h\<rparr>) }
          else None)"

text \<open>One round of the loop after its wait. \<open>date\<close> is the local buffer of 100 bytes; \<open>app\<close> is a write
  through a descriptor of the thread's own, opened and closed around it, with its result.\<close>

definition timer_round ::
  "(byte list \<Rightarrow> 'd \<Rightarrow> int \<times> 'd) \<Rightarrow> tm option \<Rightarrow> ptr \<Rightarrow> 'd server \<Rightarrow> 'd server option" where
  "timer_round app now date s =
     do { s \<leftarrow> get_time now date s;
          s \<leftarrow> lock_reply s;
          s \<leftarrow> c_strcat (to_write s) date s;
          s \<leftarrow> unlock_reply s;
          s \<leftarrow> lock_file s;
          n \<leftarrow> c_strlen (heap s) date;
          bs \<leftarrow> load_bytes (heap s) date 0 n;
          let (written, d) = app bs (device_of s);
          unlock_file (s\<lparr>device_of := d\<rparr>) }"

text \<open>The rounds of the loop, one for each time.\<close>

fun timer_rounds ::
  "(byte list \<Rightarrow> 'd \<Rightarrow> int \<times> 'd) \<Rightarrow> tm list \<Rightarrow> ptr \<Rightarrow> 'd server \<Rightarrow> 'd server option" where
  "timer_rounds app [] date s = Some s"
| "timer_rounds app (t # ts) date s = do { s \<leftarrow> timer_round app (Some t) date s; timer_rounds app ts date s }"

subsection \<open>The length of a time stamp\<close>

lemma length_ascii [simp]: "length (ascii cs) = length cs"
  by (simp add: ascii_def)

lemma length_pad2 [simp]: "length (pad2 n) = 2"
  by (simp add: pad2_def)

lemma name_of_length: "\<forall>x \<in> set names. length x = 3 \<Longrightarrow> 0 \<le> n \<Longrightarrow> n < int (length names) \<Longrightarrow> length (name_of names n) = 3"
  by (simp add: name_of_def nat_less_iff)

lemma length_dec: "10 ^ k \<le> n \<Longrightarrow> n < 10 ^ Suc k \<Longrightarrow> length (dec n) = Suc k"
proof (induction k arbitrary: n)
  case 0
  then show ?case by (subst dec.simps) simp
next
  case (Suc k)
  have "10 ^ k \<le> n div 10" "n div 10 < 10 ^ Suc k"
    using Suc.prems by (simp_all add: less_eq_div_iff_mult_less_eq div_less_iff_less_mult mult.commute)
  moreover have "\<not> n < 10"
    using order.trans [OF _ Suc.prems(1), of 10] one_le_power [of "10 :: nat" k] by simp
  ultimately show ?case using Suc.IH [of "n div 10"] by (subst dec.simps) simp
qed

text \<open>In the years from 1000 to 9999 all time stamps are 42 bytes long.\<close>

definition in_calendar :: "tm \<Rightarrow> bool" where
  "in_calendar t \<longleftrightarrow> tm_valid t \<and> - 900 \<le> tm_year t \<and> tm_year t < 8100"

lemma length_timestamp: "in_calendar t \<Longrightarrow> length (timestamp t) = 42"
proof -
  assume t: "in_calendar t"
  have "length (name_of weekdays (tm_wday t)) = 3"
    using t by (intro name_of_length) (simp_all add: weekdays_def in_calendar_def tm_valid_def)
  moreover have "length (name_of months (tm_mon t)) = 3"
    using t by (intro name_of_length) (simp_all add: months_def in_calendar_def tm_valid_def)
  moreover have "length (dec_int (1900 + tm_year t)) = 4"
    using t length_dec [of 3 "nat (1900 + tm_year t)"] by (auto simp: dec_int_def in_calendar_def)
  ultimately show ?thesis by (simp add: timestamp_def)
qed

text \<open>A time stamp is a string: it contains no terminator.\<close>

lemma pad2_no_zero: "0 \<le> n \<Longrightarrow> n < 100 \<Longrightarrow> 0 \<notin> set (pad2 n)"
proof -
  have d: "48 + of_int k \<noteq> (0 :: byte)" if "0 \<le> k" "k < 10" for k
    using digit_byte(4) [of "nat k"] that by simp
  assume n: "0 \<le> n" "n < 100"
  have "0 \<le> n div 10" "n div 10 < 10" "0 \<le> n mod 10" "n mod 10 < 10" using n by presburger+
  then have "48 + of_int (n div 10) \<noteq> (0 :: byte)" "48 + of_int (n mod 10) \<noteq> (0 :: byte)" using d by blast+
  then show ?thesis by (auto simp: pad2_def dest: sym)
qed

lemma dec_no_zero: "0 \<notin> set (dec n)"
  using dec_digits [of 0 n] digit_byte(4) by metis

lemma name_no_zero: "\<forall>x \<in> set names. 0 \<notin> set (ascii x) \<Longrightarrow> 0 \<notin> set (name_of names n)"
proof -
  assume names: "\<forall>x \<in> set names. 0 \<notin> set (ascii x)"
  have "0 \<notin> set (ascii ''?'')" by (simp add: ascii_def)
  then show ?thesis using names by (auto simp: name_of_def nat_less_iff)
qed

lemma pad2_offset: "0 \<le> a \<Longrightarrow> a < 360000 \<Longrightarrow> 0 \<notin> set (pad2 (a div 3600)) \<and> 0 \<notin> set (pad2 (a div 60 mod 60))"
proof -
  assume a: "0 \<le> a" "a < 360000"
  have "a div 3600 \<le> 359999 div 3600" using a(2) by (intro zdiv_mono1) simp_all
  moreover have "a div 60 mod 60 < 60" by (rule pos_mod_bound) simp
  ultimately have "0 \<le> a div 3600" "a div 3600 < 100" "0 \<le> a div 60 mod 60" "a div 60 mod 60 < 100"
    using a(1) by simp_all
  then show ?thesis using pad2_no_zero by blast
qed

lemma ascii_parts_no_zero:
  "0 \<notin> set (ascii ''timestamp:'')" "0 \<notin> set (ascii '', '')" "0 \<notin> set (ascii '' '')" "0 \<notin> set (ascii '':'')"
  "0 \<notin> set (if neg then ascii ''-'' else ascii ''+'')" "0 \<notin> set [NEWLINE]"
  by (simp_all add: ascii_def)

lemma names_no_zero: "0 \<notin> set (name_of weekdays n)" "0 \<notin> set (name_of months n)"
  by (rule name_no_zero, simp add: weekdays_def months_def ascii_def)+

lemma dec_int_no_zero: "0 \<notin> set (dec_int n)"
  using dec_no_zero ascii_parts_no_zero(5) [of True] by (auto simp: dec_int_def)

lemma timestamp_no_zero:
  assumes "tm_valid t"
  shows "0 \<notin> set (timestamp t)"
proof -
  have "0 \<notin> set (pad2 (\<bar>tm_gmtoff t\<bar> div 3600))" "0 \<notin> set (pad2 (\<bar>tm_gmtoff t\<bar> div 60 mod 60))"
    using assms pad2_offset [of "\<bar>tm_gmtoff t\<bar>"] by (simp_all add: tm_valid_def)
  moreover have "0 \<notin> set (pad2 (tm_mday t))" "0 \<notin> set (pad2 (tm_hour t))" "0 \<notin> set (pad2 (tm_min t))"
    "0 \<notin> set (pad2 (tm_sec t))"
    using assms by (intro pad2_no_zero; simp add: tm_valid_def)+
  ultimately show ?thesis
    unfolding timestamp_def set_append Un_iff using ascii_parts_no_zero names_no_zero dec_int_no_zero by blast
qed

subsection \<open>The rounds\<close>

text \<open>The local buffer at \<open>a\<close>, which is not the block of the reply string.\<close>

definition date_buffer :: "'d server \<Rightarrow> nat \<Rightarrow> bool" where
  "date_buffer s a \<longleftrightarrow> to_write s \<noteq> Ptr a \<and> (\<exists>cs. heap s a = Some cs \<and> length cs = 100)"

text \<open>\<open>get_time\<close> stays within the buffer, although it allows \<open>strftime\<close> to use twice its size.\<close>

lemma get_time_ok:
  assumes t: "in_calendar t" and a: "heap s a = Some cs" "length cs = 100"
  shows "\<exists>c. get_time (Some t) (Ptr a) s = Some (s\<lparr>heap := (heap s)(a \<mapsto> c)\<rparr>) \<and> string_block c (timestamp t) 100"
proof -
  note n = length_timestamp [OF t]
  let ?c = "map Some (timestamp t) @ Some 0 # drop 43 cs"
  have "get_time (Some t) (Ptr a) s = Some (s\<lparr>heap := (heap s)(a \<mapsto> ?c)\<rparr>)"
    using a n by (simp add: get_time_def store_cells_def)
  moreover have "string_block ?c (timestamp t) 100"
    using timestamp_no_zero [of t] t a(2) n by (auto simp: string_block_def in_calendar_def)
  ultimately show ?thesis by blast
qed

text \<open>A round appends the time stamp if it fits into the block of the reply string, which it never
  enlarges; otherwise \<open>strcat\<close> leaves the block.\<close>

lemma timer_round_ok:
  assumes t: "in_calendar t" and a: "date_buffer s a" and r: "ready s hist cap"
  shows "if length hist + 42 < cap
    then \<exists>h. timer_round app (Some t) (Ptr a) s =
        Some (s\<lparr>heap := h, device_of := snd (app (timestamp t) (device_of s))\<rparr>) \<and>
      ready (s\<lparr>heap := h\<rparr>) (hist @ timestamp t) cap \<and> date_buffer (s\<lparr>heap := h\<rparr>) a \<and>
      others (s\<lparr>heap := h\<rparr>) |` (- {a}) = others s |` (- {a})
    else timer_round app (Some t) (Ptr a) s = None"
proof -
  obtain b cb where b: "to_write s = Ptr b" "heap s b = Some cb" "string_block cb hist cap"
    and un: "\<not> reply_mutex s" "\<not> file_mutex s"
    using r by (auto simp: ready_def string_at_def)
  obtain cs where cs: "heap s a = Some cs" "length cs = 100" and ab: "a \<noteq> b"
    using a b(1) by (auto simp: date_buffer_def)
  obtain c where c: "get_time (Some t) (Ptr a) s = Some (s\<lparr>heap := (heap s)(a \<mapsto> c)\<rparr>)" "string_block c (timestamp t) 100"
    using get_time_ok [where s = s, OF t cs] by blast
  let ?s1 = "s\<lparr>heap := (heap s)(a \<mapsto> c), reply_mutex := True\<rparr>"
  have h: "heap ?s1 b = Some cb" "heap ?s1 a = Some c" using b(2) ab by simp_all
  note n = length_timestamp [OF t]
  show ?thesis
  proof (cases "length hist + 42 < cap")
    case True
    obtain cc where cat: "c_strcat (Ptr b) (Ptr a) ?s1 = Some (?s1\<lparr>heap := (heap ?s1)(b \<mapsto> cc)\<rparr>)"
        "string_block cc (hist @ timestamp t) cap"
      using strcat_ok [OF h(1) b(3) h(2) c(2)] True n by auto
    let ?h = "(heap s)(a \<mapsto> c, b \<mapsto> cc)"
    have ha: "heap (s\<lparr>heap := ?h\<rparr>) a = Some c" using ab by simp
    have ld: "c_strlen ?h (Ptr a) = Some (length (timestamp t))" "load_bytes ?h (Ptr a) 0 (length (timestamp t)) = Some (timestamp t)"
      using c_strlen_block [OF ha c(2)] load_string [OF ha c(2)] by simp_all
    have "s\<lparr>heap := ?h, reply_mutex := False, file_mutex := False, device_of := d\<rparr> = s\<lparr>heap := ?h, device_of := d\<rparr>" for d
      using un by (cases s) simp
    then have "timer_round app (Some t) (Ptr a) s = Some (s\<lparr>heap := ?h, device_of := snd (app (timestamp t) (device_of s))\<rparr>)"
      using c(1) cat(1) b(1) ld un
      by (simp add: timer_round_def lock_reply_def unlock_reply_def lock_file_def unlock_file_def Let_def
          split: prod.split del: fun_upd_apply)
    moreover have "ready (s\<lparr>heap := ?h\<rparr>) (hist @ timestamp t) cap"
      using r cat(2) b(1) ab by (simp add: ready_def string_at_def)
    moreover have "date_buffer (s\<lparr>heap := ?h\<rparr>) a"
      using b(1) ab c(2) by (simp add: date_buffer_def string_block_def)
    moreover have "others (s\<lparr>heap := ?h\<rparr>) |` (- {a}) = others s |` (- {a})"
      using b(1) by (auto simp: others_def restrict_map_def fun_eq_iff)
    ultimately show ?thesis using True by auto
  next
    case False
    then have "c_strcat (Ptr b) (Ptr a) ?s1 = None"
      using strcat_overflow [OF h(1) b(3) h(2) c(2)] n by simp
    then show ?thesis
      using c(1) b(1) un False by (simp add: timer_round_def lock_reply_def)
  qed
qed

lemma timer_rounds_ok:
  "ready s hist cap \<Longrightarrow> date_buffer s a \<Longrightarrow> \<forall>t \<in> set ts. in_calendar t \<Longrightarrow>
   if length hist + 42 * length ts < cap
   then \<exists>s'. timer_rounds app ts (Ptr a) s = Some s' \<and> ready s' (hist @ concat (map timestamp ts)) cap \<and>
     device_of s' = fold (\<lambda>t d. snd (app (timestamp t) d)) ts (device_of s)
   else timer_rounds app ts (Ptr a) s = None"
proof (induction ts arbitrary: s hist)
  case Nil
  then have "length hist < cap" by (auto simp: ready_def string_at_def string_block_def)
  then show ?case using Nil by simp
next
  case (Cons t ts)
  have t: "in_calendar t" using Cons.prems(3) by simp
  note rd = timer_round_ok [OF t Cons.prems(2,1), of app]
  show ?case
  proof (cases "length hist + 42 < cap")
    case False
    then show ?thesis using rd by simp
  next
    case True
    then obtain h where h: "timer_round app (Some t) (Ptr a) s =
        Some (s\<lparr>heap := h, device_of := snd (app (timestamp t) (device_of s))\<rparr>)" (is "_ = Some ?s")
      "ready (s\<lparr>heap := h\<rparr>) (hist @ timestamp t) cap" "date_buffer (s\<lparr>heap := h\<rparr>) a"
      using rd by auto
    have "ready ?s (hist @ timestamp t) cap" "date_buffer ?s a"
      using h(2,3) by (simp_all add: ready_def string_at_def date_buffer_def)
    then show ?thesis
      using Cons.IH [of ?s "hist @ timestamp t"] Cons.prems(3) h(1) length_timestamp [OF t] by (auto split: if_splits)
  qed
qed

end
