(* ===== verification/File_Server.thy ===== *)
theory File_Server
  imports Server_Properties Timer_Thread
begin

text \<open>
  The server as it is built without the character device (\<open>USE_AESD_CHAR_DEVICE\<close> of
  \<open>server/signal_handler.h\<close> undefined): \<open>TEMP_FILE_PATH\<close> is a regular file, opened with \<open>O_APPEND\<close>,
  and the timer thread runs beside the connections. The visits of clients and the rounds of the timer
  come one after the other, in any order.
\<close>

subsection \<open>The file\<close>

text \<open>A regular file: its content and the position of the open descriptor. Every write goes to the end,
  and a regular file does not know the seek request. The timer has a descriptor of its own.\<close>

definition file_device :: "(byte list \<times> nat) device" where
  "file_device =
     \<lparr>d_read = \<lambda>n (c, p). let out = take n (drop p c) in Some (int (length out), out, (c, p + length out)),
      d_write = \<lambda>bs (c, p). Some (int (length bs), (c @ bs, length c + length bs)),
      d_seekto = \<lambda>arg d. Some (- 1, d)\<rparr>"

definition append_file :: "byte list \<Rightarrow> byte list \<times> nat \<Rightarrow> int \<times> byte list \<times> nat" where
  "append_file bs d = (case d of (c, p) \<Rightarrow> (int (length bs), (c @ bs, p)))"

subsection \<open>Visits and rounds\<close>

datatype visit = Connection nat pthread_t "byte list list" | Tick tm

fun run_visits :: "'d env \<Rightarrow> (byte list \<Rightarrow> 'd \<Rightarrow> int \<times> 'd) \<Rightarrow> ptr \<Rightarrow> visit list \<Rightarrow> 'd server \<Rightarrow> 'd server option" where
  "run_visits E app date [] s = Some s"
| "run_visits E app date (Connection p self chunks # vs) s =
     do { s \<leftarrow> connection_handler E p self chunks s; run_visits E app date vs s }"
| "run_visits E app date (Tick t # vs) s =
     do { s \<leftarrow> timer_round app (Some t) date s; run_visits E app date vs s }"

text \<open>What a visit adds to the reply string, and what it writes to the file: a client is sent the same.\<close>

fun said :: "visit \<Rightarrow> byte list" where
  "said (Connection p self chunks) = (if one_read chunks then text_of chunks else [])"
| "said (Tick t) = timestamp t"

fun outcome :: "byte list \<Rightarrow> visit \<Rightarrow> byte list" where
  "outcome hist (Connection p self chunks) = (if one_read chunks then hist @ text_of chunks else [])"
| "outcome hist (Tick t) = timestamp t"

fun outcomes :: "byte list \<Rightarrow> visit list \<Rightarrow> byte list list" where
  "outcomes hist [] = []"
| "outcomes hist (v # vs) = outcome hist v # outcomes (hist @ said v) vs"

lemma length_outcomes [simp]: "length (outcomes hist vs) = length vs"
  by (induction vs arbitrary: hist) auto

lemma outcomes_nth:
  "i < length vs \<Longrightarrow> outcomes hist vs ! i = outcome (hist @ concat (map said (take i vs))) (vs ! i)"
  by (induction vs arbitrary: hist i) (auto simp: nth_Cons split: nat.split)

fun visit_arg :: "visit \<Rightarrow> nat list" where
  "visit_arg (Connection p self chunks) = [p]"
| "visit_arg (Tick t) = []"

definition args_of :: "visit list \<Rightarrow> nat list" where
  "args_of vs = concat (map visit_arg vs)"

definition arg_fd :: "(nat \<rightharpoonup> full_data) \<Rightarrow> nat \<Rightarrow> int" where
  "arg_fd F p = file_descriptor (fd_data (the (F p)))"

text \<open>The clients send at most one short read or a seek command.\<close>

fun visit_ok :: "visit \<Rightarrow> bool" where
  "visit_ok (Connection p self chunks) = (one_read chunks \<or> (case chunks of [] \<Rightarrow> False | m # _ \<Rightarrow> seek_message m))"
| "visit_ok (Tick t) = in_calendar t"

subsection \<open>One visit\<close>

lemma connection_visit:
  assumes al: "allocator_ok lim (e_alloc E)" "allocator_serves 4096 (e_alloc E)" and E: "e_dev E = file_device" "sends_all E"
    and r: "ready s hist cap" "1024 \<le> cap" and v: "visit_ok (Connection p self chunks)" and room: "length hist < 1024"
    and f: "fulldatas s p = Some f" and reg: "registry (e_node E) (fd_list f) False X (threads s) ds"
  shows "\<exists>s' cap'. connection_handler E p self chunks s = Some s' \<and> ready s' (hist @ said (Connection p self chunks)) cap' \<and>
    1024 \<le> cap' \<and> sent s' = (sent s)(file_descriptor (fd_data f) :=
      sent s (file_descriptor (fd_data f)) @ outcome hist (Connection p self chunks)) \<and>
    fst (device_of s') = fst (device_of s) @ outcome hist (Connection p self chunks) \<and>
    registry (e_node E) (fd_list f) False X (threads s') ((fd_data f)\<lparr>thread_id := self, completion := True\<rparr> # ds) \<and>
    fulldatas s' = (fulldatas s)(p := None) \<and> others s' = others s"
proof (cases "one_read chunks")
  case True
  define m where "m = text_of chunks"
  have w: "d_write (e_dev E) (hist @ m) (device_of s) =
      Some (int (length (hist @ m)), (fst (device_of s) @ hist @ m, length (fst (device_of s)) + length (hist @ m)))"
    by (simp add: E(1) file_device_def split_beta)
  have fit: "length hist + length m < new_cap hist cap"
    using room text_of_short [OF True] by (simp add: new_cap_def m_def)
  have all: "take (nat (e_send E k (length (hist @ m)))) (hist @ m) = hist @ m" for k
    using E(2) by (simp add: sends_all_def)
  obtain b h c t where h: "connection_handler E p self chunks s =
      Some ((peer_logged f s)\<lparr>heap := h, calls := c, to_write := Ptr b,
        device_of := (fst (device_of s) @ hist @ m, length (fst (device_of s)) + length (hist @ m)), threads := t,
        sent := (sent s)(file_descriptor (fd_data f) := sent s (file_descriptor (fd_data f)) @ hist @ m),
        closed_fds := closed_fds s @ [file_descriptor (fd_data f)],
        join_signals := Suc (join_signals s), fulldatas := (fulldatas s)(p := None)\<rparr>)" (is "_ = Some ?s")
    and r': "ready (s\<lparr>heap := h, to_write := Ptr b\<rparr>) (hist @ m) (new_cap hist cap)" "h |` (- {b}) = others s"
    and reg': "registry (e_node E) (fd_list f) False X t ((fd_data f)\<lparr>thread_id := self, completion := True\<rparr> # ds)"
    using text_handled [OF al r(1) True m_def [symmetric] fit f reg w, of self] unfolding all by blast
  have "ready ?s (hist @ m) (new_cap hist cap)" "others ?s = others s"
    using r' by (simp_all add: ready_def string_at_def others_def)
  moreover have "1024 \<le> new_cap hist cap" using r(2) by (simp add: new_cap_def)
  moreover have "said (Connection p self chunks) = m" "outcome hist (Connection p self chunks) = hist @ m"
    using True by (simp_all add: m_def)
  ultimately show ?thesis using h reg' by (intro exI [of _ ?s] exI [of _ "new_cap hist cap"]) simp
next
  case False
  then obtain m cs where m: "chunks = m # cs" "seek_message m" using v by (auto split: list.splits)
  obtain k cmd off where scan: "sscanf_seekto m = Some (k, cmd, off)" using m(2) by (auto simp: seek_message_def)
  have seek: "d_seekto (e_dev E) \<lparr>write_cmd = word_of_int cmd, write_cmd_offset = word_of_int off\<rparr> (device_of s) = Some (- 1, device_of s)"
    by (simp add: E(1) file_device_def)
  obtain k snt t where h: "connection_handler E p self (m # cs) s =
      Some ((peer_logged f s)\<lparr>calls := k, device_of := device_of s, threads := t, sent := snt,
        closed_fds := closed_fds s @ [file_descriptor (fd_data f)],
        join_signals := Suc (join_signals s), fulldatas := (fulldatas s)(p := None)\<rparr>)" (is "_ = Some ?s")
    and snt: "snt = (sent s)(file_descriptor (fd_data f) := sent s (file_descriptor (fd_data f)) @ [])"
    and reg': "registry (e_node E) (fd_list f) False X t ((fd_data f)\<lparr>thread_id := self, completion := True\<rparr> # ds)"
    using request_handled [OF al r(1) _ _ _ _ scan f reg seek, of "[]" "device_of s" self cs] m(2) E(2)
    by (auto simp: seek_message_def)
  have "ready ?s hist cap" "others ?s = others s"
    using r(1) by (simp_all add: ready_def string_at_def others_def)
  then show ?thesis
    using h snt reg' r(2) False m(1) by (intro exI [of _ ?s] exI [of _ cap]) simp
qed

subsection \<open>A run\<close>

text \<open>The state between two visits: the reply string with a block that is at least as long as a local one,
  the buffer of the timer, the list.\<close>

definition between :: "'d env \<Rightarrow> nat \<Rightarrow> (nat \<rightharpoonup> node) \<Rightarrow> nat \<Rightarrow> byte list \<Rightarrow> thread_data list \<Rightarrow> 'd server \<Rightarrow> bool" where
  "between E l X a hist ds s \<longleftrightarrow>
     (\<exists>cap. ready s hist cap \<and> 1024 \<le> cap) \<and> date_buffer s a \<and> registry (e_node E) l False X (threads s) ds"

text \<open>The argument blocks of the clients of a run: one for each, with a connection of its own.\<close>

definition clients_wait :: "nat \<Rightarrow> (nat \<rightharpoonup> full_data) \<Rightarrow> visit list \<Rightarrow> bool" where
  "clients_wait l F vs \<longleftrightarrow> distinct (args_of vs) \<and> inj_on (arg_fd F) (set (args_of vs)) \<and>
     (\<forall>p \<in> set (args_of vs). \<exists>f. F p = Some f \<and> fd_list f = l)"

lemma args_of_simps [simp]: "args_of [] = []" "args_of (v # vs) = visit_arg v @ args_of vs"
  by (simp_all add: args_of_def)

lemma clients_wait_Cons:
  assumes "clients_wait l F (v # vs)" and "F' = F |` (- set (visit_arg v))"
  shows "clients_wait l F' vs"
    and "q \<in> set (args_of vs) \<Longrightarrow> arg_fd F' q = arg_fd F q \<and> arg_fd F q \<notin> arg_fd F ` set (visit_arg v)"
proof -
  have dis: "set (visit_arg v) \<inter> set (args_of vs) = {}" using assms(1) by (simp add: clients_wait_def)
  have eq: "arg_fd F' q = arg_fd F q" "F' q = F q" if "q \<in> set (args_of vs)" for q
  proof -
    have "q \<notin> set (visit_arg v)" using dis that by blast
    then show "arg_fd F' q = arg_fd F q" "F' q = F q" by (simp_all add: assms(2) arg_fd_def)
  qed
  have inj: "inj_on (arg_fd F) (set (visit_arg v) \<union> set (args_of vs))" using assms(1) by (simp add: clients_wait_def)
  have "inj_on (arg_fd F') (set (args_of vs))" using inj eq(1) by (auto simp: inj_on_def)
  then show "clients_wait l F' vs" using assms(1) eq(2) by (simp add: clients_wait_def)
  show "q \<in> set (args_of vs) \<Longrightarrow> arg_fd F' q = arg_fd F q \<and> arg_fd F q \<notin> arg_fd F ` set (visit_arg v)"
    using inj_on_image_mem_iff [OF inj, of q "set (visit_arg v)"] eq(1) dis by auto
qed

lemma others_date:
  "date_buffer s a \<Longrightarrow> others s' = others s \<Longrightarrow> ready s' hist cap \<Longrightarrow> date_buffer s' a"
  by (cases "to_write s"; cases "to_write s'")
    (auto simp: date_buffer_def others_def restrict_map_def ready_def string_at_def fun_eq_iff dest!: spec [of _ a] split: if_splits)

text \<open>One visit: what it leaves.\<close>

definition visited :: "(byte list \<times> nat) env \<Rightarrow> nat \<Rightarrow> (nat \<rightharpoonup> node) \<Rightarrow> nat \<Rightarrow> byte list \<Rightarrow> thread_data list \<Rightarrow>
    nat list \<Rightarrow> byte list \<Rightarrow> (byte list \<times> nat) server \<Rightarrow> (byte list \<times> nat) server \<Rightarrow> bool" where
  "visited E l X a hist ds ps added s s' \<longleftrightarrow>
     (\<exists>ds'. between E l X a hist (ds' @ ds) s' \<and> length ds' = length ps \<and> (\<forall>d \<in> set ds'. completion d)) \<and>
     fst (device_of s') = fst (device_of s) @ added \<and>
     fulldatas s' = fulldatas s |` (- set ps) \<and> others s' |` (- {a}) = others s |` (- {a})"

lemma visit_step:
  assumes al: "allocator_ok lim (e_alloc E)" "allocator_serves 4096 (e_alloc E)" and E: "e_dev E = file_device" "sends_all E"
    and b: "between E l X a hist ds s" and F: "clients_wait l (fulldatas s) (v # vs)" and v: "visit_ok v"
    and len: "length (hist @ said v) < 1024"
  shows "\<exists>s'. run_visits E append_file (Ptr a) [v] s = Some s' \<and>
    visited E l X a (hist @ said v) ds (visit_arg v) (outcome hist v) s s' \<and>
    (\<forall>fd. sent s' fd = sent s fd @ (if fd \<in> arg_fd (fulldatas s) ` set (visit_arg v) then outcome hist v else []))"
proof -
  obtain cap where r: "ready s hist cap" "1024 \<le> cap" and date: "date_buffer s a" and reg: "registry (e_node E) l False X (threads s) ds"
    using b by (auto simp: between_def)
  show ?thesis
  proof (cases v)
    case (Tick t)
    have t: "in_calendar t" using v Tick by simp
    have "length hist + 42 < cap" using len r(2) length_timestamp [OF t] by (simp add: Tick)
    then obtain h where h: "timer_round append_file (Some t) (Ptr a) s =
        Some (s\<lparr>heap := h, device_of := snd (append_file (timestamp t) (device_of s))\<rparr>)" (is "_ = Some ?s")
      "ready (s\<lparr>heap := h\<rparr>) (hist @ timestamp t) cap" "date_buffer (s\<lparr>heap := h\<rparr>) a"
      "others (s\<lparr>heap := h\<rparr>) |` (- {a}) = others s |` (- {a})"
      using timer_round_ok [OF t date r(1), of append_file] by auto
    have "between E l X a (hist @ timestamp t) ds ?s"
      using h(2,3) r(2) reg by (auto simp: between_def ready_def string_at_def date_buffer_def)
    moreover have "others ?s |` (- {a}) = others s |` (- {a})" using h(4) by (simp add: others_def)
    ultimately have "visited E l X a (hist @ said v) ds (visit_arg v) (outcome hist v) s ?s"
      by (simp add: visited_def Tick append_file_def split_beta restrict_map_def)
    then show ?thesis using h(1) by (intro exI [of _ ?s]) (simp add: Tick)
  next
    case (Connection p self chunks)
    obtain f where f: "fulldatas s p = Some f" "fd_list f = l" using F Connection by (auto simp: clients_wait_def)
    have room: "length hist < 1024" using len by simp
    have fd: "arg_fd (fulldatas s) p = file_descriptor (fd_data f)" by (simp add: arg_fd_def f(1))
    have reg': "registry (e_node E) (fd_list f) False X (threads s) ds" using reg f(2) by simp
    let ?d = "(fd_data f)\<lparr>thread_id := self, completion := True\<rparr>"
    obtain s1 cap' where s1: "connection_handler E p self chunks s = Some s1" "ready s1 (hist @ said v) cap'" "1024 \<le> cap'"
        "sent s1 = (sent s)(arg_fd (fulldatas s) p := sent s (arg_fd (fulldatas s) p) @ outcome hist v)"
        "fst (device_of s1) = fst (device_of s) @ outcome hist v"
        "registry (e_node E) l False X (threads s1) (?d # ds)" "fulldatas s1 = (fulldatas s)(p := None)" "others s1 = others s"
      using connection_visit [OF al E r v [unfolded Connection] room f(1) reg'] unfolding Connection fd f(2) by blast
    have "between E l X a (hist @ said v) ([?d] @ ds) s1"
      using s1(2,3,6) others_date [OF date s1(8,2)] by (auto simp: between_def)
    moreover have "fulldatas s1 = fulldatas s |` (- set (visit_arg v))"
      by (simp add: s1(7) Connection restrict_map_def fun_eq_iff)
    ultimately have "visited E l X a (hist @ said v) ds (visit_arg v) (outcome hist v) s s1"
      unfolding visited_def using s1(5,8) by (intro conjI exI [of _ "[?d]"]) (simp_all add: Connection)
    then show ?thesis using s1(1,4) by (intro exI [of _ s1]) (simp add: Connection)
  qed
qed

lemma run_visits_Cons:
  "run_visits E app date (v # vs) s = do { s \<leftarrow> run_visits E app date [v] s; run_visits E app date vs s }"
  by (cases v) (simp_all split: bind_splits)

lemma visited_trans:
  assumes "visited E l X a hist ds ps w s t" and "\<And>ds. between E l X a hist ds t \<Longrightarrow> visited E l X a hist' ds qs w' t u"
  shows "visited E l X a hist' ds (ps @ qs) (w @ w') s u"
proof -
  obtain ds1 where d1: "between E l X a hist (ds1 @ ds) t" "length ds1 = length ps" "\<forall>d \<in> set ds1. completion d"
    using assms(1) by (auto simp: visited_def)
  obtain ds2 where d2: "between E l X a hist' (ds2 @ ds1 @ ds) u" "length ds2 = length qs" "\<forall>d \<in> set ds2. completion d"
    using assms(2) [OF d1(1)] by (auto simp: visited_def)
  have "\<exists>ds'. between E l X a hist' (ds' @ ds) u \<and> length ds' = length (ps @ qs) \<and> (\<forall>d \<in> set ds'. completion d)"
    using d1(2,3) d2 by (intro exI [of _ "ds2 @ ds1"]) auto
  then show ?thesis
    using assms(1) assms(2) [OF d1(1)] by (simp add: visited_def restrict_map_def fun_eq_iff)
qed

lemma run_visits_ok:
  assumes al: "allocator_ok lim (e_alloc E)" "allocator_serves 4096 (e_alloc E)" and E: "e_dev E = file_device" "sends_all E"
  shows "between E l X a hist ds s \<Longrightarrow> clients_wait l (fulldatas s) vs \<Longrightarrow> \<forall>v \<in> set vs. visit_ok v \<Longrightarrow>
    length (hist @ concat (map said vs)) < 1024 \<Longrightarrow>
    \<exists>s'. run_visits E append_file (Ptr a) vs s = Some s' \<and>
      visited E l X a (hist @ concat (map said vs)) ds (args_of vs) (concat (outcomes hist vs)) s s' \<and>
      (\<forall>fd. fd \<notin> arg_fd (fulldatas s) ` set (args_of vs) \<longrightarrow> sent s' fd = sent s fd) \<and>
      (\<forall>i < length vs. \<forall>q \<in> set (visit_arg (vs ! i)).
         sent s' (arg_fd (fulldatas s) q) = sent s (arg_fd (fulldatas s) q) @ outcomes hist vs ! i)"
proof (induction vs arbitrary: s hist ds)
  case Nil
  then show ?case by (simp add: visited_def restrict_map_def)
next
  case (Cons v vs)
  let ?F = "fulldatas s"
  have v: "visit_ok v" "length (hist @ said v) < 1024" using Cons.prems(3,4) by auto
  obtain s1 where s1: "run_visits E append_file (Ptr a) [v] s = Some s1"
      "visited E l X a (hist @ said v) ds (visit_arg v) (outcome hist v) s s1"
      "\<And>fd. sent s1 fd = sent s fd @ (if fd \<in> arg_fd ?F ` set (visit_arg v) then outcome hist v else [])"
    using visit_step [OF al E Cons.prems(1,2) v] by blast
  have F1: "fulldatas s1 = ?F |` (- set (visit_arg v))" using s1(2) by (simp add: visited_def)
  note rest = clients_wait_Cons [OF Cons.prems(2) F1]
  have fds: "arg_fd (fulldatas s1) ` set (args_of vs) = arg_fd ?F ` set (args_of vs)" using rest(2) by auto
  have l1: "length ((hist @ said v) @ concat (map said vs)) < 1024" using Cons.prems(4) by simp
  have vs: "\<forall>v \<in> set vs. visit_ok v" using Cons.prems(3) by simp
  note IH = Cons.IH [OF _ rest(1) vs l1]
  obtain ds1 where b1: "between E l X a (hist @ said v) ds1 s1" using s1(2) by (auto simp: visited_def)
  obtain s2 where s2: "run_visits E append_file (Ptr a) vs s1 = Some s2"
      "\<And>fd. fd \<notin> arg_fd ?F ` set (args_of vs) \<Longrightarrow> sent s2 fd = sent s1 fd"
      "\<And>i q. i < length vs \<Longrightarrow> q \<in> set (visit_arg (vs ! i)) \<Longrightarrow>
         sent s2 (arg_fd (fulldatas s1) q) = sent s1 (arg_fd (fulldatas s1) q) @ outcomes (hist @ said v) vs ! i"
    using IH [OF b1] unfolding fds by blast
  have v2: "visited E l X a ((hist @ said v) @ concat (map said vs)) ds' (args_of vs) (concat (outcomes (hist @ said v) vs)) s1 s2"
    if "between E l X a (hist @ said v) ds' s1" for ds'
    using IH [OF that] s2(1) by (elim exE conjE) simp
  have "visited E l X a (hist @ concat (map said (v # vs))) ds (args_of (v # vs)) (concat (outcomes hist (v # vs))) s s2"
    using visited_trans [OF s1(2) v2] by simp
  moreover have "sent s2 (arg_fd ?F q) = sent s (arg_fd ?F q) @ outcomes hist (v # vs) ! i"
    if i: "i < length (v # vs)" "q \<in> set (visit_arg ((v # vs) ! i))" for i q
  proof (cases i)
    case 0
    then have q: "q \<in> set (visit_arg v)" using i(2) by simp
    have "arg_fd ?F q \<noteq> arg_fd ?F q'" if "q' \<in> set (args_of vs)" for q' using rest(2) [OF that] q by (metis imageI)
    then have "arg_fd ?F q \<notin> arg_fd ?F ` set (args_of vs)" by blast
    then show ?thesis using s2(2) s1(3) 0 q by simp
  next
    case (Suc j)
    then have j: "j < length vs" "q \<in> set (visit_arg (vs ! j))" using i by simp_all
    then have "q \<in> set (args_of vs)" using nth_mem by (fastforce simp: args_of_def)
    then show ?thesis using s2(3) [OF j] rest(2) [of q] s1(3) Suc by simp
  qed
  moreover have "run_visits E append_file (Ptr a) (v # vs) s = Some s2"
    using s1(1) s2(1) by (subst run_visits_Cons) simp
  moreover have "sent s2 fd = sent s fd" if "fd \<notin> arg_fd ?F ` set (args_of (v # vs))" for fd
    using that s2(2) [of fd] s1(3) [of fd] by (simp add: image_Un)
  ultimately show ?case by blast
qed

lemma outcomes_prefixes: "outcomes hist vs = map (\<lambda>i. outcome (hist @ concat (map said (take i vs))) (vs ! i)) [0..<length vs]"
  by (rule nth_equalityI) (simp_all add: outcomes_nth)

text \<open>C22: the build without the driver. Clients, with one short read each or a seek command, and rounds of
  the timer in any order, together less than 1024 bytes: nothing is undefined, and each client is sent
  all messages and time stamps so far, its own at the end. A seek command gets no answer, since a regular
  file does not know the request. The file gets each time stamp once, but from each client all that was
  sent to it: it holds the earlier messages and time stamps again for every later client, and is not the
  reply string. Afterwards all memory of the handlers is released, every client is in the list and
  completed.\<close>

theorem file_server_history:
  assumes "allocator_ok lim (e_alloc E)" and "allocator_serves 4096 (e_alloc E)" and "e_dev E = file_device" and "sends_all E"
    and "ready s [] cap" and "1024 \<le> cap" and "date_buffer s a" and "registry (e_node E) l False X (threads s) []"
    and "clients_wait l (fulldatas s) vs" and "\<forall>v \<in> set vs. visit_ok v" and "length (concat (map said vs)) < 1024"
  shows "\<exists>s' ds. run_visits E append_file (Ptr a) vs s = Some s' \<and> (\<exists>cap. ready s' (concat (map said vs)) cap) \<and>
    fst (device_of s') = fst (device_of s) @ concat (map (\<lambda>i. outcome (concat (map said (take i vs))) (vs ! i)) [0..<length vs]) \<and>
    (\<forall>i p self chunks. i < length vs \<and> vs ! i = Connection p self chunks \<longrightarrow>
       sent s' (arg_fd (fulldatas s) p) = sent s (arg_fd (fulldatas s) p) @
         (if one_read chunks then concat (map said (take (Suc i) vs)) else [])) \<and>
    registry (e_node E) l False X (threads s') ds \<and> length ds = length (args_of vs) \<and> (\<forall>d \<in> set ds. completion d) \<and>
    fulldatas s' = fulldatas s |` (- set (args_of vs)) \<and> others s' |` (- {a}) = others s |` (- {a})"
proof -
  have "between E l X a [] [] s" using assms(5-8) by (auto simp: between_def)
  moreover have "length ([] @ concat (map said vs)) < 1024" using assms(11) by simp
  ultimately obtain s' where run: "run_visits E append_file (Ptr a) vs s = Some s'"
    and vis: "visited E l X a (concat (map said vs)) [] (args_of vs) (concat (outcomes [] vs)) s s'"
    and snt: "\<forall>i < length vs. \<forall>q \<in> set (visit_arg (vs ! i)).
         sent s' (arg_fd (fulldatas s) q) = sent s (arg_fd (fulldatas s) q) @ outcomes [] vs ! i"
    using run_visits_ok [OF assms(1-4) _ assms(9,10), of X a "[]" "[]"] by auto
  have client: "sent s' (arg_fd (fulldatas s) p) = sent s (arg_fd (fulldatas s) p) @
      (if one_read chunks then concat (map said (take (Suc i) vs)) else [])"
    if "i < length vs \<and> vs ! i = Connection p self chunks" for i p self chunks
  proof -
    have "sent s' (arg_fd (fulldatas s) p) = sent s (arg_fd (fulldatas s) p) @ outcomes [] vs ! i"
      using snt [rule_format, of i p] that by simp
    then show ?thesis using that by (simp add: outcomes_nth take_Suc_conv_app_nth)
  qed
  obtain ds where "between E l X a (concat (map said vs)) ds s'" "length ds = length (args_of vs)" "\<forall>d \<in> set ds. completion d"
    using vis by (auto simp: visited_def)
  then show ?thesis
    using run vis client by (intro exI [of _ s'] exI [of _ ds]) (simp add: visited_def between_def outcomes_prefixes, blast)
qed

text \<open>A client, a round of the timer, a seek command and a second client.\<close>

definition file_env :: "(byte list \<times> nat) env" where
  "file_env = \<lparr>e_alloc = \<lambda>c h n. if n \<le> 4096 then first_free h else None, e_node = demo_malloc,
     e_send = \<lambda>c n. int n, e_dev = file_device\<rparr>"

definition file_start :: "(byte list \<times> nat) server" where
  "file_start =
     \<lparr>heap = [0 \<mapsto> replicate 1024 (Some 0), 1 \<mapsto> replicate 100 None], calls = 0, to_write = Ptr 0,
      reply_mutex = False, file_mutex = False, thread_join_mutex = False, device_of = ([], 0),
      threads = \<lparr>nodes = Map.empty, lls = [5 \<mapsto> \<lparr>head = NULL, mutex = False\<rparr>], mallocs = 0, stdout = []\<rparr>,
      linked_list = 5,
      fulldatas = [7 \<mapsto> \<lparr>fd_list = 5, fd_data = demo_td 0\<rparr>, 8 \<mapsto> \<lparr>fd_list = 5, fd_data = (demo_td 0)\<lparr>file_descriptor := 6\<rparr>\<rparr>,
        9 \<mapsto> \<lparr>fd_list = 5, fd_data = (demo_td 0)\<lparr>file_descriptor := 7\<rparr>\<rparr>],
      sent = \<lambda>_. [], closed_fds = [], ip4 = [], peer_log = [], join_signals = 0\<rparr>"

definition file_tm :: tm where
  "file_tm = \<lparr>tm_sec = 5, tm_min = 4, tm_hour = 13, tm_mday = 9, tm_mon = 1, tm_year = 124, tm_wday = 5, tm_gmtoff = 3600\<rparr>"

definition file_visits :: "visit list" where
  "file_visits = [Connection 7 21 [[104, 105]], Tick file_tm, Connection 8 22 [seek_request 0 1], Connection 9 23 [[98]]]"

lemma file_visits_ok: "\<forall>v \<in> set file_visits. visit_ok v" "\<not> one_read [seek_request 0 1]" "one_read [[104, 105]]" "one_read [[98]]"
proof -
  show "\<not> one_read [seek_request 0 1]" "one_read [[104, 105]]" "one_read [[98]]" by code_simp+
  have "seek_message (seek_request 0 1)" "one_read [[104, 105]]" "one_read [[98]]" by code_simp+
  moreover have "in_calendar file_tm" by (simp add: in_calendar_def tm_valid_def file_tm_def)
  ultimately show "\<forall>v \<in> set file_visits. visit_ok v" by (simp add: file_visits_def)
qed

lemma file_server_history_witness:
  "\<exists>s'. run_visits file_env append_file (Ptr 1) file_visits file_start = Some s' \<and>
     sent s' 4 = [104, 105] \<and> sent s' 6 = [] \<and> sent s' 7 = [104, 105] @ timestamp file_tm @ [98] \<and>
     fst (device_of s') = [104, 105] @ timestamp file_tm @ [104, 105] @ timestamp file_tm @ [98]"
proof -
  have al: "allocator_ok 4096 (e_alloc file_env)" "allocator_serves 4096 (e_alloc file_env)" "e_dev file_env = file_device" "sends_all file_env"
    by (auto simp: file_env_def allocator_ok_def allocator_serves_def sends_all_def first_free_ok split: if_splits)
  have "string_block (replicate 1024 (Some 0)) [] 1024" using string_block_c_string [of "[]" 1024] by (simp add: c_string_def)
  then have r: "ready file_start [] 1024" by (simp add: ready_def string_at_def file_start_def)
  have d: "date_buffer file_start 1" by (simp add: date_buffer_def file_start_def)
  have reg: "registry (e_node file_env) 5 False Map.empty (threads file_start) []"
    using demo_server_registry by (simp add: file_start_def file_env_def demo_server_def)
  have fds: "arg_fd (fulldatas file_start) 7 = 4" "arg_fd (fulldatas file_start) 8 = 6" "arg_fd (fulldatas file_start) 9 = 7"
    by (simp_all add: arg_fd_def file_start_def demo_td_def)
  have c: "clients_wait 5 (fulldatas file_start) file_visits"
    unfolding clients_wait_def using fds by (simp add: file_visits_def inj_on_def) (simp add: file_start_def)
  have s: "said (Connection p self [seek_request 0 1]) = []" "outcome hist (Connection p self [seek_request 0 1]) = []" for p self hist
    using file_visits_ok(2) by simp_all
  have t: "text_of [[104, 105]] = [104, 105]" "text_of [[98]] = [98]" by (simp_all add: text_of_def c_string_def)
  have "in_calendar file_tm" using file_visits_ok(1) by (simp add: file_visits_def)
  then have len: "length (concat (map said file_visits)) < 1024"
    using length_timestamp [of file_tm] s file_visits_ok(3,4) by (simp add: file_visits_def t)
  have snt: "sent file_start = (\<lambda>_. [])" "device_of file_start = ([], 0)" by (simp_all add: file_start_def)
  obtain s' where run: "run_visits file_env append_file (Ptr 1) file_visits file_start = Some s'"
    and stored: "fst (device_of s') = fst (device_of file_start) @
      concat (map (\<lambda>i. outcome (concat (map said (take i file_visits))) (file_visits ! i)) [0..<length file_visits])"
    and client: "\<forall>i p self chunks. i < length file_visits \<and> file_visits ! i = Connection p self chunks \<longrightarrow>
       sent s' (arg_fd (fulldatas file_start) p) = sent file_start (arg_fd (fulldatas file_start) p) @
         (if one_read chunks then concat (map said (take (Suc i) file_visits)) else [])"
    using file_server_history [OF al r _ d reg c file_visits_ok(1) len] by auto
  have "sent s' 4 = [104, 105]"
    using client [rule_format, of 0 7 21 "[[104, 105]]"] fds file_visits_ok t snt by (simp add: file_visits_def)
  moreover have "sent s' 6 = []"
    using client [rule_format, of 2 8 22 "[seek_request 0 1]"] fds file_visits_ok t snt by (simp add: file_visits_def)
  moreover have "sent s' 7 = [104, 105] @ timestamp file_tm @ [98]"
    using client [rule_format, of 3 9 23 "[[98]]"] fds file_visits_ok t snt s by (simp add: file_visits_def numeral_3_eq_3)
  moreover have "fst (device_of s') = [104, 105] @ timestamp file_tm @ [104, 105] @ timestamp file_tm @ [98]"
    using stored file_visits_ok t snt s by (simp add: file_visits_def upt_rec)
  ultimately show ?thesis using run by blast
qed

end
