(* ===== verification/Process_Properties.thy ===== *)
theory Process_Properties
  imports Server_Runs Timer_Thread
begin

text \<open>
  The properties of the timer thread and of the main function of the server.
\<close>

subsection \<open>The timer thread\<close>

text \<open>C33: the timer thread of the build without the driver. Every round appends a time stamp of 42 bytes,
  which fits into its local buffer, to the reply string and to the file, as long as the string's block
  has room; the thread never enlarges the block, so the round that no longer fits is undefined: with no
  connection in between, the 25th round, after some four minutes.\<close>

theorem timer_thread_overflows:
  assumes "ready s hist cap" and "date_buffer s a" and "\<forall>t \<in> set ts. in_calendar t"
  shows "if length hist + 42 * length ts < cap
    then \<exists>s'. timer_rounds app ts (Ptr a) s = Some s' \<and> ready s' (hist @ concat (map timestamp ts)) cap \<and>
      device_of s' = fold (\<lambda>t d. snd (app (timestamp t) d)) ts (device_of s)
    else timer_rounds app ts (Ptr a) s = None"
  using timer_rounds_ok [OF assms] .

definition demo_tm :: tm where
  "demo_tm = \<lparr>tm_sec = 5, tm_min = 4, tm_hour = 13, tm_mday = 9, tm_mon = 1, tm_year = 124, tm_wday = 5, tm_gmtoff = 3600\<rparr>"

definition demo_timer :: "(kstate \<times> struct_file) server" where
  "demo_timer = demo_server\<lparr>heap := [0 \<mapsto> replicate 1024 (Some 0), 1 \<mapsto> replicate 100 None]\<rparr>"

lemma timer_thread_overflows_witness:
  "timer_rounds (\<lambda>bs d. (0, d)) (replicate 24 demo_tm) (Ptr 1) demo_timer \<noteq> None \<and>
   timer_rounds (\<lambda>bs d. (0, d)) (replicate 25 demo_tm) (Ptr 1) demo_timer = None \<and>
   timestamp demo_tm = ascii ''timestamp:Fri, 09 Feb 2024 13:04:05 +0100'' @ [NEWLINE]"
proof -
  have b: "string_block (replicate 1024 (Some 0)) [] 1024"
    using replicate_Suc [of 1023 "Some (0 :: byte)"] by (auto simp: string_block_def)
  have r: "ready demo_timer [] 1024"
    using b by (simp add: ready_def string_at_def demo_timer_def demo_server_def)
  have d: "date_buffer demo_timer 1" by (simp add: date_buffer_def demo_timer_def demo_server_def)
  have c: "\<forall>t \<in> set (replicate n demo_tm). in_calendar t" for n
    by (auto simp: in_calendar_def tm_valid_def demo_tm_def)
  have "timestamp demo_tm = ascii ''timestamp:Fri, 09 Feb 2024 13:04:05 +0100'' @ [NEWLINE]" by code_simp
  then show ?thesis
    using timer_thread_overflows [OF r d c [of 24], of "\<lambda>bs d. (0, d)"] timer_thread_overflows [OF r d c [of 25], of "\<lambda>bs d. (0, d)"]
    by (auto simp del: replicate.simps)
qed

subsection \<open>The main function\<close>

text \<open>The branches of \<open>main\<close> and of the socket calls, one by one.\<close>

lemma failed_lookup:
  "gai_status R \<noteq> 0 \<Longrightarrow> \<exists>P'. socket_listen E R la opened rs P = Some (True, [], P') \<and> exit_status P' = Some 1 \<and> srv P' = srv P"
  by (simp add: socket_listen_def open_socket_def report_def)

lemma socket_failures_only_printed:
  assumes "gai_status R = 0"
  shows "map_option (\<lambda>(left, ps, P). (left, ps, srv P, temp_file_fd P, exit_status P)) (socket_listen E R la opened rs P) =
    do { s \<leftarrow> listen_setup E la (snd opened) (srv P);
         (left, ps, s) \<leftarrow> listen_loop False rs s;
         Some (left, ps, s, fst opened, exit_status P) }"
proof -
  obtain ms where "open_socket R P = (True, P\<lparr>socket_fd := sock R, stderr := stderr P @ ms\<rparr>)"
    using open_socket_ok [OF assms] by blast
  then show ?thesis
    by (cases "listen_setup E la (snd opened) (srv P)") (auto simp: socket_listen_def Let_def split: bind_splits prod.split)
qed

lemma main_serving:
  assumes "sigaction SIGTERM = 0" "sigaction SIGINT = 0" and "length argv \<noteq> 2 \<or> argv ! 1 \<noteq> ascii ''-d'' \<or> pid = 0"
  shows "\<exists>P'. handled_signals P' = handled_signals P \<union> {SIGTERM, SIGINT} \<and> \<not> file_mutex (srv P') \<and> \<not> reply_mutex (srv P') \<and>
    timer_started P' = (timer_started P \<or> \<not> char_dev) \<and>
    map_option fst (server_main char_dev sigaction pid argv listen P) =
      map_option (\<lambda>P. case exit_status P of None \<Rightarrow> 0 | Some c \<Rightarrow> c) (listen P')"
proof -
  let ?P = "P\<lparr>handled_signals := insert SIGINT (insert SIGTERM (handled_signals P)),
      srv := (srv P)\<lparr>file_mutex := False, reply_mutex := False\<rparr>\<rparr>"
  let ?P' = "if char_dev then ?P else ?P\<lparr>timer_started := True\<rparr>"
  have "(if length argv = 2 then if argv ! 1 = ascii ''-d'' then pid else 0 else 0) = 0" using assms(3) by auto
  then have "server_main char_dev sigaction pid argv listen P = do { P \<leftarrow> listen ?P';
      Some (case exit_status P of Some c \<Rightarrow> (c, P) | None \<Rightarrow> (0, P\<lparr>exit_status := Some 0\<rparr>)) }"
    using assms(1,2) by (simp add: server_main_def setup_signal_handler_def install_def Let_def)
  then have "map_option fst (server_main char_dev sigaction pid argv listen P) =
      map_option (\<lambda>P. case exit_status P of None \<Rightarrow> 0 | Some c \<Rightarrow> c) (listen ?P')"
    by (cases "listen ?P'") (auto split: option.split)
  then show ?thesis by (intro exI [of _ ?P']) auto
qed

text \<open>C34: the main function. If one of the two handlers cannot be installed it returns -1 and starts
  nothing. In daemon mode, the parent exits with 0 at once, whatever \<open>fork\<close> returned to it; that includes
  its failure, after which nobody serves. Otherwise the process, with both handlers installed and both
  mutexes free, starts the timer only in the build without the driver, listens, and exits with the
  status that the listening function has set, or with 0 when its loop is left. The listening function
  sets the status 1, and touches no memory, if \<open>getaddrinfo\<close> fails; a failing \<open>socket\<close>, \<open>bind\<close> or
  \<open>listen\<close> changes nothing but the error output, so a server whose port is taken runs on without one.\<close>

theorem main_branches:
  "(sigaction SIGTERM \<noteq> 0 \<or> sigaction SIGINT \<noteq> 0 \<longrightarrow>
     (\<exists>P'. server_main char_dev sigaction pid argv listen P = Some (- 1, P') \<and> srv P' = srv P \<and>
        timer_started P' = timer_started P)) \<and>
   (sigaction SIGTERM = 0 \<and> sigaction SIGINT = 0 \<and> argv = [name, ascii ''-d''] \<and> pid \<noteq> 0 \<longrightarrow>
     (\<exists>P'. server_main char_dev sigaction pid argv listen P = Some (0, P') \<and>
        timer_started P' = timer_started P \<and> heap (srv P') = heap (srv P))) \<and>
   (sigaction SIGTERM = 0 \<and> sigaction SIGINT = 0 \<and> (length argv \<noteq> 2 \<or> argv ! 1 \<noteq> ascii ''-d'' \<or> pid = 0) \<longrightarrow>
     (\<exists>P'. handled_signals P' = handled_signals P \<union> {SIGTERM, SIGINT} \<and> \<not> file_mutex (srv P') \<and> \<not> reply_mutex (srv P') \<and>
        timer_started P' = (timer_started P \<or> \<not> char_dev) \<and>
        map_option fst (server_main char_dev sigaction pid argv listen P) =
          map_option (\<lambda>P. case exit_status P of None \<Rightarrow> 0 | Some c \<Rightarrow> c) (listen P'))) \<and>
   (gai_status R \<noteq> 0 \<longrightarrow> (\<exists>P'. socket_listen E R la opened rs P = Some (True, [], P') \<and> exit_status P' = Some 1 \<and> srv P' = srv P)) \<and>
   (gai_status R = 0 \<longrightarrow>
      map_option (\<lambda>(left, ps, P). (left, ps, srv P, temp_file_fd P, exit_status P)) (socket_listen E R la opened rs P) =
      map_option (\<lambda>(left, ps, P). (left, ps, srv P, temp_file_fd P, exit_status P))
        (socket_listen E \<lparr>gai_status = 0, sock = 3, bind_ret = 0, listen_ret = 0\<rparr> la opened rs P))"
  using failed_lookup [of R E la opened rs P] socket_failures_only_printed [of R E la opened rs P]
    socket_failures_only_printed [of "\<lparr>gai_status = 0, sock = 3, bind_ret = 0, listen_ret = 0\<rparr>" E la opened rs P]
    main_serving [of sigaction argv pid P char_dev listen]
  by (intro conjI impI; (elim conjE)?)
    (auto simp: server_main_def setup_signal_handler_def install_def Let_def split: prod.split)

lemma main_branches_witness:
  "(\<exists>P'. server_main True (\<lambda>_. 0) (- 1) [[97], ascii ''-d''] Some demo_process = Some (0, P')) \<and>
   (\<exists>P'. server_main True (\<lambda>_. - 1) 0 [[97]] Some demo_process = Some (- 1, P')) \<and>
   (\<exists>P'. socket_listen demo_env \<lparr>gai_status = - 2, sock = 0, bind_ret = 0, listen_ret = 0\<rparr> None
      (9, (ks demo_loaded, demo_file)) [] demo_process = Some (True, [], P') \<and> exit_status P' = Some 1)"
proof -
  let ?R = "\<lparr>gai_status = - 2, sock = 0, bind_ret = 0, listen_ret = 0\<rparr>"
  note m = main_branches [where R = ?R and E = demo_env and la = None and rs = "[]" and
    opened = "(9, (ks demo_loaded, demo_file))" and P = demo_process and char_dev = True and listen = Some and name = "[97]"]
  have "\<exists>P'. server_main True (\<lambda>_. 0) (- 1) [[97], ascii ''-d''] Some demo_process = Some (0, P')"
    using conjunct1 [OF conjunct2 [OF m [of "\<lambda>_. 0" "- 1" "[[97], ascii ''-d'']"]]] by auto
  moreover have "\<exists>P'. server_main True (\<lambda>_. - 1) 0 [[97]] Some demo_process = Some (- 1, P')"
    using conjunct1 [OF m [of "\<lambda>_. - 1" 0 "[[97]]"]] by auto
  moreover have "\<exists>P'. socket_listen demo_env ?R None (9, (ks demo_loaded, demo_file)) [] demo_process = Some (True, [], P') \<and>
      exit_status P' = Some 1"
    using conjunct1 [OF conjunct2 [OF conjunct2 [OF conjunct2 [OF m [of "\<lambda>_. 0" 0 "[]"]]]]] by auto
  ultimately show ?thesis by blast
qed

end
