(* ===== verification/System_Calls.thy ===== *)
theory System_Calls
  imports Prelude
begin

text \<open>
  The exercises on processes, \<open>examples/systemcalls/systemcalls.c\<close>: running a command with \<open>system\<close>, with
  \<open>fork\<close>, \<open>execv\<close> and \<open>waitpid\<close>, and the same with the output redirected to a file. The results of the
  system calls are parameters; a function runs in two processes after \<open>fork\<close>, so its outcome is given
  for the process in which it runs.
\<close>

subsection \<open>Wait statuses\<close>

text \<open>How a process ends, and the status word that \<open>waitpid\<close> and \<open>system\<close> report for it.\<close>

datatype ending = Exit int | Signalled nat

definition wait_status :: "ending \<Rightarrow> 32 word" where
  "wait_status e = (case e of Exit c \<Rightarrow> push_bit 8 (take_bit 8 (word_of_int c)) | Signalled n \<Rightarrow> take_bit 7 (of_nat n))"

definition WIFEXITED :: "32 word \<Rightarrow> bool" where
  "WIFEXITED status \<longleftrightarrow> take_bit 7 status = 0"

definition WEXITSTATUS :: "32 word \<Rightarrow> 32 word" where
  "WEXITSTATUS status = take_bit 8 (drop_bit 8 status)"

lemma exit_status_round_trip: "WIFEXITED (wait_status (Exit c)) \<and> WEXITSTATUS (wait_status (Exit c)) = take_bit 8 (word_of_int c)"
proof
  show "WIFEXITED (wait_status (Exit c))"
    unfolding WIFEXITED_def wait_status_def by (rule bit_eqI) (auto simp: bit_simps)
  show "WEXITSTATUS (wait_status (Exit c)) = take_bit 8 (word_of_int c)"
    unfolding WEXITSTATUS_def wait_status_def by (rule bit_eqI) (auto simp: bit_simps)
qed

lemma exit_code_zero: "take_bit 8 (word_of_int c :: 32 word) = 0 \<longleftrightarrow> c mod 256 = 0"
proof -
  have "take_bit 8 (word_of_int c :: 32 word) = word_of_int (take_bit 8 c)"
    by (rule bit_eqI) (auto simp: bit_simps)
  moreover have "(word_of_int (take_bit 8 c) :: 32 word) = word_of_int 0 \<longleftrightarrow> take_bit 8 c = 0"
    unfolding word_of_int_eq_iff by (simp add: take_bit_take_bit)
  ultimately show ?thesis by (simp add: take_bit_eq_mod)
qed

lemma signalled_not_exited: "n \<noteq> 0 \<Longrightarrow> n < 127 \<Longrightarrow> \<not> WIFEXITED (wait_status (Signalled n))"
proof -
  assume n: "n \<noteq> 0" "n < 127"
  have "take_bit 7 (of_nat n :: 32 word) = of_nat n"
    using n take_bit_nat_eq_self [of n 7] by (simp only: take_bit_of_nat) simp
  moreover have "unat (of_nat n :: 32 word) = n" using n by (simp add: unat_of_nat)
  then have "of_nat n \<noteq> (0 :: 32 word)" using n(1) by auto
  ultimately show ?thesis by (simp add: WIFEXITED_def wait_status_def)
qed

subsection \<open>\<open>do_system\<close>\<close>

definition do_system :: "(byte list option \<Rightarrow> int) \<Rightarrow> byte list option \<Rightarrow> bool" where
  "do_system system cmd =
     (let sys_ret = system cmd
      in if cmd = None \<and> sys_ret = 0 then False
         else if sys_ret = - 1 then False
         else if sys_ret = 127 then False
         else True)"

subsection \<open>\<open>do_exec\<close>\<close>

text \<open>The variable arguments are copied one by one; fewer of them than \<open>count\<close> says is undefined.\<close>

fun copy_args :: "nat \<Rightarrow> byte list list \<Rightarrow> byte list list option" where
  "copy_args 0 args = Some []"
| "copy_args (Suc n) [] = None"
| "copy_args (Suc n) (a # args) = map_option ((#) a) (copy_args n args)"

text \<open>The path and the arguments for \<open>execv\<close>, which returns only if it fails; with no arguments the path is
  the null pointer that ends the vector.\<close>

type_synonym exec_call = "byte list option \<Rightarrow> byte list list \<Rightarrow> int option"

definition path_of :: "byte list list \<Rightarrow> byte list option" where
  "path_of command = (case command of [] \<Rightarrow> None | p # _ \<Rightarrow> Some p)"

datatype outcome = Returned bool | Exited int | Replaced "byte list list"

definition run_command :: "exec_call \<Rightarrow> byte list list \<Rightarrow> outcome" where
  "run_command execv command =
     (case execv (path_of command) command of
        None \<Rightarrow> Replaced command
      | Some r \<Rightarrow> if r = - 1 then Exited (- 1) else Returned False)"

text \<open>What the parent makes of the result of \<open>waitpid\<close> and the status.\<close>

definition wait_result :: "int \<times> 32 word \<Rightarrow> bool" where
  "wait_result w =
     (if fst w = - 1 then False
      else if WIFEXITED (snd w) then if WEXITSTATUS (snd w) = 0 then True else False
      else False)"

definition do_exec :: "int \<Rightarrow> exec_call \<Rightarrow> int \<times> 32 word \<Rightarrow> nat \<Rightarrow> byte list list \<Rightarrow> outcome option" where
  "do_exec pid execv wait count args =
     do { command \<leftarrow> copy_args count args;
          Some (if pid = - 1 then Returned False
                else if pid = 0 then run_command execv command
                else Returned (wait_result wait)) }"

text \<open>The two processes together: \<open>programs\<close> says for each command whether it can be executed and how it
  then ends; the child ends by itself if it cannot.\<close>

definition exec_of :: "(byte list list \<Rightarrow> ending option) \<Rightarrow> exec_call" where
  "exec_of programs p command = (if programs command = None then Some (- 1) else None)"

definition child_ending :: "(byte list list \<Rightarrow> ending option) \<Rightarrow> outcome \<Rightarrow> ending option" where
  "child_ending programs out =
     (case out of Returned _ \<Rightarrow> None | Exited c \<Rightarrow> Some (Exit c) | Replaced command \<Rightarrow> programs command)"

definition exec_and_wait ::
  "(byte list list \<Rightarrow> ending option) \<Rightarrow> int \<Rightarrow> bool \<Rightarrow> nat \<Rightarrow> byte list list \<Rightarrow> outcome option" where
  "exec_and_wait programs pid wait_ok count args =
     (if pid = - 1 then do_exec (- 1) (exec_of programs) (- 1, 0) count args
      else do {
        out \<leftarrow> do_exec 0 (exec_of programs) (- 1, 0) count args;
        e \<leftarrow> child_ending programs out;
        do_exec pid (exec_of programs) (if wait_ok then (pid, wait_status e) else (- 1, 0)) count args })"

lemma copy_args_take: "n \<le> length args \<Longrightarrow> copy_args n args = Some (take n args)"
  by (induction n args rule: copy_args.induct) auto

lemma wait_result_ok: "wait_result (pid, wait_status e) \<longleftrightarrow> pid \<noteq> - 1 \<and> (\<exists>c. e = Exit c \<and> c mod 256 = 0)"
  if "\<And>n. e = Signalled n \<Longrightarrow> n \<noteq> 0 \<and> n < 127"
  using that exit_status_round_trip exit_code_zero signalled_not_exited
  by (cases e) (auto simp: wait_result_def)

lemma exec_and_wait_ok:
  assumes "count \<le> length args" and "0 < pid \<or> pid = - 1"
    and "\<And>n. programs (take count args) = Some (Signalled n) \<Longrightarrow> n \<noteq> 0 \<and> n < 127"
  shows "exec_and_wait programs pid wait_ok count args =
    Some (Returned (pid \<noteq> - 1 \<and> wait_ok \<and> (\<exists>c. programs (take count args) = Some (Exit c) \<and> c mod 256 = 0)))"
proof -
  note ca = copy_args_take [OF assms(1)]
  have bad: "\<not> wait_result (- 1, w)" for w by (simp add: wait_result_def)
  show ?thesis
  proof (cases "programs (take count args)")
    case None
    have "\<not> wait_result (pid, wait_status (Exit (- 1)))"
      using wait_result_ok [of "Exit (- 1)" pid] by simp
    then show ?thesis
      using None assms(2) ca bad
      by (auto simp: exec_and_wait_def do_exec_def run_command_def exec_of_def child_ending_def)
  next
    case (Some e)
    then have "wait_result (pid, wait_status e) \<longleftrightarrow> pid \<noteq> - 1 \<and> (\<exists>c. e = Exit c \<and> c mod 256 = 0)"
      using assms(3) by (intro wait_result_ok) auto
    then show ?thesis
      using Some assms(2) ca bad
      by (auto simp: exec_and_wait_def do_exec_def run_command_def exec_of_def child_ending_def)
  qed
qed

subsection \<open>\<open>do_exec_redirect\<close>\<close>

text \<open>After \<open>fork\<close> both processes open the output file, and each open truncates it; the child then makes it
  its standard output and executes the command, the parent waits. The two are state machines that a
  schedule interleaves. The program writes its output in pieces, at the offset of the child's
  descriptor.\<close>

datatype parent_pc = P_Open | P_Wait | P_Done bool
datatype child_pc = C_Open | C_Dup | C_Exec | C_Write "byte list list" | C_Ended ending | C_Returned bool

record redirect =
  outfile :: "byte list option"      \<comment> \<open>the content of the file, if it exists\<close>
  child_fd :: int
  child_off :: nat
  ppc :: parent_pc
  cpc :: child_pc

record redirect_env =
  fork_result :: int
  parent_open :: bool                \<comment> \<open>whether the opens succeed\<close>
  child_open :: bool
  dup2_result :: "int \<Rightarrow> int"
  exec_call :: exec_call
  argv :: "byte list list"
  outputs :: "byte list list"        \<comment> \<open>what the program writes\<close>
  prog_ending :: ending
  waitpid_ok :: bool

definition redirect_start :: "byte list option \<Rightarrow> redirect" where
  "redirect_start old = \<lparr>outfile = old, child_fd = - 1, child_off = 0, ppc = P_Open, cpc = C_Open\<rparr>"

definition write_at :: "nat \<Rightarrow> byte list \<Rightarrow> byte list \<Rightarrow> byte list" where
  "write_at off bs content =
     (if bs = [] then content
      else take off content @ replicate (off - length content) 0 @ bs @ drop (off + length bs) content)"

definition parent_step :: "redirect_env \<Rightarrow> redirect \<Rightarrow> redirect" where
  "parent_step V s =
     (case ppc s of
        P_Open \<Rightarrow> s\<lparr>outfile := (if parent_open V then Some [] else outfile s),
                    ppc := (if fork_result V = - 1 then P_Done False else P_Wait)\<rparr>
      | P_Wait \<Rightarrow>
          (case cpc s of
             C_Ended e \<Rightarrow> s\<lparr>ppc := P_Done (wait_result (if waitpid_ok V then (fork_result V, wait_status e) else (- 1, 0)))\<rparr>
           | _ \<Rightarrow> s)
      | P_Done _ \<Rightarrow> s)"

definition child_step :: "redirect_env \<Rightarrow> redirect \<Rightarrow> redirect" where
  "child_step V s =
     (case cpc s of
        C_Open \<Rightarrow> s\<lparr>outfile := (if child_open V then Some [] else outfile s),
                    child_fd := (if child_open V then 3 else - 1), cpc := C_Dup\<rparr>
      | C_Dup \<Rightarrow> s\<lparr>cpc := (if dup2_result V (child_fd s) < 0 then C_Returned False else C_Exec)\<rparr>
      | C_Exec \<Rightarrow>
          (case run_command (exec_call V) (argv V) of
             Replaced _ \<Rightarrow> s\<lparr>cpc := C_Write (outputs V)\<rparr>
           | Exited c \<Rightarrow> s\<lparr>cpc := C_Ended (Exit c)\<rparr>
           | Returned r \<Rightarrow> s\<lparr>cpc := C_Returned r\<rparr>)
      | C_Write [] \<Rightarrow> s\<lparr>cpc := C_Ended (prog_ending V)\<rparr>
      | C_Write (b # bs) \<Rightarrow> s\<lparr>outfile := map_option (write_at (child_off s) b) (outfile s),
                              child_off := child_off s + length b, cpc := C_Write bs\<rparr>
      | C_Ended _ \<Rightarrow> s
      | C_Returned _ \<Rightarrow> s)"

datatype process_id = Parent | Child

definition redirect_step :: "redirect_env \<Rightarrow> process_id \<Rightarrow> redirect \<Rightarrow> redirect" where
  "redirect_step V p s =
     (case p of Parent \<Rightarrow> parent_step V s | Child \<Rightarrow> if fork_result V = - 1 then s else child_step V s)"

definition do_exec_redirect :: "redirect_env \<Rightarrow> process_id list \<Rightarrow> redirect \<Rightarrow> redirect" where
  "do_exec_redirect V schedule s = fold (redirect_step V) schedule s"

text \<open>The file when the parent has truncated it after \<open>j\<close> of the first \<open>k\<close> pieces were written.\<close>

definition truncated :: "nat \<Rightarrow> nat \<Rightarrow> byte list list \<Rightarrow> byte list" where
  "truncated j k outs =
     (let rest = concat (drop j (take k outs))
      in if rest = [] then [] else replicate (length (concat (take j outs))) 0 @ rest)"

definition well_behaved :: "redirect_env \<Rightarrow> bool" where
  "well_behaved V \<longleftrightarrow> 0 < fork_result V \<and> parent_open V \<and> child_open V \<and> 0 \<le> dup2_result V 3 \<and>
     exec_call V (path_of (argv V)) (argv V) = None \<and> waitpid_ok V"

lemma truncated_same [simp]: "truncated k k outs = []"
  by (simp add: truncated_def)

lemma truncated_write:
  assumes "j \<le> k" and "k < length outs"
  shows "write_at (length (concat (take k outs))) (outs ! k) (truncated j k outs) = truncated j (Suc k) outs"
proof -
  let ?pre = "concat (take j outs)" and ?mid = "concat (drop j (take k outs))" and ?b = "outs ! k"
  have split: "concat (take k outs) = ?pre @ ?mid"
    using append_take_drop_id [of j "take k outs"] assms(1) by (metis concat_append min.absorb1 take_take)
  have "drop j (take (Suc k) outs) = drop j (take k outs) @ [?b]"
    using assms by (simp add: take_Suc_conv_app_nth)
  then have nx: "concat (drop j (take (Suc k) outs)) = ?mid @ ?b" by simp
  show ?thesis
  proof (cases "?mid = []")
    case True
    then show ?thesis using split nx by (simp add: truncated_def write_at_def)
  next
    case False
    then have "length (truncated j k outs) = length (concat (take k outs))"
      using split by (simp add: truncated_def del: concat_eq_Nil_conv)
    then show ?thesis using False nx by (simp add: truncated_def write_at_def del: concat_eq_Nil_conv)
  qed
qed

text \<open>The child has written \<open>k\<close> pieces, and the parent has truncated the file after \<open>j\<close> of them.\<close>

definition has_written :: "redirect_env \<Rightarrow> nat \<Rightarrow> nat \<Rightarrow> redirect \<Rightarrow> bool" where
  "has_written V j k s \<longleftrightarrow> j \<le> k \<and> k \<le> length (outputs V) \<and> cpc s = C_Write (drop k (outputs V)) \<and>
     child_off s = length (concat (take k (outputs V))) \<and> outfile s = Some (truncated j k (outputs V))"

lemma child_write_step:
  assumes "has_written V j k s" and k: "k < length (outputs V)"
  shows "has_written V j (Suc k) (child_step V s)" and "ppc (child_step V s) = ppc s"
proof -
  have s: "j \<le> k" "cpc s = C_Write (outputs V ! k # drop (Suc k) (outputs V))"
    "child_off s = length (concat (take k (outputs V)))" "outfile s = Some (truncated j k (outputs V))"
    using assms by (simp_all add: has_written_def Cons_nth_drop_Suc)
  then have "child_step V s = s\<lparr>outfile := Some (truncated j (Suc k) (outputs V)),
      child_off := length (concat (take (Suc k) (outputs V))), cpc := C_Write (drop (Suc k) (outputs V))\<rparr>"
    using truncated_write [OF s(1) k] k by (simp add: child_step_def take_Suc_conv_app_nth)
  then show "has_written V j (Suc k) (child_step V s)" "ppc (child_step V s) = ppc s"
    using s(1) k by (simp_all add: has_written_def)
qed

definition redirect_inv :: "redirect_env \<Rightarrow> redirect \<Rightarrow> bool" where
  "redirect_inv V s \<longleftrightarrow>
     (case cpc s of
        C_Open \<Rightarrow> child_off s = 0 \<and> (ppc s = P_Wait \<longrightarrow> outfile s = Some [])
      | C_Dup \<Rightarrow> child_off s = 0 \<and> child_fd s = 3 \<and> outfile s = Some []
      | C_Exec \<Rightarrow> child_off s = 0 \<and> outfile s = Some []
      | C_Write bs \<Rightarrow> \<exists>j k. has_written V j k s \<and> (ppc s = P_Open \<longrightarrow> j = 0)
      | C_Ended e \<Rightarrow> e = prog_ending V \<and> (\<exists>j \<le> length (outputs V).
          outfile s = Some (truncated j (length (outputs V)) (outputs V)) \<and> (ppc s = P_Open \<longrightarrow> j = 0))
      | C_Returned _ \<Rightarrow> False) \<and>
     (case ppc s of P_Done r \<Rightarrow> (\<exists>e. cpc s = C_Ended e) \<and> r = wait_result (fork_result V, wait_status (prog_ending V)) | _ \<Rightarrow> True)"

lemma redirect_inv_step:
  assumes V: "well_behaved V" and inv: "redirect_inv V s"
  shows "redirect_inv V (redirect_step V p s)"
proof (cases p)
  case Parent
  show ?thesis
  proof (cases "ppc s")
    case P_Open
    note d = V inv Parent P_Open redirect_inv_def redirect_step_def parent_step_def well_behaved_def
    show ?thesis
    proof (cases "cpc s")
      case (C_Write bs)
      then obtain j k where "has_written V j k s" using d by auto
      then have "has_written V k k (parent_step V s)" using d C_Write by (auto simp: has_written_def)
      then show ?thesis using d C_Write by auto
    next
      case (C_Ended e)
      then show ?thesis using d by (auto intro!: exI [of _ "length (outputs V)"])
    qed (use d in auto)
  next
    case P_Wait
    then show ?thesis
      using V inv Parent
      by (auto simp: redirect_inv_def redirect_step_def parent_step_def well_behaved_def split: child_pc.splits)
  next
    case (P_Done r)
    then show ?thesis using inv Parent by (simp add: redirect_step_def parent_step_def)
  qed
next
  case Child
  then have st: "redirect_step V p s = child_step V s" using V by (simp add: redirect_step_def well_behaved_def)
  have run: "run_command (exec_call V) (argv V) = Replaced (argv V)"
    using V by (simp add: run_command_def well_behaved_def)
  show ?thesis
  proof (cases "cpc s")
    case (C_Write bs)
    then obtain j k where jk: "has_written V j k s" "ppc s = P_Open \<longrightarrow> j = 0"
      using inv by (auto simp: redirect_inv_def)
    have np: "\<forall>r. ppc s \<noteq> P_Done r" using inv C_Write by (auto simp: redirect_inv_def)
    show ?thesis
    proof (cases "k < length (outputs V)")
      case True
      then have "has_written V j (Suc k) (child_step V s)" "ppc (child_step V s) = ppc s"
        using child_write_step [OF jk(1)] by blast+
      moreover from this have "cpc (child_step V s) = C_Write (drop (Suc k) (outputs V))" by (simp add: has_written_def)
      ultimately show ?thesis
        using jk(2) np unfolding st redirect_inv_def by (auto split: parent_pc.splits)
    next
      case False
      then have "k = length (outputs V)" "bs = []" using jk(1) C_Write by (simp_all add: has_written_def)
      then show ?thesis
        using C_Write jk np unfolding st by (auto simp: child_step_def redirect_inv_def has_written_def split: parent_pc.splits)
    qed
  qed (use V inv run in \<open>auto simp: st child_step_def redirect_inv_def well_behaved_def has_written_def intro!: exI [of _ 0] split: parent_pc.splits\<close>)
qed

lemma redirect_inv_run: "well_behaved V \<Longrightarrow> redirect_inv V s \<Longrightarrow> redirect_inv V (do_exec_redirect V sched s)"
  by (induction sched arbitrary: s) (simp_all add: do_exec_redirect_def redirect_inv_step)

lemma redirect_inv_start: "redirect_inv V (redirect_start old)"
  by (simp add: redirect_inv_def redirect_start_def)

text \<open>A schedule for every loss: the parent opens the file after \<open>j\<close> pieces.\<close>

lemma run_append: "do_exec_redirect V (p @ q) s = do_exec_redirect V q (do_exec_redirect V p s)"
  by (simp add: do_exec_redirect_def)

lemma child_writes:
  assumes V: "well_behaved V"
  shows "has_written V j k s \<Longrightarrow> k + n \<le> length (outputs V) \<Longrightarrow>
   has_written V j (k + n) (do_exec_redirect V (replicate n Child) s) \<and>
   ppc (do_exec_redirect V (replicate n Child) s) = ppc s"
proof (induction n arbitrary: s k)
  case 0
  then show ?case by (simp add: do_exec_redirect_def)
next
  case (Suc n)
  have st: "redirect_step V Child s = child_step V s" using V by (simp add: redirect_step_def well_behaved_def)
  show ?case
    using Suc.IH [of "Suc k" "child_step V s"] child_write_step [OF Suc.prems(1)] Suc.prems(2) st
    by (simp add: do_exec_redirect_def)
qed

definition losing :: "nat \<Rightarrow> nat \<Rightarrow> process_id list" where
  "losing j n = replicate 3 Child @ replicate j Child @ [Parent] @ replicate (n - j) Child @ [Child, Parent]"

lemma losing_schedule:
  assumes V: "well_behaved V" and j: "j \<le> length (outputs V)"
  shows "\<exists>s. do_exec_redirect V (losing j (length (outputs V))) (redirect_start old) = s \<and>
    outfile s = Some (truncated j (length (outputs V)) (outputs V)) \<and> (\<exists>r. ppc s = P_Done r)"
proof -
  let ?n = "length (outputs V)" and ?run = "do_exec_redirect V"
  have run: "run_command (exec_call V) (argv V) = Replaced (argv V)"
    using V by (simp add: run_command_def well_behaved_def)
  let ?s1 = "?run (replicate 3 Child) (redirect_start old)"
  have s1: "has_written V 0 0 ?s1" "ppc ?s1 = P_Open"
    using V run
    by (simp_all add: do_exec_redirect_def redirect_step_def child_step_def redirect_start_def numeral_3_eq_3
        well_behaved_def has_written_def)
  let ?s2 = "?run (replicate j Child) ?s1"
  have s2: "has_written V 0 j ?s2" "ppc ?s2 = P_Open"
    using child_writes [OF V s1(1), of j] j s1(2) by simp_all
  let ?s3 = "?run [Parent] ?s2"
  have s3: "has_written V j j ?s3" "ppc ?s3 = P_Wait"
    using s2 V by (simp_all add: has_written_def do_exec_redirect_def redirect_step_def parent_step_def well_behaved_def)
  let ?s4 = "?run (replicate (?n - j) Child) ?s3"
  have s4: "has_written V j ?n ?s4" "ppc ?s4 = P_Wait"
    using child_writes [OF V s3(1), of "?n - j"] j s3(2) by simp_all
  have "outfile (?run [Child, Parent] ?s4) = Some (truncated j ?n (outputs V)) \<and> (\<exists>r. ppc (?run [Child, Parent] ?s4) = P_Done r)"
    using s4 V by (simp add: has_written_def do_exec_redirect_def redirect_step_def parent_step_def child_step_def well_behaved_def)
  then show ?thesis unfolding losing_def run_append by blast
qed

end
