(* ===== verification/System_Properties.thy ===== *)
theory System_Properties
  imports System_Calls
begin

text \<open>
  The properties of the exercises on processes.
\<close>

lemma wait_status_value:
  "uint (wait_status (Exit c)) = c mod 256 * 256"
  "n < 127 \<Longrightarrow> uint (wait_status (Signalled n)) = int n"
proof -
  have "wait_status (Exit c) = word_of_int (push_bit 8 (take_bit 8 c))"
    unfolding wait_status_def by (rule bit_eqI) (auto simp: bit_simps)
  then have w: "wait_status (Exit c) = word_of_int (c mod 256 * 256)"
    by (simp add: push_bit_eq_mult take_bit_eq_mod)
  have "c mod 256 < 256" by (rule pos_mod_bound) simp
  then have k: "0 \<le> c mod 256 * 256" "c mod 256 * 256 < 2 ^ LENGTH(32)" by simp_all
  have "uint (word_of_int (c mod 256 * 256) :: 32 word) = c mod 256 * 256 mod 2 ^ LENGTH(32)" by (rule uint_word_of_int)
  also have "\<dots> = c mod 256 * 256" by (rule mod_pos_pos_trivial [OF k])
  finally show "uint (wait_status (Exit c)) = c mod 256 * 256" unfolding w .
next
  assume n: "n < 127"
  then have "wait_status (Signalled n) = of_nat n"
    using take_bit_nat_eq_self [of n 7] by (simp only: wait_status_def ending.case take_bit_of_nat) simp
  moreover have "unat (of_nat n :: 32 word) = n" using n by (simp add: unat_of_nat)
  ultimately show "uint (wait_status (Signalled n)) = int n" by (metis uint_nat)
qed

text \<open>what \<open>do_system\<close> reports. It is false if \<open>system\<close> itself fails; but it is true for every exit
  status of the command and for every signal that kills the shell, even for the status 127 with which
  the shell reports a command that it could not run, because the code compares the wait status, and
  not the exit code in it, with 127. Without a command it says whether there is a shell.\<close>

theorem do_system_ignores_exit_status:
  assumes "\<And>n. e = Signalled n \<Longrightarrow> n < 127"
  shows "(system (Some cmd) = - 1 \<longrightarrow> \<not> do_system system (Some cmd)) \<and>
    (system (Some cmd) = uint (wait_status e) \<longrightarrow> do_system system (Some cmd)) \<and>
    (system None \<in> {0, 1} \<longrightarrow> do_system system None = (system None = 1))"
proof -
  have "uint (wait_status e) \<noteq> 127 \<and> uint (wait_status e) \<noteq> - 1"
  proof (cases e)
    case (Exit c)
    have "c mod 256 * 256 \<noteq> 127" by presburger
    then show ?thesis using Exit wait_status_value(1) [of c] pos_mod_sign [of 256 c] by simp
  next
    case (Signalled n)
    then show ?thesis using assms wait_status_value(2) [of n] by simp
  qed
  then show ?thesis by (auto simp: do_system_def)
qed

lemma do_system_ignores_exit_status_witness:
  "do_system (\<lambda>_. 32512) (Some [120]) \<and> uint (wait_status (Exit 127)) = 32512"
proof -
  have u: "uint (wait_status (Exit 127)) = 32512" using wait_status_value(1) [of 127] by simp
  then show ?thesis
    using do_system_ignores_exit_status [of "Exit 127" "\<lambda>_. 32512" "[120]"] by simp
qed

text \<open>C35: \<open>do_exec\<close> in its two processes, for any programs. The child never returns from the function, and
  the parent's result is true exactly if \<open>fork\<close> and \<open>waitpid\<close> succeed, the command can be executed and
  it exits, not killed by a signal, with a code that is 0 modulo 256.\<close>

theorem exec_and_wait_correct:
  assumes "count \<le> length args" and "0 < pid \<or> pid = - 1"
    and "\<And>n. programs (take count args) = Some (Signalled n) \<Longrightarrow> n \<noteq> 0 \<and> n < 127"
  shows "exec_and_wait programs pid wait_ok count args =
      Some (Returned (pid \<noteq> - 1 \<and> wait_ok \<and> (\<exists>c. programs (take count args) = Some (Exit c) \<and> c mod 256 = 0))) \<and>
    (\<forall>r. do_exec 0 (exec_of programs) w count args \<noteq> Some (Returned r))"
  using exec_and_wait_ok [OF assms]
  by (auto simp: do_exec_def run_command_def exec_of_def copy_args_take [OF assms(1)])

lemma exec_and_wait_correct_witness:
  "exec_and_wait (\<lambda>c. if c = [[47, 97], [98]] then Some (Exit 0) else None) 12 True 2 [[47, 97], [98], [99]] = Some (Returned True) \<and>
   exec_and_wait (\<lambda>c. if c = [[47, 97]] then Some (Signalled 9) else None) 12 True 1 [[47, 97]] = Some (Returned False)"
proof -
  let ?p = "\<lambda>c. if c = [[47, 97], [98]] then Some (Exit 0) else None" and ?q = "\<lambda>c. if c = [[47, 97]] then Some (Signalled 9) else None"
  show ?thesis
    using exec_and_wait_correct [of 2 "[[47, 97], [98], [99]]" 12 ?p True "(0, 0)"]
      exec_and_wait_correct [of 1 "[[47, 97]]" 12 ?q True "(0, 0)"] by simp
qed

text \<open>C36: \<open>do_exec_redirect\<close>, when all its calls succeed. Under every schedule of the two processes the
  result that the parent reports is that of the program, but the file need not hold its output: parent
  and child both truncate it, and if the parent does so after the program has written \<open>j\<close> of its pieces,
  they are lost and zero bytes take their place before the rest. Each such loss happens under some
  schedule.\<close>

theorem redirect_may_lose_output:
  assumes "well_behaved V"
  shows "(\<forall>r. ppc (do_exec_redirect V sched (redirect_start old)) = P_Done r \<longrightarrow>
      r = wait_result (fork_result V, wait_status (prog_ending V)) \<and>
      (\<exists>j \<le> length (outputs V). outfile (do_exec_redirect V sched (redirect_start old)) =
        Some (truncated j (length (outputs V)) (outputs V)))) \<and>
    (\<forall>j \<le> length (outputs V). \<exists>r.
      ppc (do_exec_redirect V (losing j (length (outputs V))) (redirect_start old)) = P_Done r \<and>
      outfile (do_exec_redirect V (losing j (length (outputs V))) (redirect_start old)) =
        Some (truncated j (length (outputs V)) (outputs V)))"
  using redirect_inv_run [OF assms redirect_inv_start, of sched old] losing_schedule [OF assms, of _ old]
  by (auto simp: redirect_inv_def)

definition demo_redirect :: redirect_env where
  "demo_redirect =
     \<lparr>fork_result = 12, parent_open = True, child_open = True, dup2_result = \<lambda>_. 1,
      exec_call = \<lambda>_ _. None, argv = [[47, 97]], outputs = [[104], [105]], prog_ending = Exit 0, waitpid_ok = True\<rparr>"

lemma redirect_may_lose_output_witness:
  "outfile (do_exec_redirect demo_redirect (losing 2 2) (redirect_start None)) = Some [] \<and>
   outfile (do_exec_redirect demo_redirect (losing 0 2) (redirect_start None)) = Some [104, 105]"
proof -
  have w: "well_behaved demo_redirect" "outputs demo_redirect = [[104], [105]]"
    by (simp_all add: well_behaved_def demo_redirect_def)
  have "\<forall>j \<le> 2. outfile (do_exec_redirect demo_redirect (losing j 2) (redirect_start None)) = Some (truncated j 2 [[104], [105]])"
    using redirect_may_lose_output [OF w(1), of "[]" None] by (simp add: w(2) numeral_2_eq_2)
  from spec [OF this, of 2] spec [OF this, of 0] show ?thesis
    by (simp add: truncated_def numeral_2_eq_2)
qed

end
