(* ===== verification/Exercises.thy ===== *)
theory Exercises
  imports Prelude
begin

text \<open>
  The small programs of the repository: \<open>finder-app/writer.c\<close>, \<open>file_redirect.c\<close>, the functions of
  \<open>examples/autotest-validate\<close> and \<open>examples/threading\<close>, and the two drivers that test them. Results of
  system calls are arguments; messages to the system log are left out.
\<close>

subsection \<open>\<open>finder-app/writer.c\<close>\<close>

text \<open>The files of the system by path. A file that cannot be opened is logged, and its null stream is
  then written to, which is undefined.\<close>

type_synonym files_state = "byte list \<rightharpoonup> byte list"

definition writer_main :: "(byte list \<Rightarrow> bool) \<Rightarrow> byte list list \<Rightarrow> files_state \<Rightarrow> (int \<times> files_state) option" where
  "writer_main can_open argv fs =
     (if length argv = 3
      then let path = argv ! 1 in
        if can_open path then Some (0, fs(path \<mapsto> argv ! 2)) else None
      else if length argv < 3 then Some (1, fs)
      else Some (1, fs))"

text \<open>The program replaces the content of the named file, and no other file; with a wrong number of
  arguments it fails and changes nothing.\<close>

lemma writer_main_ok:
  "writer_main can_open argv fs = Some (r, fs') \<longleftrightarrow>
     (if length argv = 3 then can_open (argv ! 1) \<and> r = 0 \<and> fs' = fs(argv ! 1 \<mapsto> argv ! 2) else r = 1 \<and> fs' = fs)"
  by (auto simp: writer_main_def Let_def)

subsection \<open>\<open>file_redirect.c\<close>\<close>

text \<open>The lines that the program prints, and where its standard output leads, in the process that
  \<open>fork\<close> returned \<open>pid\<close> to.\<close>

datatype target = Terminal | Redirected
datatype message = Open_Failed | In_File_Now | In_Child | In_Parent

definition file_redirect_main :: "int \<Rightarrow> int \<Rightarrow> (int \<Rightarrow> int) \<Rightarrow> (target \<times> message) list" where
  "file_redirect_main fd pid dup2 =
     (if fd = - 1 then [(Terminal, Open_Failed)] else []) @
     (if pid = - 1 then []
      else if pid = 0 then
        (if dup2 fd < 0 then [(Terminal, In_File_Now), (Terminal, In_Child)]
         else [(Redirected, In_File_Now), (Redirected, In_File_Now), (Redirected, In_Child)])
      else [(Terminal, In_Parent)])"

text \<open>The redirection of the child does not affect its parent.\<close>

lemma parent_not_redirected: "pid \<noteq> 0 \<Longrightarrow> (Redirected, x) \<notin> set (file_redirect_main fd pid dup2)"
  by (simp add: file_redirect_main_def)

subsection \<open>\<open>examples/autotest-validate\<close> and \<open>examples/threading\<close>\<close>

definition this_function_returns_true :: bool where
  "this_function_returns_true = True"

definition this_function_returns_false :: bool where
  "this_function_returns_false = False"

definition my_username :: string where
  "my_username = ''eyas-UC''"

text \<open>The threading exercise was never filled in: the thread function returns its argument, and the
  function that should start a thread reports a failure for all arguments.\<close>

definition threadfunc :: "nat \<Rightarrow> nat" where
  "threadfunc thread_param = thread_param"

definition start_thread_obtaining_mutex :: "nat \<Rightarrow> nat \<Rightarrow> int \<Rightarrow> int \<Rightarrow> bool" where
  "start_thread_obtaining_mutex thread m wait_to_obtain_ms wait_to_release_ms = False"

subsection \<open>The test drivers\<close>

text \<open>The main function of \<open>autotest-validate-main.c\<close>: the lines that it prints and its exit status.\<close>

definition truth_word :: "bool \<Rightarrow> string" where
  "truth_word b = (if b then ''true'' else ''false'')"

definition validate_main :: "string list \<times> int" where
  "validate_main =
     ([''this_function_returns_true returned '' @ truth_word this_function_returns_true,
       ''this_function_returns_false returned '' @ truth_word this_function_returns_false], 0)"

lemma validate_main_prints:
  "validate_main = ([''this_function_returns_true returned true'', ''this_function_returns_false returned false''], 0)"
  by (simp add: validate_main_def truth_word_def this_function_returns_true_def this_function_returns_false_def)

text \<open>The unit test: \<open>actual\<close> is the copy of the configuration file that the test library makes, \<open>equal_strings\<close>
  the verdict of the assertion of Unity, which leaves the test when it fails. The results are whether the
  test passes and whether the copy was released.\<close>

definition test_validate_my_username :: "(string option \<Rightarrow> string option \<Rightarrow> bool) \<Rightarrow> string option \<Rightarrow> bool \<times> bool" where
  "test_validate_my_username equal_strings actual =
     (let actual_string = actual; expected_string = Some my_username in
      if equal_strings actual_string expected_string then (True, True) else (False, False))"

lemma test_passes_iff:
  assumes "\<And>a b. equal_strings a b \<longleftrightarrow> a = b"
  shows "test_validate_my_username equal_strings actual = (actual = Some ''eyas-UC'', actual = Some ''eyas-UC'')"
  by (simp add: test_validate_my_username_def assms my_username_def)

end
