(* ===== verification/Queue_Memory.thy ===== *)
theory Queue_Memory
  imports Prelude
begin

text \<open>
  The memory of the linked structures of \<open>server/queue.h\<close>: objects with numbered members, each of which
  holds a pointer: null, the address of an object, or the address of a member. The entry that the macros
  embed into a structure is identified with the structure. In every head and entry member 0 is the forward
  pointer; member 1, where there is one, holds the address of a forward pointer. Heads and entries of a
  tail queue have the same layout, on which \<open>TAILQ_LAST\<close> and \<open>TAILQ_PREV\<close> rely.
\<close>

subsection \<open>Members and pointers\<close>

type_synonym loc = "nat \<times> nat"

text \<open>\<open>Undef\<close> is the value of a member that was never assigned, \<open>Trash\<close> is \<open>(void *)-1\<close>.\<close>

datatype val = Undef | Null | Trash | Obj nat | Addr loc

type_synonym qmem = "loc \<rightharpoonup> val"

definition rd :: "loc \<Rightarrow> qmem \<Rightarrow> val option" where
  "rd l m = (case m l of None \<Rightarrow> None | Some v \<Rightarrow> if v = Undef then None else Some v)"

definition wr :: "loc \<Rightarrow> val \<Rightarrow> qmem \<Rightarrow> qmem option" where
  "wr l v m = (if m l = None then None else Some (m(l \<mapsto> v)))"

text \<open>A member of the object that a pointer points to, and the target of the address of a member.\<close>

fun arrow :: "val \<Rightarrow> nat \<Rightarrow> loc option" where
  "arrow (Obj a) k = Some (a, k)"
| "arrow _ k = None"

fun deref :: "val \<Rightarrow> loc option" where
  "deref (Addr l) = Some l"
| "deref _ = None"

definition get_mem :: "val \<Rightarrow> nat \<Rightarrow> qmem \<Rightarrow> val option" where
  "get_mem p k m = do { l \<leftarrow> arrow p k; rd l m }"

definition set_mem :: "val \<Rightarrow> nat \<Rightarrow> val \<Rightarrow> qmem \<Rightarrow> qmem option" where
  "set_mem p k v m = do { l \<leftarrow> arrow p k; wr l v m }"

definition set_target :: "val \<Rightarrow> val \<Rightarrow> qmem \<Rightarrow> qmem option" where
  "set_target p v m = do { l \<leftarrow> deref p; wr l v m }"

text \<open>\<open>__containerof\<close> of the address of a forward pointer: the structure that has the pointer.\<close>

fun containerof :: "val \<Rightarrow> val option" where
  "containerof (Addr (a, k)) = (if k = 0 then Some (Obj a) else None)"
| "containerof _ = None"

text \<open>\<open>free\<close> of an object.\<close>

definition free_obj :: "nat \<Rightarrow> qmem \<Rightarrow> qmem option" where
  "free_obj x m = (if m (x, 0) = None then None else Some (m |` {l. fst l \<noteq> x}))"

lemma rd_ok [simp]: "m l = Some v \<Longrightarrow> v \<noteq> Undef \<Longrightarrow> rd l m = Some v"
  by (simp add: rd_def)

lemma wr_ok [simp]: "m l \<noteq> None \<Longrightarrow> wr l v m = Some (m(l \<mapsto> v))"
  by (simp add: wr_def)

lemma pointer_simps [simp]:
  "get_mem (Obj a) k m = rd (a, k) m" "get_mem Null k m = None"
  "set_mem (Obj a) k v m = wr (a, k) v m" "set_target (Addr l) v m = wr l v m"
  by (simp_all add: get_mem_def set_mem_def set_target_def)

subsection \<open>Configuration\<close>

text \<open>Whether the header was compiled with the checks of \<open>INVARIANTS\<close> and with \<open>TRASHIT\<close> of \<open>QUEUE_MACRO_DEBUG\<close>.
  A check that fails panics.\<close>

record config =
  invariants :: bool
  macro_debug :: bool

definition TRASHIT :: "config \<Rightarrow> loc \<Rightarrow> qmem \<Rightarrow> qmem option" where
  "TRASHIT K l m = (if macro_debug K then wr l Trash m else Some m)"

definition check :: "config \<Rightarrow> bool option \<Rightarrow> qmem \<Rightarrow> qmem option" where
  "check K c m = (if invariants K then do { ok \<leftarrow> c; if ok then Some m else None } else Some m)"

lemma check_ok [simp]: "check K (Some True) m = Some m"
  by (simp add: check_def)

subsection \<open>Loops\<close>

text \<open>The loops over the forward pointers: to the last object, and to the predecessor of an object.\<close>

partial_function (option) end_of :: "val \<Rightarrow> qmem \<Rightarrow> val option" where
  "end_of curelm m =
     do { n \<leftarrow> get_mem curelm 0 m;
          if n \<noteq> Null then end_of n m else Some curelm }"

partial_function (option) walk_to :: "val \<Rightarrow> nat \<Rightarrow> qmem \<Rightarrow> val option" where
  "walk_to curelm elm m =
     do { n \<leftarrow> get_mem curelm 0 m;
          if n \<noteq> Obj elm then walk_to n elm m else Some curelm }"

text \<open>The \<open>for\<close> loops of the \<open>FOREACH\<close> macros; the body changes the memory and a state of its own. \<open>step\<close> is the
  expression for the next object.\<close>

partial_function (option) foreach ::
    "(nat \<Rightarrow> qmem \<Rightarrow> val option) \<Rightarrow> (nat \<Rightarrow> 's \<times> qmem \<Rightarrow> ('s \<times> qmem) option) \<Rightarrow> val \<Rightarrow> 's \<times> qmem \<Rightarrow> ('s \<times> qmem) option" where
  "foreach step body var st =
     (case var of
        Null \<Rightarrow> Some st
      | Obj x \<Rightarrow> do { st \<leftarrow> body x st; v \<leftarrow> step x (snd st); foreach step body v st }
      | _ \<Rightarrow> None)"

partial_function (option) foreach_safe ::
    "(nat \<Rightarrow> qmem \<Rightarrow> val option) \<Rightarrow> (nat \<Rightarrow> 's \<times> qmem \<Rightarrow> ('s \<times> qmem) option) \<Rightarrow> val \<Rightarrow> 's \<times> qmem \<Rightarrow> ('s \<times> qmem) option" where
  "foreach_safe step body var st =
     (case var of
        Null \<Rightarrow> Some st
      | Obj x \<Rightarrow> do { tvar \<leftarrow> step x (snd st); st \<leftarrow> body x st; foreach_safe step body tvar st }
      | _ \<Rightarrow> None)"

lemma foreach_simps [simp]:
  "foreach step body Null st = Some st"
  "foreach step body (Obj x) st = do { st \<leftarrow> body x st; v \<leftarrow> step x (snd st); foreach step body v st }"
  by (subst foreach.simps, simp)+

lemma foreach_safe_simps [simp]:
  "foreach_safe step body Null st = Some st"
  "foreach_safe step body (Obj x) st = do { tvar \<leftarrow> step x (snd st); st \<leftarrow> body x st; foreach_safe step body tvar st }"
  by (subst foreach_safe.simps, simp)+

text \<open>The objects that the loop visits as long as the memory stays as it is.\<close>

fun walks :: "(nat \<Rightarrow> qmem \<Rightarrow> val option) \<Rightarrow> qmem \<Rightarrow> val \<Rightarrow> nat list \<Rightarrow> bool" where
  "walks step m v [] \<longleftrightarrow> v = Null"
| "walks step m v (x # xs) \<longleftrightarrow> v = Obj x \<and> (case step x m of None \<Rightarrow> False | Some w \<Rightarrow> walks step m w xs)"

lemma foreach_walks:
  assumes "walks step m v xs" and "\<And>x s. body x (s, m) = Some (f x s, m)"
  shows "foreach step body v (s, m) = Some (fold f xs s, m)" and "foreach_safe step body v (s, m) = Some (fold f xs s, m)"
  using assms(1) by (induction xs arbitrary: v s) (auto simp: assms(2) split: option.splits)

subsection \<open>Chains\<close>

text \<open>The objects \<open>xs\<close> follow \<open>p\<close> by their members 0, and the last of them has the value \<open>v\<close> there; each of
  them has the address of the member 0 of its predecessor in its member 1.\<close>

fun seg :: "qmem \<Rightarrow> nat \<Rightarrow> nat list \<Rightarrow> val \<Rightarrow> bool" where
  "seg m p [] v = (m (p, 0) = Some v)"
| "seg m p (x # xs) v = (m (p, 0) = Some (Obj x) \<and> seg m x xs v)"

fun prevs :: "qmem \<Rightarrow> nat \<Rightarrow> nat list \<Rightarrow> bool" where
  "prevs m p [] = True"
| "prevs m p (x # xs) = (m (x, 1) = Some (Addr (p, 0)) \<and> prevs m x xs)"

lemma seg_append_Cons: "seg m p (xs @ y # ys) v \<longleftrightarrow> seg m p xs (Obj y) \<and> seg m y ys v"
  by (induction xs arbitrary: p) auto

lemma prevs_append: "prevs m p (xs @ ys) \<longleftrightarrow> prevs m p xs \<and> prevs m (last (p # xs)) ys"
  by (induction xs arbitrary: p) auto

lemma seg_last: "seg m p xs v \<Longrightarrow> m (last (p # xs), 0) = Some v"
  by (induction xs arbitrary: p) auto

lemma seg_walks: "seg m p xs Null \<Longrightarrow> \<exists>v. rd (p, 0) m = Some v \<and> walks (\<lambda>e. rd (e, 0)) m v xs"
proof (induction xs arbitrary: p)
  case (Cons x xs)
  then obtain v where "rd (x, 0) m = Some v" "walks (\<lambda>e. rd (e, 0)) m v xs" by fastforce
  then show ?case using Cons.prems by auto
qed simp

lemma seg_first: "seg m p xs v \<Longrightarrow> m (p, 0) = Some (if xs = [] then v else Obj (hd xs))"
  by (cases xs) auto

lemma seg_frame: "seg m p xs v \<Longrightarrow> (\<And>a. a \<in> set (p # xs) \<Longrightarrow> m' (a, 0) = m (a, 0)) \<Longrightarrow> seg m' p xs v"
  by (induction xs arbitrary: p) auto

lemma prevs_frame: "prevs m p xs \<Longrightarrow> (\<And>a. a \<in> set xs \<Longrightarrow> m' (a, 1) = m (a, 1)) \<Longrightarrow> prevs m' p xs"
  by (induction xs arbitrary: p) auto

lemma seg_update [simp]:
  "a \<noteq> p \<Longrightarrow> a \<notin> set xs \<Longrightarrow> seg (m((a, k) \<mapsto> c)) p xs v = seg m p xs v"
  "seg (m((a, Suc k) \<mapsto> c)) p xs v = seg m p xs v"
  by (induction xs arbitrary: p) auto

lemma prevs_update [simp]:
  "a \<notin> set xs \<Longrightarrow> prevs (m((a, k) \<mapsto> c)) p xs = prevs m p xs"
  "prevs (m((a, 0) \<mapsto> c)) p xs = prevs m p xs"
  by (induction xs arbitrary: p) auto

text \<open>A new value behind the last object.\<close>

lemma seg_set_last:
  "seg m p xs v \<Longrightarrow> distinct (p # xs) \<Longrightarrow> seg (m((last (p # xs), 0) \<mapsto> u)) p xs u"
  by (induction xs arbitrary: p) (auto split: if_splits)

lemma seg_join:
  assumes "seg m p xs v" and "seg m q (y # ys) w" and "distinct (p # xs @ y # ys)"
  shows "seg (m((last (p # xs), 0) \<mapsto> Obj y)) p (xs @ y # ys) w"
proof -
  have "last (p # xs) \<in> set (p # xs)" by (rule last_in_set) simp
  then have "last (p # xs) \<noteq> y" "last (p # xs) \<notin> set ys" using assms(3) by (auto simp del: last.simps)
  then have "seg (m((last (p # xs), 0) \<mapsto> Obj y)) y ys w" using assms(2) by (simp del: last.simps)
  moreover have "seg (m((last (p # xs), 0) \<mapsto> Obj y)) p xs (Obj y)"
    using assms(1,3) by (intro seg_set_last) auto
  ultimately show ?thesis by (simp add: seg_append_Cons del: last.simps)
qed

lemma end_of_seg: "seg m a xs Null \<Longrightarrow> end_of (Obj a) m = Some (Obj (last (a # xs)))"
  by (induction xs arbitrary: a) (subst end_of.simps, simp)+

lemma walk_to_seg:
  "seg m a (xs @ x # ys) v \<Longrightarrow> x \<notin> set xs \<Longrightarrow> walk_to (Obj a) x m = Some (Obj (last (a # xs)))"
  by (induction xs arbitrary: a) (subst walk_to.simps, simp)+

text \<open>The shape of a singly linked structure, and the consequences for its first and last objects.\<close>

definition fchain :: "qmem \<Rightarrow> nat \<Rightarrow> nat list \<Rightarrow> bool" where
  "fchain m h xs \<longleftrightarrow> seg m h xs Null \<and> distinct (h # xs)"

lemma fchain_Nil [simp]: "fchain m h [] \<longleftrightarrow> m (h, 0) = Some Null"
  by (simp add: fchain_def)

lemma fchain_first: "fchain m h xs \<Longrightarrow> m (h, 0) = Some (if xs = [] then Null else Obj (hd xs))"
  by (simp add: fchain_def seg_first)

lemma fchain_insert:
  assumes "fchain m h (as @ bs)" and "y \<notin> set (h # as @ bs)"
  shows "fchain (m((y, 0) \<mapsto> (if bs = [] then Null else Obj (hd bs)), (last (h # as), 0) \<mapsto> Obj y)) h (as @ y # bs)"
proof -
  let ?v = "if bs = [] then Null else Obj (hd bs)" and ?l = "last (h # as)"
  have "?l \<in> set (h # as)" by (rule last_in_set) simp
  then have l: "?l \<noteq> y" "?l \<notin> set bs" using assms by (auto simp: fchain_def simp del: last.simps)
  have "seg m h as ?v" "bs \<noteq> [] \<Longrightarrow> seg m (hd bs) (tl bs) Null"
    using assms(1) by (cases bs; simp add: fchain_def seg_append_Cons)+
  moreover have "y \<noteq> h" "y \<notin> set as" "y \<notin> set bs" "distinct (h # as)" using assms by (auto simp: fchain_def)
  ultimately have a: "seg (m((y, 0) \<mapsto> ?v)) h as ?v" and d: "distinct (h # as)"
    and b: "bs \<noteq> [] \<Longrightarrow> seg (m((y, 0) \<mapsto> ?v)) (hd bs) (tl bs) Null"
    by (simp_all, cases bs, simp_all)
  have "seg (m((y, 0) \<mapsto> ?v, (?l, 0) \<mapsto> Obj y)) h as (Obj y)" by (rule seg_set_last [OF a d])
  moreover have "seg (m((y, 0) \<mapsto> ?v, (?l, 0) \<mapsto> Obj y)) y bs Null"
    using l b by (cases bs) (auto simp del: last.simps)
  ultimately show ?thesis
    using assms by (auto simp: fchain_def seg_append_Cons simp del: last.simps fun_upd_apply)
qed

lemma fchain_remove:
  assumes "fchain m h (as @ x # bs)"
  shows "fchain (m((last (h # as), 0) \<mapsto> (if bs = [] then Null else Obj (hd bs)))) h (as @ bs)"
proof -
  let ?v = "if bs = [] then Null else Obj (hd bs)" and ?l = "last (h # as)"
  have "?l \<in> set (h # as)" by (rule last_in_set) simp
  then have l: "?l \<noteq> x" "?l \<notin> set bs" using assms by (auto simp: fchain_def simp del: last.simps)
  have s: "seg m h as (Obj x)" "seg m x bs Null" "distinct (h # as)"
    using assms by (auto simp: fchain_def seg_append_Cons)
  have "seg (m((?l, 0) \<mapsto> ?v)) h as ?v" by (rule seg_set_last [OF s(1,3)])
  moreover have "bs \<noteq> [] \<Longrightarrow> seg (m((?l, 0) \<mapsto> ?v)) (hd bs) (tl bs) Null"
    using s(2) l by (cases bs) (auto simp del: last.simps)
  ultimately show ?thesis
    using assms by (cases bs) (auto simp: fchain_def seg_append_Cons simp del: last.simps fun_upd_apply)
qed

lemma fchain_append:
  assumes "fchain m h xs" and "fchain m g ys" and "set (h # xs) \<inter> set (g # ys) = {}"
  shows "fchain (m((last (h # xs), 0) \<mapsto> (if ys = [] then Null else Obj (hd ys)))) h (xs @ ys)"
proof (cases ys)
  case Nil
  then show ?thesis using assms(1) seg_set_last [of m h xs Null Null] by (simp add: fchain_def)
next
  case (Cons y zs)
  then show ?thesis using assms seg_join [of m h xs Null g y zs Null] by (auto simp: fchain_def)
qed

lemma fchain_member:
  assumes "fchain m h (as @ x # bs)"
  shows "m (last (h # as), 0) = Some (Obj x)" and "m (x, 0) = Some (if bs = [] then Null else Obj (hd bs))"
  using assms seg_last [of m h as "Obj x"] seg_first [of m x bs Null] by (auto simp: fchain_def seg_append_Cons)

lemma fchain_trash: "fchain m h xs \<Longrightarrow> x \<notin> set (h # xs) \<Longrightarrow> fchain (m((x, k) \<mapsto> v)) h xs"
  by (auto simp: fchain_def)

lemma fchain_move:
  assumes "fchain m h xs" and "g \<notin> set xs" and "m' (g, 0) = m (h, 0)" and "\<And>a. a \<in> set xs \<Longrightarrow> m' (a, 0) = m (a, 0)"
  shows "fchain m' g xs"
  using assms by (cases xs) (auto simp: fchain_def intro: seg_frame)

subsection \<open>Doubly linked chains\<close>

definition dchain :: "qmem \<Rightarrow> nat \<Rightarrow> nat list \<Rightarrow> bool" where
  "dchain m h xs \<longleftrightarrow> fchain m h xs \<and> prevs m h xs"

lemma dchain_Nil [simp]: "dchain m h [] \<longleftrightarrow> m (h, 0) = Some Null"
  by (simp add: dchain_def)

lemma fchain_cong: "fchain m h xs \<Longrightarrow> (\<And>a. a \<in> set (h # xs) \<Longrightarrow> m' (a, 0) = m (a, 0)) \<Longrightarrow> fchain m' h xs"
  by (auto simp: fchain_def intro: seg_frame)

lemma prevs_first: "prevs m h xs \<Longrightarrow> xs \<noteq> [] \<Longrightarrow> m (hd xs, Suc 0) = Some (Addr (h, 0))"
  by (cases xs) auto

lemma prevs_move:
  assumes "prevs m h xs" and "xs \<noteq> [] \<Longrightarrow> m' (hd xs, 1) = Some (Addr (g, 0))"
    and "\<And>a. a \<in> set (tl xs) \<Longrightarrow> m' (a, 1) = m (a, 1)"
  shows "prevs m' g xs"
  using assms by (cases xs) (auto intro: prevs_frame)

lemma dchain_member:
  assumes "dchain m h (as @ x # bs)"
  shows "m (x, Suc 0) = Some (Addr (last (h # as), 0))" and "bs \<noteq> [] \<Longrightarrow> m (hd bs, Suc 0) = Some (Addr (x, 0))"
  using assms prevs_first [of m x bs] by (auto simp: dchain_def prevs_append)

lemma dchain_insert:
  assumes "dchain m h (as @ bs)" and "y \<notin> set (h # as @ bs)"
    and "\<And>a. m' (a, 0) = (m((y, 0) \<mapsto> (if bs = [] then Null else Obj (hd bs)), (last (h # as), 0) \<mapsto> Obj y)) (a, 0)"
    and "m' (y, 1) = Some (Addr (last (h # as), 0))" and "bs \<noteq> [] \<Longrightarrow> m' (hd bs, 1) = Some (Addr (y, 0))"
    and "\<And>a. a \<in> set as \<union> set (tl bs) \<Longrightarrow> m' (a, 1) = m (a, 1)"
  shows "dchain m' h (as @ y # bs)"
proof -
  have p: "prevs m h as" "prevs m (last (h # as)) bs" using assms(1) by (simp_all add: dchain_def prevs_append)
  have "prevs m' h as" using assms(6) by (intro prevs_frame [OF p(1)]) simp
  moreover have "prevs m' y bs" using assms(5,6) by (intro prevs_move [OF p(2)]) auto
  moreover have "fchain m' h (as @ y # bs)"
    using assms(1,2) by (intro fchain_cong [OF fchain_insert assms(3)]) (simp_all add: dchain_def)
  ultimately show ?thesis using assms(4) by (simp add: dchain_def prevs_append)
qed

lemma dchain_remove:
  assumes "dchain m h (as @ x # bs)"
    and "\<And>a. a \<noteq> x \<Longrightarrow> m' (a, 0) = (m((last (h # as), 0) \<mapsto> (if bs = [] then Null else Obj (hd bs)))) (a, 0)"
    and "bs \<noteq> [] \<Longrightarrow> m' (hd bs, 1) = Some (Addr (last (h # as), 0))"
    and "\<And>a. a \<in> set as \<union> set (tl bs) \<Longrightarrow> m' (a, 1) = m (a, 1)"
  shows "dchain m' h (as @ bs)"
proof -
  let ?m = "m((last (h # as), 0) \<mapsto> (if bs = [] then Null else Obj (hd bs)))"
  have p: "prevs m h as" "prevs m x bs" using assms(1) by (simp_all add: dchain_def prevs_append)
  have "prevs m' h as" using assms(4) by (intro prevs_frame [OF p(1)]) simp
  moreover have "prevs m' (last (h # as)) bs" using assms(3,4) by (intro prevs_move [OF p(2)]) auto
  moreover have "fchain m' h (as @ bs)"
  proof -
    have "fchain ?m h (as @ bs)" "x \<notin> set (h # as @ bs)"
      using assms(1) fchain_remove [of m h as x bs] by (auto simp: dchain_def fchain_def)
    then show ?thesis using assms(2) fchain_cong [of ?m h "as @ bs" m'] by metis
  qed
  ultimately show ?thesis by (simp add: dchain_def prevs_append)
qed

lemma dchain_append:
  assumes "dchain m h xs" and "dchain m g ys" and "set (h # xs) \<inter> set (g # ys) = {}"
    and "\<And>a. a \<noteq> g \<Longrightarrow> m' (a, 0) = (m((last (h # xs), 0) \<mapsto> (if ys = [] then Null else Obj (hd ys)))) (a, 0)"
    and "ys \<noteq> [] \<Longrightarrow> m' (hd ys, 1) = Some (Addr (last (h # xs), 0))"
    and "\<And>a. a \<in> set xs \<union> set (tl ys) \<Longrightarrow> m' (a, 1) = m (a, 1)"
  shows "dchain m' h (xs @ ys)"
proof -
  let ?m = "m((last (h # xs), 0) \<mapsto> (if ys = [] then Null else Obj (hd ys)))"
  have p: "prevs m h xs" "prevs m g ys" using assms(1,2) by (simp_all add: dchain_def)
  have "prevs m' h xs" using assms(6) by (intro prevs_frame [OF p(1)]) simp
  moreover have "prevs m' (last (h # xs)) ys" using assms(5,6) by (intro prevs_move [OF p(2)]) auto
  moreover have "fchain m' h (xs @ ys)"
  proof -
    have "fchain ?m h (xs @ ys)" "g \<notin> set (h # xs @ ys)"
      using assms(1,2,3) fchain_append [of m h xs g ys] by (auto simp: dchain_def fchain_def)
    then show ?thesis using assms(4) fchain_cong [of ?m h "xs @ ys" m'] by metis
  qed
  ultimately show ?thesis by (simp add: dchain_def prevs_append)
qed

lemma dchain_move:
  assumes "dchain m h xs" and "g \<notin> set xs" and "m' (g, 0) = m (h, 0)" and "\<And>a. a \<in> set xs \<Longrightarrow> m' (a, 0) = m (a, 0)"
    and "xs \<noteq> [] \<Longrightarrow> m' (hd xs, 1) = Some (Addr (g, 0))" and "\<And>a. a \<in> set (tl xs) \<Longrightarrow> m' (a, 1) = m (a, 1)"
  shows "dchain m' g xs"
  using assms fchain_move [of m h xs g m'] prevs_move [of m h xs m' g] by (simp add: dchain_def)

end
