(* ===== verification/Queue_Interface.thy ===== *)
theory Queue_Interface
  imports Queue_Memory
begin

text \<open>
  What the four structures of \<open>queue.h\<close> have in common: operations on heads and entries that act on the lists
  of the entries. The contract is the locale \<open>linked_queue\<close>; inside it, any sequence of operations on any
  number of heads is shown to act like the list operations.
\<close>

subsection \<open>Operations\<close>

text \<open>The operations, with those that a structure may lack as options, as in the table at the top of the header.
  The sizes are the numbers of members of a head and of an entry.\<close>

type_synonym loop_body = "nat \<Rightarrow> nat list \<times> qmem \<Rightarrow> (nat list \<times> qmem) option"

record queue_ops =
  head_size :: nat
  entry_size :: nat
  q_init :: "nat \<Rightarrow> qmem \<Rightarrow> qmem option"
  q_insert_head :: "nat \<Rightarrow> nat \<Rightarrow> qmem \<Rightarrow> qmem option"
  q_insert_after :: "nat \<Rightarrow> nat \<Rightarrow> nat \<Rightarrow> qmem \<Rightarrow> qmem option"
  q_insert_before :: "(nat \<Rightarrow> nat \<Rightarrow> qmem \<Rightarrow> qmem option) option"
  q_insert_tail :: "(nat \<Rightarrow> nat \<Rightarrow> qmem \<Rightarrow> qmem option) option"
  q_remove :: "nat \<Rightarrow> nat \<Rightarrow> qmem \<Rightarrow> qmem option"
  q_concat :: "nat \<Rightarrow> nat \<Rightarrow> qmem \<Rightarrow> qmem option"
  q_swap :: "nat \<Rightarrow> nat \<Rightarrow> qmem \<Rightarrow> qmem option"
  q_foreach :: "loop_body \<Rightarrow> nat \<Rightarrow> nat list \<times> qmem \<Rightarrow> (nat list \<times> qmem) option"
  q_foreach_from :: "loop_body \<Rightarrow> val \<Rightarrow> nat \<Rightarrow> nat list \<times> qmem \<Rightarrow> (nat list \<times> qmem) option"
  q_foreach_safe :: "loop_body \<Rightarrow> nat \<Rightarrow> nat list \<times> qmem \<Rightarrow> (nat list \<times> qmem) option"
  q_foreach_from_safe :: "loop_body \<Rightarrow> val \<Rightarrow> nat \<Rightarrow> nat list \<times> qmem \<Rightarrow> (nat list \<times> qmem) option"

datatype qop =
    Q_Init nat
  | Q_Head nat nat
  | Q_After nat nat nat
  | Q_Before nat nat nat
  | Q_Tail nat nat
  | Q_Remove nat nat
  | Q_Concat nat nat
  | Q_Swap nat nat

fun queue_op :: "queue_ops \<Rightarrow> qop \<Rightarrow> qmem \<Rightarrow> qmem option" where
  "queue_op Q (Q_Init h) m = q_init Q h m"
| "queue_op Q (Q_Head h x) m = q_insert_head Q h x m"
| "queue_op Q (Q_After h x y) m = q_insert_after Q h x y m"
| "queue_op Q (Q_Before h x y) m = do { f \<leftarrow> q_insert_before Q; f x y m }"
| "queue_op Q (Q_Tail h x) m = do { f \<leftarrow> q_insert_tail Q; f h x m }"
| "queue_op Q (Q_Remove h x) m = q_remove Q h x m"
| "queue_op Q (Q_Concat h1 h2) m = q_concat Q h1 h2 m"
| "queue_op Q (Q_Swap h1 h2) m = q_swap Q h1 h2 m"

fun queue_run :: "queue_ops \<Rightarrow> qop list \<Rightarrow> qmem \<Rightarrow> qmem option" where
  "queue_run Q [] m = Some m"
| "queue_run Q (p # ps) m = do { m \<leftarrow> queue_op Q p m; queue_run Q ps m }"

lemma queue_run_append [simp]:
  "queue_run Q (ps @ ps') m = do { m \<leftarrow> queue_run Q ps m; queue_run Q ps' m }"
  by (induction ps arbitrary: m) (auto split: bind_splits)

subsection \<open>The list operations\<close>

fun insert_after :: "nat \<Rightarrow> nat \<Rightarrow> nat list \<Rightarrow> nat list" where
  "insert_after x y [] = []"
| "insert_after x y (z # zs) = (if z = x then z # y # zs else z # insert_after x y zs)"

fun insert_before :: "nat \<Rightarrow> nat \<Rightarrow> nat list \<Rightarrow> nat list" where
  "insert_before x y [] = []"
| "insert_before x y (z # zs) = (if z = x then y # z # zs else z # insert_before x y zs)"

fun list_op :: "qop \<Rightarrow> (nat \<Rightarrow> nat list) \<Rightarrow> nat \<Rightarrow> nat list" where
  "list_op (Q_Init h) A = A(h := [])"
| "list_op (Q_Head h x) A = A(h := x # A h)"
| "list_op (Q_After h x y) A = A(h := insert_after x y (A h))"
| "list_op (Q_Before h x y) A = A(h := insert_before x y (A h))"
| "list_op (Q_Tail h x) A = A(h := A h @ [x])"
| "list_op (Q_Remove h x) A = A(h := remove1 x (A h))"
| "list_op (Q_Concat h1 h2) A = A(h1 := A h1 @ A h2, h2 := [])"
| "list_op (Q_Swap h1 h2) A = A(h1 := A h2, h2 := A h1)"

definition list_run :: "qop list \<Rightarrow> (nat \<Rightarrow> nat list) \<Rightarrow> nat \<Rightarrow> nat list" where
  "list_run ps A = fold list_op ps A"

text \<open>When an operation may be used: its heads are heads, a new entry is in no list, an old one in the list of
  the head, the two heads of an operation differ, and the structure has the operation.\<close>

definition unused :: "nat set \<Rightarrow> nat list \<Rightarrow> (nat \<Rightarrow> nat list) \<Rightarrow> nat \<Rightarrow> bool" where
  "unused E hs A x \<longleftrightarrow> x \<in> E \<and> list_all (\<lambda>h. x \<notin> set (A h)) hs"

fun permitted :: "queue_ops \<Rightarrow> nat set \<Rightarrow> nat list \<Rightarrow> (nat \<Rightarrow> nat list) \<Rightarrow> qop \<Rightarrow> bool" where
  "permitted Q E hs A (Q_Init h) \<longleftrightarrow> h \<in> set hs"
| "permitted Q E hs A (Q_Head h x) \<longleftrightarrow> h \<in> set hs \<and> unused E hs A x"
| "permitted Q E hs A (Q_After h x y) \<longleftrightarrow> h \<in> set hs \<and> x \<in> set (A h) \<and> unused E hs A y"
| "permitted Q E hs A (Q_Before h x y) \<longleftrightarrow>
     q_insert_before Q \<noteq> None \<and> h \<in> set hs \<and> x \<in> set (A h) \<and> unused E hs A y"
| "permitted Q E hs A (Q_Tail h x) \<longleftrightarrow> q_insert_tail Q \<noteq> None \<and> h \<in> set hs \<and> unused E hs A x"
| "permitted Q E hs A (Q_Remove h x) \<longleftrightarrow> h \<in> set hs \<and> x \<in> set (A h)"
| "permitted Q E hs A (Q_Concat h1 h2) \<longleftrightarrow> h1 \<in> set hs \<and> h2 \<in> set hs \<and> h1 \<noteq> h2"
| "permitted Q E hs A (Q_Swap h1 h2) \<longleftrightarrow> h1 \<in> set hs \<and> h2 \<in> set hs \<and> h1 \<noteq> h2"

fun permitted_run :: "queue_ops \<Rightarrow> nat set \<Rightarrow> nat list \<Rightarrow> (nat \<Rightarrow> nat list) \<Rightarrow> qop list \<Rightarrow> bool" where
  "permitted_run Q E hs A [] = True"
| "permitted_run Q E hs A (p # ps) = (permitted Q E hs A p \<and> permitted_run Q E hs (list_op p A) ps)"

lemma insert_after_split: "x \<notin> set as \<Longrightarrow> insert_after x y (as @ x # bs) = as @ x # y # bs"
  by (induction as) auto

lemma insert_before_split: "x \<notin> set as \<Longrightarrow> insert_before x y (as @ x # bs) = as @ y # x # bs"
  by (induction as) auto

lemma remove1_split: "x \<notin> set as \<Longrightarrow> remove1 x (as @ x # bs) = as @ bs"
  by (induction as) auto

lemma set_insert_after: "x \<in> set xs \<Longrightarrow> set (insert_after x y xs) = insert y (set xs)"
  by (induction xs) auto

lemma set_insert_before: "x \<in> set xs \<Longrightarrow> set (insert_before x y xs) = insert y (set xs)"
  by (induction xs) auto

subsection \<open>Footprints\<close>

text \<open>The object has its first \<open>n\<close> members; an operation ends, touches only the objects \<open>S\<close>, and keeps the
  members of every object in place.\<close>

definition has :: "qmem \<Rightarrow> nat \<Rightarrow> nat \<Rightarrow> bool" where
  "has m n a \<longleftrightarrow> (\<forall>k < n. m (a, k) \<noteq> None)"

definition same_at :: "qmem \<Rightarrow> qmem \<Rightarrow> nat \<Rightarrow> bool" where
  "same_at m m' a \<longleftrightarrow> (\<forall>k. m' (a, k) = m (a, k))"

definition acts :: "qmem option \<Rightarrow> qmem \<Rightarrow> nat set \<Rightarrow> (qmem \<Rightarrow> bool) \<Rightarrow> bool" where
  "acts r m S P \<longleftrightarrow> (\<exists>m'. r = Some m' \<and> dom m' = dom m \<and> (\<forall>a. a \<notin> S \<longrightarrow> same_at m m' a) \<and> P m')"

definition fits :: "queue_ops \<Rightarrow> qmem \<Rightarrow> nat \<Rightarrow> nat list \<Rightarrow> bool" where
  "fits Q m h xs \<longleftrightarrow> has m (head_size Q) h \<and> (\<forall>a \<in> set xs. has m (entry_size Q) a)"

lemma actsI: "r = Some m' \<Longrightarrow> dom m' = dom m \<Longrightarrow> (\<And>a k. a \<notin> S \<Longrightarrow> m' (a, k) = m (a, k)) \<Longrightarrow> P m' \<Longrightarrow> acts r m S P"
  by (auto simp: acts_def same_at_def)

lemma has_dom: "dom m' = dom m \<Longrightarrow> has m' n a = has m n a"
  by (auto simp: has_def domIff set_eq_iff)

lemma has_same: "same_at m m' a \<Longrightarrow> has m' n a = has m n a"
  by (simp add: has_def same_at_def)

lemma has_less: "has m n a \<Longrightarrow> k < n \<Longrightarrow> m (a, k) \<noteq> None"
  by (simp add: has_def)

lemma has_1: "has m (Suc 0) a \<Longrightarrow> m (a, 0) \<noteq> None"
  by (simp add: has_def)

lemma has_2: "has m 2 a \<Longrightarrow> m (a, 0) \<noteq> None" "has m 2 a \<Longrightarrow> m (a, Suc 0) \<noteq> None"
  by (simp_all add: has_def)

lemma dom_update: "m l \<noteq> None \<Longrightarrow> dom (m(l \<mapsto> v)) = dom m"
  by auto

lemma fits_simps [simp]:
  "fits Q m h [] \<longleftrightarrow> has m (head_size Q) h"
  "fits Q m h (x # xs) \<longleftrightarrow> has m (entry_size Q) x \<and> fits Q m h xs"
  "fits Q m h (xs @ ys) \<longleftrightarrow> fits Q m h xs \<and> fits Q m h ys"
  by (auto simp: fits_def)

lemma fchain_frame:
  assumes "fchain m h xs" and "\<And>a. a \<in> set (h # xs) \<Longrightarrow> same_at m m' a"
  shows "fchain m' h xs"
  using assms by (auto simp: fchain_def same_at_def intro: seg_frame)

text \<open>The storage of heads and entries, and several queues in it.\<close>

definition storage :: "queue_ops \<Rightarrow> nat set \<Rightarrow> nat list \<Rightarrow> qmem \<Rightarrow> bool" where
  "storage Q E hs m \<longleftrightarrow>
     (\<forall>h \<in> set hs. has m (head_size Q) h) \<and> (\<forall>x \<in> E. has m (entry_size Q) x) \<and> E \<inter> set hs = {}"

definition queues ::
    "(qmem \<Rightarrow> nat \<Rightarrow> nat list \<Rightarrow> bool) \<Rightarrow> queue_ops \<Rightarrow> nat set \<Rightarrow> nat list \<Rightarrow> qmem \<Rightarrow> (nat \<Rightarrow> nat list) \<Rightarrow> bool" where
  "queues repr Q E hs m A \<longleftrightarrow>
     storage Q E hs m \<and> (\<forall>h \<in> set hs. repr m h (A h) \<and> set (A h) \<subseteq> E) \<and>
     (\<forall>h \<in> set hs. \<forall>g \<in> set hs. h \<noteq> g \<longrightarrow> set (A h) \<inter> set (A g) = {})"

text \<open>Two bodies of loops: note the entry; remove it from its queue and free it.\<close>

definition collect :: loop_body where
  "collect x = (\<lambda>(xs, m). Some (xs @ [x], m))"

definition discard :: "queue_ops \<Rightarrow> nat \<Rightarrow> loop_body" where
  "discard Q h x = (\<lambda>(xs, m). do { m \<leftarrow> q_remove Q h x m; m \<leftarrow> free_obj x m; Some (xs @ [x], m) })"

lemma fold_collect: "fold (\<lambda>x xs. xs @ [x]) ys xs = xs @ ys"
  by (induction ys arbitrary: xs) auto

subsection \<open>The contract\<close>

locale linked_queue =
  fixes Q :: queue_ops and repr :: "qmem \<Rightarrow> nat \<Rightarrow> nat list \<Rightarrow> bool"
  assumes entry_pos: "0 < entry_size Q"
    and repr_seg: "repr m h xs \<Longrightarrow> seg m h xs Null \<and> distinct (h # xs)"
    and repr_frame: "repr m h xs \<Longrightarrow> (\<And>a. a \<in> set (h # xs) \<Longrightarrow> same_at m m' a) \<Longrightarrow> repr m' h xs"
    and init_law: "has m (head_size Q) h \<Longrightarrow> acts (q_init Q h m) m {h} (\<lambda>m'. repr m' h [])"
    and head_law: "repr m h xs \<Longrightarrow> fits Q m h (x # xs) \<Longrightarrow> x \<notin> set (h # xs) \<Longrightarrow>
      acts (q_insert_head Q h x m) m (set (h # x # xs)) (\<lambda>m'. repr m' h (x # xs))"
    and after_law: "repr m h (as @ x # bs) \<Longrightarrow> fits Q m h (y # as @ x # bs) \<Longrightarrow> y \<notin> set (h # as @ x # bs) \<Longrightarrow>
      acts (q_insert_after Q h x y m) m (set (h # y # as @ x # bs)) (\<lambda>m'. repr m' h (as @ x # y # bs))"
    and before_law: "q_insert_before Q = Some f \<Longrightarrow> repr m h (as @ x # bs) \<Longrightarrow> fits Q m h (y # as @ x # bs) \<Longrightarrow>
      y \<notin> set (h # as @ x # bs) \<Longrightarrow>
      acts (f x y m) m (set (h # y # as @ x # bs)) (\<lambda>m'. repr m' h (as @ y # x # bs))"
    and tail_law: "q_insert_tail Q = Some g \<Longrightarrow> repr m h xs \<Longrightarrow> fits Q m h (x # xs) \<Longrightarrow> x \<notin> set (h # xs) \<Longrightarrow>
      acts (g h x m) m (set (h # x # xs)) (\<lambda>m'. repr m' h (xs @ [x]))"
    and remove_law: "repr m h (as @ x # bs) \<Longrightarrow> fits Q m h (as @ x # bs) \<Longrightarrow>
      acts (q_remove Q h x m) m (set (h # as @ x # bs)) (\<lambda>m'. repr m' h (as @ bs))"
    and concat_law: "repr m h1 xs \<Longrightarrow> repr m h2 ys \<Longrightarrow> fits Q m h1 xs \<Longrightarrow> fits Q m h2 ys \<Longrightarrow>
      set (h1 # xs) \<inter> set (h2 # ys) = {} \<Longrightarrow>
      acts (q_concat Q h1 h2 m) m (set (h1 # xs) \<union> set (h2 # ys)) (\<lambda>m'. repr m' h1 (xs @ ys) \<and> repr m' h2 [])"
    and swap_law: "repr m h1 xs \<Longrightarrow> repr m h2 ys \<Longrightarrow> fits Q m h1 xs \<Longrightarrow> fits Q m h2 ys \<Longrightarrow>
      set (h1 # xs) \<inter> set (h2 # ys) = {} \<Longrightarrow>
      acts (q_swap Q h1 h2 m) m (set (h1 # xs) \<union> set (h2 # ys)) (\<lambda>m'. repr m' h1 ys \<and> repr m' h2 xs)"
    and foreach_law: "q_foreach Q body h st = do { v \<leftarrow> rd (h, 0) (snd st); foreach (\<lambda>e. rd (e, 0)) body v st }"
    and foreach_safe_law: "q_foreach_safe Q body h st = do { v \<leftarrow> rd (h, 0) (snd st); foreach_safe (\<lambda>e. rd (e, 0)) body v st }"
    and foreach_from_law: "q_foreach_from Q body (Obj x) h st = foreach (\<lambda>e. rd (e, 0)) body (Obj x) st"
    and foreach_from_safe_law: "q_foreach_from_safe Q body (Obj x) h st = foreach_safe (\<lambda>e. rd (e, 0)) body (Obj x) st"
    and foreach_from_null: "q_foreach_from Q body Null = q_foreach Q body" "q_foreach_from_safe Q body Null = q_foreach_safe Q body"
begin

lemma queues_repr: "queues repr Q E hs m A \<Longrightarrow> h \<in> set hs \<Longrightarrow> repr m h (A h) \<and> fits Q m h (A h)"
  unfolding queues_def storage_def fits_def by blast

text \<open>An operation that touches the heads \<open>T\<close>, their entries and unused entries.\<close>

lemma touched:
  assumes "queues repr Q E hs m A" and "acts r m S (\<lambda>m'. \<forall>h \<in> T. repr m' h (A' h))"
    and "\<And>h. h \<in> set hs \<Longrightarrow> h \<notin> T \<Longrightarrow> A' h = A h \<and> S \<inter> set (h # A h) = {}"
    and "\<And>h. h \<in> set hs \<Longrightarrow> set (A' h) \<subseteq> E"
    and "\<And>h g. h \<in> set hs \<Longrightarrow> g \<in> set hs \<Longrightarrow> h \<noteq> g \<Longrightarrow> set (A' h) \<inter> set (A' g) = {}"
  shows "\<exists>m'. r = Some m' \<and> queues repr Q E hs m' A'"
proof -
  obtain m' where m': "r = Some m'" "dom m' = dom m" "\<And>a. a \<notin> S \<Longrightarrow> same_at m m' a" "\<forall>h \<in> T. repr m' h (A' h)"
    using assms(2) by (auto simp: acts_def)
  have "repr m' h (A' h)" if "h \<in> set hs" for h
  proof (cases "h \<in> T")
    case False
    then have "A' h = A h" "\<And>a. a \<in> set (h # A h) \<Longrightarrow> a \<notin> S" using assms(3) [OF that] by auto
    then show ?thesis using repr_frame [of m h "A h" m'] queues_repr [OF assms(1) that] m'(3) by metis
  qed (use m'(4) in simp)
  moreover have "storage Q E hs m'"
    using assms(1) by (auto simp: queues_def storage_def has_dom [OF m'(2)])
  ultimately show ?thesis using m'(1) assms(4,5) by (auto simp: queues_def)
qed

lemma queue_op_ok:
  assumes "queues repr Q E hs m A" and "permitted Q E hs A p"
  shows "\<exists>m'. queue_op Q p m = Some m' \<and> queues repr Q E hs m' (list_op p A)"
proof -
  have disj: "\<And>h g. h \<in> set hs \<Longrightarrow> g \<in> set hs \<Longrightarrow> h \<noteq> g \<Longrightarrow> set (A h) \<inter> set (A g) = {}"
    and sub: "\<And>h. h \<in> set hs \<Longrightarrow> set (A h) \<subseteq> E" and EH: "E \<inter> set hs = {}" and ent: "\<And>x. x \<in> E \<Longrightarrow> has m (entry_size Q) x"
    and hd: "\<And>h. h \<in> set hs \<Longrightarrow> has m (head_size Q) h"
    using assms(1) by (auto simp: queues_def storage_def)
  have nh: "\<And>h g. h \<in> set hs \<Longrightarrow> g \<in> set hs \<Longrightarrow> g \<notin> set (A h)" using sub EH by blast
  have fr: "\<And>x h. unused E hs A x \<Longrightarrow> h \<in> set hs \<Longrightarrow> x \<notin> set (h # A h)" "\<And>x. unused E hs A x \<Longrightarrow> x \<in> E"
    using EH by (auto simp: unused_def list_all_iff)
  note R = queues_repr [OF assms(1)]
  show ?thesis
  proof (cases p)
    case (Q_Init h)
    then have h: "h \<in> set hs" using assms(2) by simp
    have a: "acts (queue_op Q p m) m {h} (\<lambda>m'. \<forall>k \<in> {h}. repr m' k (list_op p A k))"
      using init_law [OF hd [OF h]] Q_Init by simp
    show ?thesis
      using Q_Init h disj sub nh by (intro touched [OF assms(1) a]) auto
  next
    case (Q_Head h x)
    then have h: "h \<in> set hs" and x: "unused E hs A x" using assms(2) by auto
    have a: "acts (queue_op Q p m) m (set (h # x # A h)) (\<lambda>m'. \<forall>k \<in> {h}. repr m' k (list_op p A k))"
      using head_law [of m h "A h" x] R [OF h] fr(1) [OF x h] ent [OF fr(2) [OF x]] Q_Head by simp
    show ?thesis
      using Q_Head h disj sub nh fr [OF x] by (intro touched [OF assms(1) a]) ((auto; blast)+)
  next
    case (Q_After h x y)
    then have h: "h \<in> set hs" and y: "unused E hs A y" and x: "x \<in> set (A h)" using assms(2) by auto
    obtain as bs where ab: "A h = as @ x # bs" "x \<notin> set as" using split_list_first [OF x] by blast
    have a: "acts (queue_op Q p m) m (set (h # y # A h)) (\<lambda>m'. \<forall>k \<in> {h}. repr m' k (list_op p A k))"
      using after_law [of m h as x bs y] R [OF h] fr(1) [OF y h] ent [OF fr(2) [OF y]] Q_After ab
      by (simp add: insert_after_split)
    show ?thesis
      using Q_After h disj sub nh fr [OF y] by (intro touched [OF assms(1) a]) ((auto simp: set_insert_after [OF x]; blast)+)
  next
    case (Q_Before h x y)
    then obtain f where h: "h \<in> set hs" and y: "unused E hs A y" and x: "x \<in> set (A h)" and f: "q_insert_before Q = Some f"
      using assms(2) by auto
    obtain as bs where ab: "A h = as @ x # bs" "x \<notin> set as" using split_list_first [OF x] by blast
    have a: "acts (queue_op Q p m) m (set (h # y # A h)) (\<lambda>m'. \<forall>k \<in> {h}. repr m' k (list_op p A k))"
      using before_law [OF f, of m h as x bs y] R [OF h] fr(1) [OF y h] ent [OF fr(2) [OF y]] Q_Before ab f
      by (simp add: insert_before_split)
    show ?thesis
      using Q_Before h disj sub nh fr [OF y] by (intro touched [OF assms(1) a]) ((auto simp: set_insert_before [OF x]; blast)+)
  next
    case (Q_Tail h x)
    then obtain f where h: "h \<in> set hs" and x: "unused E hs A x" and f: "q_insert_tail Q = Some f" using assms(2) by auto
    have a: "acts (queue_op Q p m) m (set (h # x # A h)) (\<lambda>m'. \<forall>k \<in> {h}. repr m' k (list_op p A k))"
      using tail_law [OF f, of m h "A h" x] R [OF h] fr(1) [OF x h] ent [OF fr(2) [OF x]] Q_Tail f by simp
    show ?thesis
      using Q_Tail h disj sub nh fr [OF x] by (intro touched [OF assms(1) a]) ((auto; blast)+)
  next
    case (Q_Remove h x)
    then have h: "h \<in> set hs" and x: "x \<in> set (A h)" using assms(2) by auto
    obtain as bs where ab: "A h = as @ x # bs" "x \<notin> set as" using split_list_first [OF x] by blast
    have a: "acts (queue_op Q p m) m (set (h # A h)) (\<lambda>m'. \<forall>k \<in> {h}. repr m' k (list_op p A k))"
      using remove_law [of m h as x bs] R [OF h] Q_Remove ab by (simp add: remove1_split)
    have rm: "set (remove1 x (A h)) \<subseteq> set (A h)" by (rule set_remove1_subset)
    show ?thesis
      using Q_Remove h disj sub nh rm by (intro touched [OF assms(1) a]) ((simp; blast)+)
  next
    case (Q_Concat h g)
    then have h: "h \<in> set hs" "g \<in> set hs" "h \<noteq> g" using assms(2) by auto
    have "set (h # A h) \<inter> set (g # A g) = {}" using disj [OF h] h nh by auto
    then have a: "acts (queue_op Q p m) m (set (h # A h) \<union> set (g # A g)) (\<lambda>m'. \<forall>k \<in> {h, g}. repr m' k (list_op p A k))"
      using concat_law [of m h "A h" g "A g"] R [OF h(1)] R [OF h(2)] h(3) Q_Concat by simp
    show ?thesis
      using Q_Concat h disj sub nh by (intro touched [OF assms(1) a]) ((auto; blast)+)
  next
    case (Q_Swap h g)
    then have h: "h \<in> set hs" "g \<in> set hs" "h \<noteq> g" using assms(2) by auto
    have "set (h # A h) \<inter> set (g # A g) = {}" using disj [OF h] h nh by auto
    then have a: "acts (queue_op Q p m) m (set (h # A h) \<union> set (g # A g)) (\<lambda>m'. \<forall>k \<in> {h, g}. repr m' k (list_op p A k))"
      using swap_law [of m h "A h" g "A g"] R [OF h(1)] R [OF h(2)] h(3) Q_Swap by simp
    show ?thesis
      using Q_Swap h disj sub nh by (intro touched [OF assms(1) a]) ((auto; blast)+)
  qed
qed

lemma queue_run_ok:
  "queues repr Q E hs m A \<Longrightarrow> permitted_run Q E hs A ps \<Longrightarrow>
   \<exists>m'. queue_run Q ps m = Some m' \<and> queues repr Q E hs m' (list_run ps A)"
proof (induction ps arbitrary: m A)
  case (Cons p ps)
  obtain m1 where "queue_op Q p m = Some m1" "queues repr Q E hs m1 (list_op p A)"
    using queue_op_ok [OF Cons.prems(1)] Cons.prems(2) by auto
  then show ?case using Cons.IH [of m1 "list_op p A"] Cons.prems(2) by (auto simp: list_run_def)
qed (simp add: list_run_def)

text \<open>From uninitialised memory: initialise all heads first.\<close>

lemma init_all:
  "storage Q E hs m \<Longrightarrow> set gs \<subseteq> set hs \<Longrightarrow> \<forall>h \<in> D. repr m h [] \<Longrightarrow> D \<subseteq> set hs \<Longrightarrow>
   \<exists>m'. queue_run Q (map Q_Init gs) m = Some m' \<and> storage Q E hs m' \<and> (\<forall>h \<in> D \<union> set gs. repr m' h [])"
proof (induction gs arbitrary: m D)
  case (Cons g gs)
  then have "has m (head_size Q) g" by (simp add: storage_def)
  then obtain m1 where m1: "q_init Q g m = Some m1" "dom m1 = dom m" "\<And>a. a \<noteq> g \<Longrightarrow> same_at m m1 a" "repr m1 g []"
    using init_law [of m g] by (auto simp: acts_def)
  have "storage Q E hs m1" using Cons.prems(1) by (simp add: storage_def has_dom [OF m1(2)])
  moreover have "\<forall>h \<in> insert g D. repr m1 h []"
    using m1(3,4) Cons.prems(3) repr_frame [of m _ "[]" m1] by (metis empty_iff insertE list.set set_ConsD)
  ultimately show ?case
    using Cons.IH [of m1 "insert g D"] Cons.prems(2,4) m1(1) by (auto simp: list_run_def)
qed auto

lemma queue_session:
  assumes "storage Q E hs m" and "permitted_run Q E hs (\<lambda>h. []) ps"
  shows "\<exists>m'. queue_run Q (map Q_Init hs @ ps) m = Some m' \<and> queues repr Q E hs m' (list_run ps (\<lambda>h. []))"
proof -
  obtain m1 where m1: "queue_run Q (map Q_Init hs) m = Some m1" "storage Q E hs m1" "\<forall>h \<in> set hs. repr m1 h []"
    using init_all [OF assms(1), of hs "{}"] by auto
  then have "queues repr Q E hs m1 (\<lambda>h. [])" by (simp add: queues_def)
  from queue_run_ok [OF this assms(2)] show ?thesis using m1(1) by auto
qed

text \<open>The loops visit the entries in order, from the first or from a given one.\<close>

lemma foreach_visits:
  assumes "repr m h xs" and "\<And>x s. body x (s, m) = Some (f x s, m)"
  shows "q_foreach Q body h (s, m) = Some (fold f xs s, m)" and "q_foreach_safe Q body h (s, m) = Some (fold f xs s, m)"
proof -
  obtain v where "rd (h, 0) m = Some v" "walks (\<lambda>e. rd (e, 0)) m v xs"
    using seg_walks [of m h xs] repr_seg [OF assms(1)] by blast
  then show "q_foreach Q body h (s, m) = Some (fold f xs s, m)" "q_foreach_safe Q body h (s, m) = Some (fold f xs s, m)"
    using foreach_walks [where body = body and f = f and m = m, OF _ assms(2)] by (simp_all add: foreach_law foreach_safe_law)
qed

lemma foreach_from_visits:
  assumes "repr m h (as @ x # bs)" and "\<And>x s. body x (s, m) = Some (f x s, m)"
  shows "q_foreach_from Q body (Obj x) h (s, m) = Some (fold f (x # bs) s, m)"
    and "q_foreach_from_safe Q body (Obj x) h (s, m) = Some (fold f (x # bs) s, m)"
proof -
  have "seg m x bs Null" using repr_seg [OF assms(1)] by (simp add: seg_append_Cons)
  then have "walks (\<lambda>e. rd (e, 0)) m (Obj x) (x # bs)" using seg_walks [of m x bs] by auto
  from foreach_walks [where body = body and f = f and m = m, OF this assms(2)]
  show "q_foreach_from Q body (Obj x) h (s, m) = Some (fold f (x # bs) s, m)"
    "q_foreach_from_safe Q body (Obj x) h (s, m) = Some (fold f (x # bs) s, m)"
    by (simp_all add: foreach_from_law foreach_from_safe_law del: fold.simps foreach_simps foreach_safe_simps)
qed

text \<open>Removing and freeing every entry in the body of a loop.\<close>

lemma discard_first:
  assumes "queues repr Q E hs m A" and "h \<in> set hs" and "A h = x # xs"
  shows "\<exists>m'. discard Q h x (s, m) = Some (s @ [x], m') \<and> queues repr Q (E - {x}) hs m' (A(h := xs)) \<and>
    (\<forall>k. m' (x, k) = None) \<and> (\<forall>l. m l = None \<longrightarrow> m' l = None)"
proof -
  have EH: "E \<inter> set hs = {}" "set (A h) \<subseteq> E" using assms(1,2) by (auto simp: queues_def storage_def)
  have x: "x \<in> E" "x \<notin> set xs" "x \<notin> set hs"
    using EH assms(3) queues_repr [OF assms(1,2)] repr_seg [of m h "A h"] by auto
  have "permitted Q E hs A (Q_Remove h x)" using assms(2,3) by simp
  from queue_op_ok [OF assms(1) this] obtain m1 where m1: "q_remove Q h x m = Some m1" "queues repr Q E hs m1 (A(h := xs))"
    using assms(3) by auto
  have "acts (q_remove Q h x m) m (set (h # x # xs)) (\<lambda>m'. repr m' h xs)"
    using remove_law [of m h "[]" x xs] queues_repr [OF assms(1,2)] assms(3) by simp
  then have d: "dom m1 = dom m" using m1(1) by (auto simp: acts_def)
  have "m1 (x, 0) \<noteq> None" using m1(2) x(1) entry_pos by (auto simp: queues_def storage_def has_def)
  then have f: "free_obj x m1 = Some (m1 |` {l. fst l \<noteq> x})" (is "_ = Some ?m") by (simp add: free_obj_def)
  have same: "a \<noteq> x \<Longrightarrow> same_at m1 ?m a" for a by (simp add: same_at_def)
  have st: "storage Q (E - {x}) hs ?m"
  proof -
    have m1s: "\<forall>k \<in> set hs. has m1 (head_size Q) k" "\<forall>a \<in> E. has m1 (entry_size Q) a" "E \<inter> set hs = {}"
      using m1(2) by (simp_all add: queues_def storage_def)
    have "has ?m (head_size Q) k" if "k \<in> set hs" for k using has_same [OF same] m1s(1) that x(3) by metis
    moreover have "has ?m (entry_size Q) a" if "a \<in> E - {x}" for a using has_same [OF same] m1s(2) that by blast
    ultimately show ?thesis using m1s(3) unfolding storage_def by auto
  qed
  have "repr ?m k ((A(h := xs)) k) \<and> set ((A(h := xs)) k) \<subseteq> E - {x}" if "k \<in> set hs" for k
  proof -
    have B: "repr m1 k ((A(h := xs)) k)" "set ((A(h := xs)) k) \<subseteq> E" using m1(2) that by (auto simp: queues_def)
    have n: "x \<notin> set (k # (A(h := xs)) k)"
    proof (cases "k = h")
      case False
      then have "set (A h) \<inter> set (A k) = {}" using assms(1,2) that by (auto simp: queues_def)
      then show ?thesis using assms(3) False x(3) that by auto
    qed (use x assms(2) in auto)
    have "repr ?m k ((A(h := xs)) k)" by (rule repr_frame [OF B(1)], rule same) (use n in blast)
    then show ?thesis using B(2) n by (simp add: subset_Diff_insert)
  qed
  then have "queues repr Q (E - {x}) hs ?m (A(h := xs))" using m1(2) st unfolding queues_def by blast
  moreover have "m l = None \<Longrightarrow> ?m l = None" for l using d by (metis domIff restrict_map_def)
  ultimately show ?thesis using m1(1) f by (auto simp: discard_def)
qed

lemma teardown_loop:
  "queues repr Q E hs m A \<Longrightarrow> h \<in> set hs \<Longrightarrow> A h = xs \<Longrightarrow>
   \<exists>m'. foreach_safe (\<lambda>e. rd (e, 0)) (discard Q h) (if xs = [] then Null else Obj (hd xs)) (s, m) = Some (s @ xs, m') \<and>
     queues repr Q (E - set xs) hs m' (A(h := [])) \<and> (\<forall>x \<in> set xs. \<forall>k. m' (x, k) = None) \<and> (\<forall>l. m l = None \<longrightarrow> m' l = None)"
proof (induction xs arbitrary: E m A s)
  case Nil
  then show ?case by (intro exI [of _ m]) (simp add: fun_upd_idem)
next
  case (Cons x xs)
  obtain m1 where m1: "discard Q h x (s, m) = Some (s @ [x], m1)" "queues repr Q (E - {x}) hs m1 (A(h := xs))"
    "\<forall>k. m1 (x, k) = None" "\<forall>l. m l = None \<longrightarrow> m1 l = None"
    using discard_first [OF Cons.prems, of s] by (elim exE conjE) (rule that, assumption+)
  have "repr m h (x # xs)" using queues_repr [OF Cons.prems(1,2)] Cons.prems(3) by simp
  from repr_seg [OF this] have "seg m x xs Null" by simp
  then have "m (x, 0) = Some (if xs = [] then Null else Obj (hd xs))" by (rule seg_first)
  then have r: "rd (x, 0) m = Some (if xs = [] then Null else Obj (hd xs))" by simp
  obtain m2 where m2:
      "foreach_safe (\<lambda>e. rd (e, 0)) (discard Q h) (if xs = [] then Null else Obj (hd xs)) (s @ [x], m1) = Some ((s @ [x]) @ xs, m2)"
      "queues repr Q (E - {x} - set xs) hs m2 ((A(h := xs))(h := []))"
      "\<forall>x \<in> set xs. \<forall>k. m2 (x, k) = None" "\<forall>l. m1 l = None \<longrightarrow> m2 l = None"
    using Cons.IH [OF m1(2) Cons.prems(2) fun_upd_same, of "s @ [x]"] by (elim exE conjE) (rule that, assumption+)
  have "foreach_safe (\<lambda>e. rd (e, 0)) (discard Q h) (Obj x) (s, m) = Some (s @ x # xs, m2)"
    using r m1(1) m2(1) by simp
  moreover have "queues repr Q (E - set (x # xs)) hs m2 (A(h := []))"
  proof -
    have "E - set (x # xs) = E - {x} - set xs" by auto
    then show ?thesis using m2(2) by (simp only: fun_upd_upd)
  qed
  moreover have "\<forall>y \<in> set (x # xs). \<forall>k. m2 (y, k) = None"
    using m1(3) m2(3,4) by simp
  moreover have "\<forall>l. m l = None \<longrightarrow> m2 l = None" using m1(4) m2(4) by blast
  ultimately show ?case by (intro exI [of _ m2] conjI) (simp only: list.sel list.distinct if_False; assumption)+
qed

lemma teardown:
  assumes "queues repr Q E hs m A" and "h \<in> set hs"
  shows "\<exists>m'. q_foreach_safe Q (discard Q h) h ([], m) = Some (A h, m') \<and>
      queues repr Q (E - set (A h)) hs m' (A(h := [])) \<and> (\<forall>x \<in> set (A h). \<forall>k. m' (x, k) = None)"
    and "A h \<noteq> [] \<Longrightarrow> q_foreach Q (discard Q h) h ([], m) = None"
proof -
  have "seg m h (A h) Null" using queues_repr [OF assms] repr_seg by auto
  then have "m (h, 0) = Some (if A h = [] then Null else Obj (hd (A h)))" by (rule seg_first)
  then have f: "rd (h, 0) m = Some (if A h = [] then Null else Obj (hd (A h)))" by simp
  then show "\<exists>m'. q_foreach_safe Q (discard Q h) h ([], m) = Some (A h, m') \<and>
      queues repr Q (E - set (A h)) hs m' (A(h := [])) \<and> (\<forall>x \<in> set (A h). \<forall>k. m' (x, k) = None)"
    using teardown_loop [OF assms refl, of "[]"] by (auto simp: foreach_safe_law)
  assume "A h \<noteq> []"
  then obtain x xs where x: "A h = x # xs" by (cases "A h") auto
  from discard_first [OF assms x, of "[]"] obtain m1 where "discard Q h x ([], m) = Some ([x], m1)" "m1 (x, 0) = None" by auto
  then show "q_foreach Q (discard Q h) h ([], m) = None" using f x by (simp add: foreach_law rd_def)
qed

text \<open>What a program that uses the macros can see.\<close>

lemma queues_visible:
  assumes "queues repr Q E hs m A" and "h \<in> set hs"
  shows "distinct (A h) \<and> set (A h) \<subseteq> E \<and> rd (h, 0) m = Some (if A h = [] then Null else Obj (hd (A h))) \<and>
    q_foreach Q collect h ([], m) = Some (A h, m) \<and>
    (\<forall>as x bs. A h = as @ x # bs \<longrightarrow> q_foreach_from Q collect (Obj x) h ([], m) = Some (x # bs, m))"
proof -
  have r: "repr m h (A h)" and E: "set (A h) \<subseteq> E" using assms by (auto simp: queues_def)
  have c: "\<And>x s. collect x (s, m) = Some (s @ [x], m)" by (simp add: collect_def)
  have "m (h, 0) = Some (if A h = [] then Null else Obj (hd (A h)))"
    by (rule seg_first) (use repr_seg [OF r] in simp)
  then have "rd (h, 0) m = Some (if A h = [] then Null else Obj (hd (A h)))" by simp
  moreover have "q_foreach Q collect h ([], m) = Some (A h, m)"
    using foreach_visits(1) [where body = collect and f = "\<lambda>x s. s @ [x]" and m = m, OF r c, of "[]"] by (simp add: fold_collect)
  moreover have "q_foreach_from Q collect (Obj x) h ([], m) = Some (x # bs, m)" if "A h = as @ x # bs" for as x bs
    using foreach_from_visits(1) [where body = collect and f = "\<lambda>x s. s @ [x]" and m = m, OF r [unfolded that] c, of "[]"] by (simp add: fold_collect)
  ultimately show ?thesis using E repr_seg [OF r] by (intro conjI allI impI) auto
qed

lemma session_visible:
  assumes "storage Q E hs m" and "permitted_run Q E hs (\<lambda>h. []) ps"
  shows "\<exists>m'. queue_run Q (map Q_Init hs @ ps) m = Some m' \<and>
    (\<forall>h \<in> set hs. let xs = list_run ps (\<lambda>h. []) h in
       distinct xs \<and> set xs \<subseteq> E \<and> rd (h, 0) m' = Some (if xs = [] then Null else Obj (hd xs)) \<and>
       q_foreach Q collect h ([], m') = Some (xs, m') \<and>
       (\<forall>as x bs. xs = as @ x # bs \<longrightarrow> q_foreach_from Q collect (Obj x) h ([], m') = Some (x # bs, m')))"
  using queue_session [OF assms] queues_visible unfolding Let_def by blast

lemma session_teardown:
  assumes "storage Q E hs m" and "permitted_run Q E hs (\<lambda>h. []) ps" and "h \<in> set hs"
  shows "\<exists>m1 m2. queue_run Q (map Q_Init hs @ ps) m = Some m1 \<and>
    q_foreach_safe Q (discard Q h) h ([], m1) = Some (list_run ps (\<lambda>h. []) h, m2) \<and>
    (\<forall>x \<in> set (list_run ps (\<lambda>h. []) h). \<forall>k. m2 (x, k) = None) \<and>
    (\<forall>g \<in> set hs. q_foreach Q collect g ([], m2) = Some (if g = h then [] else list_run ps (\<lambda>h. []) g, m2)) \<and>
    (list_run ps (\<lambda>h. []) h \<noteq> [] \<longrightarrow> q_foreach Q (discard Q h) h ([], m1) = None)"
proof -
  let ?A = "list_run ps (\<lambda>h. [])"
  obtain m1 where m1: "queue_run Q (map Q_Init hs @ ps) m = Some m1" "queues repr Q E hs m1 ?A"
    using queue_session [OF assms(1,2)] by blast
  obtain m2 where m2: "q_foreach_safe Q (discard Q h) h ([], m1) = Some (?A h, m2)"
      "queues repr Q (E - set (?A h)) hs m2 (?A(h := []))" "\<forall>x \<in> set (?A h). \<forall>k. m2 (x, k) = None"
    using teardown(1) [OF m1(2) assms(3)] by blast
  have "q_foreach Q collect g ([], m2) = Some (if g = h then [] else ?A g, m2)" if "g \<in> set hs" for g
    using queues_visible [OF m2(2) that] by auto
  then show ?thesis using m1(1) m2(1,3) teardown(2) [OF m1(2) assms(3)] by blast
qed

end

end
