(* ===== verification/Queue_Single.thy ===== *)
theory Queue_Single
  imports Queue_Interface
begin

text \<open>
  The singly linked structures of \<open>queue.h\<close>: lists (\<open>SLIST\<close>) and tail queues (\<open>STAILQ\<close>). Every macro is a
  function on the memory with the name of the macro; head and entry arguments are objects.
\<close>

subsection \<open>Singly-linked lists\<close>

abbreviation (input) slh_first :: "nat \<Rightarrow> loc" where "slh_first h \<equiv> (h, 0)"
abbreviation (input) sle_next :: "nat \<Rightarrow> loc" where "sle_next e \<equiv> (e, 0)"

definition SLIST_FIRST :: "nat \<Rightarrow> qmem \<Rightarrow> val option" where
  "SLIST_FIRST head m = rd (slh_first head) m"

definition SLIST_NEXT :: "nat \<Rightarrow> qmem \<Rightarrow> val option" where
  "SLIST_NEXT elm m = rd (sle_next elm) m"

definition SLIST_EMPTY :: "nat \<Rightarrow> qmem \<Rightarrow> bool option" where
  "SLIST_EMPTY head m = do { f \<leftarrow> rd (slh_first head) m; Some (f = Null) }"

definition SLIST_INIT :: "nat \<Rightarrow> qmem \<Rightarrow> qmem option" where
  "SLIST_INIT head m = wr (slh_first head) Null m"

text \<open>The initialiser of a static head; the object gets no other value before.\<close>

definition SLIST_HEAD_INITIALIZER :: "nat \<Rightarrow> qmem \<Rightarrow> qmem" where
  "SLIST_HEAD_INITIALIZER head m = m(slh_first head \<mapsto> Null)"

definition SLIST_CONCAT :: "nat \<Rightarrow> nat \<Rightarrow> qmem \<Rightarrow> qmem option" where
  "SLIST_CONCAT head1 head2 m =
     do { curelm \<leftarrow> SLIST_FIRST head1 m;
          if curelm = Null then do {
            f2 \<leftarrow> SLIST_FIRST head2 m;
            m \<leftarrow> wr (slh_first head1) f2 m;
            if f2 \<noteq> Null then SLIST_INIT head2 m else Some m }
          else do {
            f2 \<leftarrow> SLIST_FIRST head2 m;
            if f2 \<noteq> Null then do {
              curelm \<leftarrow> end_of curelm m;
              f2 \<leftarrow> SLIST_FIRST head2 m;
              m \<leftarrow> set_mem curelm 0 f2 m;
              SLIST_INIT head2 m }
            else Some m } }"

definition SLIST_INSERT_AFTER :: "nat \<Rightarrow> nat \<Rightarrow> qmem \<Rightarrow> qmem option" where
  "SLIST_INSERT_AFTER slistelm elm m =
     do { n \<leftarrow> SLIST_NEXT slistelm m;
          m \<leftarrow> wr (sle_next elm) n m;
          wr (sle_next slistelm) (Obj elm) m }"

definition SLIST_INSERT_HEAD :: "nat \<Rightarrow> nat \<Rightarrow> qmem \<Rightarrow> qmem option" where
  "SLIST_INSERT_HEAD head elm m =
     do { f \<leftarrow> SLIST_FIRST head m;
          m \<leftarrow> wr (sle_next elm) f m;
          wr (slh_first head) (Obj elm) m }"

definition SLIST_REMOVE_AFTER :: "val \<Rightarrow> qmem \<Rightarrow> qmem option" where
  "SLIST_REMOVE_AFTER elm m =
     do { n \<leftarrow> get_mem elm 0 m;
          nn \<leftarrow> get_mem n 0 m;
          set_mem elm 0 nn m }"

definition SLIST_REMOVE_HEAD :: "nat \<Rightarrow> qmem \<Rightarrow> qmem option" where
  "SLIST_REMOVE_HEAD head m =
     do { f \<leftarrow> SLIST_FIRST head m;
          n \<leftarrow> get_mem f 0 m;
          wr (slh_first head) n m }"

definition SLIST_REMOVE :: "config \<Rightarrow> nat \<Rightarrow> nat \<Rightarrow> qmem \<Rightarrow> qmem option" where
  "SLIST_REMOVE K head elm m =
     do { f \<leftarrow> SLIST_FIRST head m;
          m \<leftarrow> (if f = Obj elm then SLIST_REMOVE_HEAD head m
                else do { curelm \<leftarrow> walk_to f elm m; SLIST_REMOVE_AFTER curelm m });
          TRASHIT K (sle_next elm) m }"

definition SLIST_SWAP :: "nat \<Rightarrow> nat \<Rightarrow> qmem \<Rightarrow> qmem option" where
  "SLIST_SWAP head1 head2 m =
     do { swap_first \<leftarrow> SLIST_FIRST head1 m;
          f2 \<leftarrow> SLIST_FIRST head2 m;
          m \<leftarrow> wr (slh_first head1) f2 m;
          wr (slh_first head2) swap_first m }"

subsection \<open>Singly-linked tail queues\<close>

abbreviation (input) stqh_first :: "nat \<Rightarrow> loc" where "stqh_first h \<equiv> (h, 0)"
abbreviation (input) stqh_last :: "nat \<Rightarrow> loc" where "stqh_last h \<equiv> (h, 1)"
abbreviation (input) stqe_next :: "nat \<Rightarrow> loc" where "stqe_next e \<equiv> (e, 0)"

definition STAILQ_FIRST :: "nat \<Rightarrow> qmem \<Rightarrow> val option" where
  "STAILQ_FIRST head m = rd (stqh_first head) m"

definition STAILQ_NEXT :: "nat \<Rightarrow> qmem \<Rightarrow> val option" where
  "STAILQ_NEXT elm m = rd (stqe_next elm) m"

definition STAILQ_EMPTY :: "nat \<Rightarrow> qmem \<Rightarrow> bool option" where
  "STAILQ_EMPTY head m = do { f \<leftarrow> rd (stqh_first head) m; Some (f = Null) }"

definition STAILQ_INIT :: "nat \<Rightarrow> qmem \<Rightarrow> qmem option" where
  "STAILQ_INIT head m =
     do { m \<leftarrow> wr (stqh_first head) Null m;
          wr (stqh_last head) (Addr (stqh_first head)) m }"

definition STAILQ_HEAD_INITIALIZER :: "nat \<Rightarrow> qmem \<Rightarrow> qmem" where
  "STAILQ_HEAD_INITIALIZER head m = m(stqh_first head \<mapsto> Null, stqh_last head \<mapsto> Addr (stqh_first head))"

definition STAILQ_CONCAT :: "nat \<Rightarrow> nat \<Rightarrow> qmem \<Rightarrow> qmem option" where
  "STAILQ_CONCAT head1 head2 m =
     do { emp \<leftarrow> STAILQ_EMPTY head2 m;
          if \<not> emp then do {
            l1 \<leftarrow> rd (stqh_last head1) m;
            f2 \<leftarrow> rd (stqh_first head2) m;
            m \<leftarrow> set_target l1 f2 m;
            l2 \<leftarrow> rd (stqh_last head2) m;
            m \<leftarrow> wr (stqh_last head1) l2 m;
            STAILQ_INIT head2 m }
          else Some m }"

definition STAILQ_INSERT_AFTER :: "nat \<Rightarrow> nat \<Rightarrow> nat \<Rightarrow> qmem \<Rightarrow> qmem option" where
  "STAILQ_INSERT_AFTER head tqelm elm m =
     do { n \<leftarrow> STAILQ_NEXT tqelm m;
          m \<leftarrow> wr (stqe_next elm) n m;
          m \<leftarrow> (if n = Null then wr (stqh_last head) (Addr (stqe_next elm)) m else Some m);
          wr (stqe_next tqelm) (Obj elm) m }"

definition STAILQ_INSERT_HEAD :: "nat \<Rightarrow> nat \<Rightarrow> qmem \<Rightarrow> qmem option" where
  "STAILQ_INSERT_HEAD head elm m =
     do { f \<leftarrow> STAILQ_FIRST head m;
          m \<leftarrow> wr (stqe_next elm) f m;
          m \<leftarrow> (if f = Null then wr (stqh_last head) (Addr (stqe_next elm)) m else Some m);
          wr (stqh_first head) (Obj elm) m }"

definition STAILQ_INSERT_TAIL :: "nat \<Rightarrow> nat \<Rightarrow> qmem \<Rightarrow> qmem option" where
  "STAILQ_INSERT_TAIL head elm m =
     do { m \<leftarrow> wr (stqe_next elm) Null m;
          l \<leftarrow> rd (stqh_last head) m;
          m \<leftarrow> set_target l (Obj elm) m;
          wr (stqh_last head) (Addr (stqe_next elm)) m }"

definition STAILQ_LAST :: "nat \<Rightarrow> qmem \<Rightarrow> val option" where
  "STAILQ_LAST head m =
     do { emp \<leftarrow> STAILQ_EMPTY head m;
          if emp then Some Null else do { l \<leftarrow> rd (stqh_last head) m; containerof l } }"

definition STAILQ_REMOVE_AFTER :: "nat \<Rightarrow> val \<Rightarrow> qmem \<Rightarrow> qmem option" where
  "STAILQ_REMOVE_AFTER head elm m =
     do { n \<leftarrow> get_mem elm 0 m;
          nn \<leftarrow> get_mem n 0 m;
          m \<leftarrow> set_mem elm 0 nn m;
          if nn = Null then do { l \<leftarrow> arrow elm 0; wr (stqh_last head) (Addr l) m } else Some m }"

definition STAILQ_REMOVE_HEAD :: "nat \<Rightarrow> qmem \<Rightarrow> qmem option" where
  "STAILQ_REMOVE_HEAD head m =
     do { f \<leftarrow> STAILQ_FIRST head m;
          n \<leftarrow> get_mem f 0 m;
          m \<leftarrow> wr (stqh_first head) n m;
          if n = Null then wr (stqh_last head) (Addr (stqh_first head)) m else Some m }"

definition STAILQ_REMOVE :: "config \<Rightarrow> nat \<Rightarrow> nat \<Rightarrow> qmem \<Rightarrow> qmem option" where
  "STAILQ_REMOVE K head elm m =
     do { f \<leftarrow> STAILQ_FIRST head m;
          m \<leftarrow> (if f = Obj elm then STAILQ_REMOVE_HEAD head m
                else do { curelm \<leftarrow> walk_to f elm m; STAILQ_REMOVE_AFTER head curelm m });
          TRASHIT K (stqe_next elm) m }"

definition STAILQ_SWAP :: "nat \<Rightarrow> nat \<Rightarrow> qmem \<Rightarrow> qmem option" where
  "STAILQ_SWAP head1 head2 m =
     do { swap_first \<leftarrow> STAILQ_FIRST head1 m;
          swap_last \<leftarrow> rd (stqh_last head1) m;
          f2 \<leftarrow> STAILQ_FIRST head2 m;
          m \<leftarrow> wr (stqh_first head1) f2 m;
          l2 \<leftarrow> rd (stqh_last head2) m;
          m \<leftarrow> wr (stqh_last head1) l2 m;
          m \<leftarrow> wr (stqh_first head2) swap_first m;
          m \<leftarrow> wr (stqh_last head2) swap_last m;
          emp1 \<leftarrow> STAILQ_EMPTY head1 m;
          m \<leftarrow> (if emp1 then wr (stqh_last head1) (Addr (stqh_first head1)) m else Some m);
          emp2 \<leftarrow> STAILQ_EMPTY head2 m;
          if emp2 then wr (stqh_last head2) (Addr (stqh_first head2)) m else Some m }"

subsection \<open>Iteration\<close>

definition SLIST_FOREACH where
  "SLIST_FOREACH body head st = do { v \<leftarrow> SLIST_FIRST head (snd st); foreach SLIST_NEXT body v st }"

definition SLIST_FOREACH_FROM where
  "SLIST_FOREACH_FROM body var head st =
     do { v \<leftarrow> (if var \<noteq> Null then Some var else SLIST_FIRST head (snd st)); foreach SLIST_NEXT body v st }"

definition SLIST_FOREACH_SAFE where
  "SLIST_FOREACH_SAFE body head st = do { v \<leftarrow> SLIST_FIRST head (snd st); foreach_safe SLIST_NEXT body v st }"

definition SLIST_FOREACH_FROM_SAFE where
  "SLIST_FOREACH_FROM_SAFE body var head st =
     do { v \<leftarrow> (if var \<noteq> Null then Some var else SLIST_FIRST head (snd st)); foreach_safe SLIST_NEXT body v st }"

text \<open>The loop that keeps the address of the pointer to the current entry.\<close>

partial_function (option) prevptr_loop ::
    "(nat \<Rightarrow> loc \<Rightarrow> 's \<times> qmem \<Rightarrow> ('s \<times> qmem) option) \<Rightarrow> loc \<Rightarrow> 's \<times> qmem \<Rightarrow> ('s \<times> qmem) option" where
  "prevptr_loop body varp st =
     do { var \<leftarrow> rd varp (snd st);
          case var of
            Null \<Rightarrow> Some st
          | Obj x \<Rightarrow> do { st \<leftarrow> body x varp st; prevptr_loop body (sle_next x) st }
          | _ \<Rightarrow> None }"

definition SLIST_FOREACH_PREVPTR where
  "SLIST_FOREACH_PREVPTR body head st = prevptr_loop body (slh_first head) st"

definition STAILQ_FOREACH where
  "STAILQ_FOREACH body head st = do { v \<leftarrow> STAILQ_FIRST head (snd st); foreach STAILQ_NEXT body v st }"

definition STAILQ_FOREACH_FROM where
  "STAILQ_FOREACH_FROM body var head st =
     do { v \<leftarrow> (if var \<noteq> Null then Some var else STAILQ_FIRST head (snd st)); foreach STAILQ_NEXT body v st }"

definition STAILQ_FOREACH_SAFE where
  "STAILQ_FOREACH_SAFE body head st = do { v \<leftarrow> STAILQ_FIRST head (snd st); foreach_safe STAILQ_NEXT body v st }"

definition STAILQ_FOREACH_FROM_SAFE where
  "STAILQ_FOREACH_FROM_SAFE body var head st =
     do { v \<leftarrow> (if var \<noteq> Null then Some var else STAILQ_FIRST head (snd st)); foreach_safe STAILQ_NEXT body v st }"

subsection \<open>The operations together\<close>

definition SLIST_ops :: "config \<Rightarrow> queue_ops" where
  "SLIST_ops K = \<lparr>head_size = 1, entry_size = 1, q_init = SLIST_INIT, q_insert_head = SLIST_INSERT_HEAD,
     q_insert_after = (\<lambda>h. SLIST_INSERT_AFTER), q_insert_before = None, q_insert_tail = None,
     q_remove = SLIST_REMOVE K, q_concat = SLIST_CONCAT, q_swap = SLIST_SWAP, q_foreach = SLIST_FOREACH, q_foreach_from = SLIST_FOREACH_FROM,
     q_foreach_safe = SLIST_FOREACH_SAFE, q_foreach_from_safe = SLIST_FOREACH_FROM_SAFE\<rparr>"

definition STAILQ_ops :: "config \<Rightarrow> queue_ops" where
  "STAILQ_ops K = \<lparr>head_size = 2, entry_size = 1, q_init = STAILQ_INIT, q_insert_head = STAILQ_INSERT_HEAD,
     q_insert_after = STAILQ_INSERT_AFTER, q_insert_before = None, q_insert_tail = Some STAILQ_INSERT_TAIL,
     q_remove = STAILQ_REMOVE K, q_concat = STAILQ_CONCAT, q_swap = STAILQ_SWAP, q_foreach = STAILQ_FOREACH, q_foreach_from = STAILQ_FOREACH_FROM,
     q_foreach_safe = STAILQ_FOREACH_SAFE, q_foreach_from_safe = STAILQ_FOREACH_FROM_SAFE\<rparr>"

subsection \<open>Singly-linked lists act like lists\<close>

text \<open>In each law the new memory is written out; the lemmas on chains say what it represents.\<close>

lemmas slist_defs = SLIST_ops_def SLIST_FIRST_def SLIST_NEXT_def SLIST_EMPTY_def SLIST_INIT_def SLIST_CONCAT_def
  SLIST_INSERT_AFTER_def SLIST_INSERT_HEAD_def SLIST_REMOVE_AFTER_def SLIST_REMOVE_HEAD_def SLIST_REMOVE_def SLIST_SWAP_def
  TRASHIT_def

lemma slist_init: "has m 1 h \<Longrightarrow> acts (SLIST_INIT h m) m {h} (\<lambda>m'. fchain m' h [])"
  by (rule actsI [where m' = "m((h, 0) \<mapsto> Null)"]) (auto simp: slist_defs dest: has_1)

lemma slist_head:
  assumes "fchain m h xs" and "has m (Suc 0) x" and "x \<notin> set (h # xs)"
  shows "acts (SLIST_INSERT_HEAD h x m) m (set (h # x # xs)) (\<lambda>m'. fchain m' h (x # xs))"
  using assms fchain_first [OF assms(1)] has_1 [OF assms(2)] fchain_insert [of m h "[]" xs x]
  by (intro actsI [where m' = "m((x, 0) \<mapsto> (if xs = [] then Null else Obj (hd xs)), (h, 0) \<mapsto> Obj x)"])
    (auto simp: slist_defs)

lemma slist_after:
  assumes "fchain m h (as @ x # bs)" and "has m (Suc 0) y" and "y \<notin> set (h # as @ x # bs)"
  shows "acts (SLIST_INSERT_AFTER x y m) m (set (h # y # as @ x # bs)) (\<lambda>m'. fchain m' h (as @ x # y # bs))"
  using assms has_1 [OF assms(2)] fchain_insert [of m h "as @ [x]" bs y] fchain_member [OF assms(1)]
  by (intro actsI [where m' = "m((y, 0) \<mapsto> (if bs = [] then Null else Obj (hd bs)), (x, 0) \<mapsto> Obj y)"])
    (auto simp: slist_defs)

lemma slist_remove:
  assumes "fchain m h (as @ x # bs)"
  shows "acts (SLIST_REMOVE K h x m) m (set (h # as @ x # bs)) (\<lambda>m'. fchain m' h (as @ bs))"
proof -
  let ?v = "if bs = [] then Null else Obj (hd bs)" and ?l = "last (h # as)"
  let ?m = "m((?l, 0) \<mapsto> ?v)" let ?m' = "if macro_debug K then ?m((x, 0) \<mapsto> Trash) else ?m"
  note mem = fchain_member [OF assms]
  have x: "x \<notin> set (h # as @ bs)" and d: "distinct (h # as @ x # bs)" using assms by (auto simp: fchain_def)
  have w: "as \<noteq> [] \<Longrightarrow> walk_to (Obj (hd as)) x m = Some (Obj ?l)"
    using assms walk_to_seg [of m "hd as" "tl as" x bs Null] by (cases as) (auto simp: fchain_def)
  have l: "?l \<in> set (h # as)" by (rule last_in_set) simp
  have "SLIST_REMOVE K h x m = Some ?m'"
    using mem w d x fchain_first [OF assms] by (cases as) (auto simp: slist_defs split: if_splits)
  moreover have "fchain ?m' h (as @ bs)" using fchain_remove [OF assms] fchain_trash [OF _ x] by simp
  ultimately show ?thesis
    using mem l by (intro actsI [where m' = ?m']) (auto simp del: last.simps)
qed

lemma slist_concat:
  assumes "fchain m h xs" and "fchain m g ys" and "set (h # xs) \<inter> set (g # ys) = {}"
  shows "acts (SLIST_CONCAT h g m) m (set (h # xs) \<union> set (g # ys)) (\<lambda>m'. fchain m' h (xs @ ys) \<and> fchain m' g [])"
proof -
  let ?v = "if ys = [] then Null else Obj (hd ys)" and ?l = "last (h # xs)"
  let ?m = "m((?l, 0) \<mapsto> ?v)" let ?m' = "?m((g, 0) \<mapsto> Null)"
  have e: "xs \<noteq> [] \<Longrightarrow> end_of (Obj (hd xs)) m = Some (Obj ?l)"
    using assms(1) end_of_seg [of m "hd xs" "tl xs"] by (cases xs) (auto simp: fchain_def)
  have l: "?l \<in> set (h # xs)" by (rule last_in_set) simp
  then have lg: "?l \<noteq> g" using assms(3) by (auto simp del: last.simps)
  have ml: "m (?l, 0) = Some Null" using assms(1) by (intro seg_last) (simp add: fchain_def)
  have first: "m (h, 0) = Some (if xs = [] then Null else Obj (hd xs))" "m (g, 0) = Some ?v"
    by (rule fchain_first [OF assms(1)], rule fchain_first [OF assms(2)])
  have "wr (g, 0) Null ?m = Some ?m'" using lg first(2) by (simp del: last.simps)
  moreover have "ys = [] \<Longrightarrow> m = ?m'" "ys = [] \<Longrightarrow> m = ?m"
    using ml first(2) by (simp_all add: fun_upd_idem del: last.simps)
  ultimately have "SLIST_CONCAT h g m = Some ?m'"
    using e ml first lg by (cases "xs = []"; cases "ys = []") (simp_all add: slist_defs)
  moreover have "fchain ?m' h (xs @ ys)" "fchain ?m' g []"
    using fchain_append [OF assms] fchain_trash [of ?m h "xs @ ys" g] assms(2,3) by (auto simp: fchain_def simp del: last.simps)
  ultimately show ?thesis
    using ml l assms(2) fchain_first [OF assms(2)] by (intro actsI [where m' = ?m']) (auto simp del: last.simps)
qed

lemma slist_swap:
  assumes "fchain m h xs" and "fchain m g ys" and "set (h # xs) \<inter> set (g # ys) = {}"
  shows "acts (SLIST_SWAP h g m) m (set (h # xs) \<union> set (g # ys)) (\<lambda>m'. fchain m' h ys \<and> fchain m' g xs)"
proof -
  let ?m' = "m((h, 0) \<mapsto> (if ys = [] then Null else Obj (hd ys)), (g, 0) \<mapsto> (if xs = [] then Null else Obj (hd xs)))"
  note first = fchain_first [OF assms(1)] fchain_first [OF assms(2)]
  have d: "g \<notin> set ys" "h \<notin> set xs" using assms by (auto simp: fchain_def)
  have "fchain ?m' h ys" using assms(3) first d by (intro fchain_move [OF assms(2)]) auto
  moreover have "fchain ?m' g xs" using assms(3) first d by (intro fchain_move [OF assms(1)]) auto
  ultimately show ?thesis
    using first assms(3) by (intro actsI [where m' = ?m']) (auto simp: slist_defs)
qed

text \<open>A static head is an initialised one.\<close>

lemma slist_initializer: "has m 1 h \<Longrightarrow> SLIST_INIT h m = Some (SLIST_HEAD_INITIALIZER h m)"
  by (auto simp: slist_defs SLIST_HEAD_INITIALIZER_def dest: has_1)

text \<open>The loop with the address visits the entries in order, each with the address of the pointer to it, that is
  the member of its predecessor or of the head.\<close>

lemma prevptr_loop_visits:
  assumes "\<And>x l s. body x l (s, m) = Some (f x l s, m)"
  shows "seg m p xs Null \<Longrightarrow>
    prevptr_loop body (p, 0) (s, m) = Some (fold (\<lambda>(x, q). f x (q, 0)) (zip xs (p # xs)) s, m)"
  by (induction xs arbitrary: p s; subst prevptr_loop.simps) (auto simp: assms)

lemma foreach_prevptr_visits:
  assumes "fchain m h xs" and "\<And>x l s. body x l (s, m) = Some (f x l s, m)"
  shows "SLIST_FOREACH_PREVPTR body h (s, m) = Some (fold (\<lambda>(x, q). f x (q, 0)) (zip xs (h # xs)) s, m)"
  using assms prevptr_loop_visits [of body m f h xs s] by (simp add: SLIST_FOREACH_PREVPTR_def fchain_def)

text \<open>What the address is for: an entry is removed through it without a search for its predecessor.\<close>

lemma prevptr_removes:
  assumes "fchain m h (as @ x # bs)" and "\<not> macro_debug K"
  shows "do { n \<leftarrow> SLIST_NEXT x m; wr (last (h # as), 0) n m } = SLIST_REMOVE K h x m"
proof -
  note mem = fchain_member [OF assms(1)]
  have x: "x \<notin> set (h # as @ bs)" and d: "distinct (h # as @ x # bs)" using assms(1) by (auto simp: fchain_def)
  have "as \<noteq> [] \<Longrightarrow> walk_to (Obj (hd as)) x m = Some (Obj (last (h # as)))"
    using assms(1) walk_to_seg [of m "hd as" "tl as" x bs Null] by (cases as) (auto simp: fchain_def)
  then show ?thesis
    using mem d x assms(2) fchain_first [OF assms(1)] by (cases as) (auto simp: slist_defs split: if_splits)
qed

subsection \<open>Singly-linked tail queues act like lists\<close>

definition stailq :: "qmem \<Rightarrow> nat \<Rightarrow> nat list \<Rightarrow> bool" where
  "stailq m h xs \<longleftrightarrow> fchain m h xs \<and> m (h, 1) = Some (Addr (last (h # xs), 0))"

lemmas stailq_defs = STAILQ_ops_def STAILQ_FIRST_def STAILQ_NEXT_def STAILQ_EMPTY_def STAILQ_INIT_def STAILQ_CONCAT_def
  STAILQ_INSERT_AFTER_def STAILQ_INSERT_HEAD_def STAILQ_INSERT_TAIL_def STAILQ_REMOVE_AFTER_def STAILQ_REMOVE_HEAD_def
  STAILQ_REMOVE_def STAILQ_SWAP_def TRASHIT_def

lemma stailq_initializer: "has m 2 h \<Longrightarrow> STAILQ_INIT h m = Some (STAILQ_HEAD_INITIALIZER h m)"
  using has_2 [of m h] by (auto simp: stailq_defs STAILQ_HEAD_INITIALIZER_def)

lemma stailq_init: "has m 2 h \<Longrightarrow> acts (STAILQ_INIT h m) m {h} (\<lambda>m'. stailq m' h [])"
  using has_2 [of m h] by (intro actsI [where m' = "m((h, 0) \<mapsto> Null, (h, 1) \<mapsto> Addr (h, 0))"])
    (auto simp: stailq_defs stailq_def)

lemma stailq_head:
  assumes "stailq m h xs" and "has m (Suc 0) x" and "x \<notin> set (h # xs)"
  shows "acts (STAILQ_INSERT_HEAD h x m) m (set (h # x # xs)) (\<lambda>m'. stailq m' h (x # xs))"
proof -
  let ?m = "m((x, 0) \<mapsto> (if xs = [] then Null else Obj (hd xs)), (h, 0) \<mapsto> Obj x)"
  let ?m' = "if xs = [] then ?m((h, 1) \<mapsto> Addr (x, 0)) else ?m"
  have c: "fchain m h xs" "m (h, 1) = Some (Addr (last (h # xs), 0))" using assms(1) by (auto simp: stailq_def)
  have "fchain ?m h (x # xs)" using fchain_insert [of m h "[]" xs x] c(1) assms(3) by simp
  then have "stailq ?m' h (x # xs)" using c(2) by (auto simp: stailq_def fchain_def)
  moreover have "STAILQ_INSERT_HEAD h x m = Some ?m'"
    using c fchain_first [OF c(1)] has_1 [OF assms(2)] assms(3)
    by (auto simp: stailq_defs fun_upd_twist)
  ultimately show ?thesis
    using c fchain_first [OF c(1)] has_1 [OF assms(2)] by (intro actsI [where m' = ?m']) auto
qed

lemma stailq_after:
  assumes "stailq m h (as @ x # bs)" and "has m (Suc 0) y" and "y \<notin> set (h # as @ x # bs)"
  shows "acts (STAILQ_INSERT_AFTER h x y m) m (set (h # y # as @ x # bs)) (\<lambda>m'. stailq m' h (as @ x # y # bs))"
proof -
  let ?m = "m((y, 0) \<mapsto> (if bs = [] then Null else Obj (hd bs)), (x, 0) \<mapsto> Obj y)"
  let ?m' = "if bs = [] then ?m((h, 1) \<mapsto> Addr (y, 0)) else ?m"
  have c: "fchain m h (as @ x # bs)" "m (h, 1) = Some (Addr (last (h # as @ x # bs), 0))"
    using assms(1) by (auto simp: stailq_def)
  have "fchain ?m h (as @ x # y # bs)" using fchain_insert [of m h "as @ [x]" bs y] c(1) assms(3) by simp
  then have "stailq ?m' h (as @ x # y # bs)" using c(2) by (auto simp: stailq_def fchain_def)
  moreover have "STAILQ_INSERT_AFTER h x y m = Some ?m'"
    using c fchain_member [OF c(1)] has_1 [OF assms(2)] assms(3)
    by (auto simp: stailq_defs fun_upd_twist)
  ultimately show ?thesis
    using c fchain_member [OF c(1)] has_1 [OF assms(2)] by (intro actsI [where m' = ?m']) auto
qed

lemma stailq_tail:
  assumes "stailq m h xs" and "has m (Suc 0) x" and "x \<notin> set (h # xs)"
  shows "acts (STAILQ_INSERT_TAIL h x m) m (set (h # x # xs)) (\<lambda>m'. stailq m' h (xs @ [x]))"
proof -
  let ?l = "last (h # xs)"
  let ?m = "m((x, 0) \<mapsto> Null, (?l, 0) \<mapsto> Obj x)" let ?m' = "?m((h, 1) \<mapsto> Addr (x, 0))"
  have c: "fchain m h xs" "m (h, 1) = Some (Addr (?l, 0))" using assms(1) by (auto simp: stailq_def)
  have l: "?l \<in> set (h # xs)" by (rule last_in_set) simp
  have ml: "m (?l, 0) = Some Null" using c(1) by (intro seg_last) (simp add: fchain_def)
  have "fchain ?m h (xs @ [x])" using fchain_insert [of m h xs "[]" x] c(1) assms(3) by simp
  then have "stailq ?m' h (xs @ [x])" by (auto simp: stailq_def fchain_def)
  moreover have "STAILQ_INSERT_TAIL h x m = Some ?m'"
    using c ml has_1 [OF assms(2)] by (simp add: stailq_defs del: last.simps)
  ultimately show ?thesis
    using c l ml has_1 [OF assms(2)] by (intro actsI [where m' = ?m']) (auto simp del: last.simps)
qed

lemma stailq_remove:
  assumes "stailq m h (as @ x # bs)"
  shows "acts (STAILQ_REMOVE K h x m) m (set (h # as @ x # bs)) (\<lambda>m'. stailq m' h (as @ bs))"
proof -
  let ?v = "if bs = [] then Null else Obj (hd bs)" and ?l = "last (h # as)"
  let ?m = "m((?l, 0) \<mapsto> ?v)" let ?m1 = "if bs = [] then ?m((h, 1) \<mapsto> Addr (?l, 0)) else ?m"
  let ?m' = "if macro_debug K then ?m1((x, 0) \<mapsto> Trash) else ?m1"
  have c: "fchain m h (as @ x # bs)" "m (h, 1) = Some (Addr (last (h # as @ x # bs), 0))"
    using assms by (auto simp: stailq_def)
  note mem = fchain_member [OF c(1)]
  have x: "x \<notin> set (h # as @ bs)" and d: "distinct (h # as @ x # bs)" using c(1) by (auto simp: fchain_def)
  have w: "as \<noteq> [] \<Longrightarrow> walk_to (Obj (hd as)) x m = Some (Obj ?l)"
    using c(1) walk_to_seg [of m "hd as" "tl as" x bs Null] by (cases as) (auto simp: fchain_def)
  have l: "?l \<in> set (h # as)" by (rule last_in_set) simp
  have "STAILQ_REMOVE K h x m = Some ?m'"
    using mem w d x c(2) fchain_first [OF c(1)] by (cases as) (auto simp: stailq_defs split: if_splits)
  moreover have "stailq ?m' h (as @ bs)"
    using fchain_remove [OF c(1)] fchain_trash [OF _ x] c(2) x
    by (cases "bs = []") (auto simp: stailq_def fchain_def)
  ultimately show ?thesis
    using mem l c(2) by (intro actsI [where m' = ?m']) (auto simp del: last.simps)
qed

lemma stailq_concat:
  assumes "stailq m h xs" and "stailq m g ys" and "set (h # xs) \<inter> set (g # ys) = {}"
  shows "acts (STAILQ_CONCAT h g m) m (set (h # xs) \<union> set (g # ys)) (\<lambda>m'. stailq m' h (xs @ ys) \<and> stailq m' g [])"
proof (cases "ys = []")
  case True
  then show ?thesis
    using assms(1,2) by (intro actsI [where m' = m]) (auto simp: stailq_def stailq_defs)
next
  case False
  let ?l = "last (h # xs)"
  let ?m = "m((?l, 0) \<mapsto> Obj (hd ys))"
  let ?m' = "?m((h, 1) \<mapsto> Addr (last (g # ys), 0), (g, 0) \<mapsto> Null, (g, 1) \<mapsto> Addr (g, 0))"
  have c: "fchain m h xs" "fchain m g ys" "m (h, 1) = Some (Addr (?l, 0))" "m (g, 1) = Some (Addr (last (g # ys), 0))"
    using assms(1,2) by (auto simp: stailq_def)
  have l: "?l \<in> set (h # xs)" by (rule last_in_set) simp
  then have lg: "?l \<noteq> g" "h \<noteq> g" "g \<notin> set xs" "g \<notin> set ys" "g \<notin> set (h # xs @ ys)"
    using assms(3) c(2) by (auto simp: fchain_def simp del: last.simps)
  have ml: "m (?l, 0) = Some Null" using c(1) by (intro seg_last) (simp add: fchain_def)
  have g: "m (g, 0) = Some (Obj (hd ys))" using fchain_first [OF c(2)] False by simp
  have "STAILQ_CONCAT h g m = Some ?m'"
    using c(3,4) ml g lg(1,2) by (simp add: stailq_defs del: last.simps)
  moreover have "stailq ?m' h (xs @ ys)" "stailq ?m' g []"
    using fchain_append [OF c(1,2) assms(3)] lg False by (auto simp: stailq_def fchain_def simp del: fun_upd_apply) auto
  ultimately show ?thesis
    using ml l c g by (intro actsI [where m' = ?m']) (auto simp del: last.simps)
qed

lemma stailq_swap:
  assumes "stailq m h xs" and "stailq m g ys" and "set (h # xs) \<inter> set (g # ys) = {}"
  shows "acts (STAILQ_SWAP h g m) m (set (h # xs) \<union> set (g # ys)) (\<lambda>m'. stailq m' h ys \<and> stailq m' g xs)"
proof -
  let ?l = "\<lambda>a zs. Addr (if zs = [] then a else last zs, 0)"
  let ?m' = "m((h, 0) \<mapsto> (if ys = [] then Null else Obj (hd ys)), (g, 0) \<mapsto> (if xs = [] then Null else Obj (hd xs)),
    (h, 1) \<mapsto> ?l h ys, (g, 1) \<mapsto> ?l g xs)"
  have c: "fchain m h xs" "fchain m g ys" "m (h, 1) = Some (?l h xs)" "m (g, 1) = Some (?l g ys)"
    using assms(1,2) by (auto simp: stailq_def)
  note first = fchain_first [OF c(1)] fchain_first [OF c(2)]
  have d: "g \<notin> set ys" "h \<notin> set xs" using c by (auto simp: fchain_def)
  have "fchain ?m' h ys" using assms(3) first d by (intro fchain_move [OF c(2)]) auto
  moreover have "fchain ?m' g xs" using assms(3) first d by (intro fchain_move [OF c(1)]) auto
  moreover have "STAILQ_SWAP h g m = Some ?m'"
    using c(3,4) first assms(3) by (cases "xs = []"; cases "ys = []") (auto simp: stailq_defs fun_upd_twist)
  ultimately show ?thesis
    using first assms(3) c by (intro actsI [where m' = ?m']) (auto simp: stailq_def)
qed

subsection \<open>Both provide the contract\<close>

lemma SLIST_sel [simp]:
  "head_size (SLIST_ops K) = 1" "entry_size (SLIST_ops K) = 1" "q_init (SLIST_ops K) = SLIST_INIT"
  "q_insert_head (SLIST_ops K) = SLIST_INSERT_HEAD" "q_insert_after (SLIST_ops K) h = SLIST_INSERT_AFTER"
  "q_insert_before (SLIST_ops K) = None" "q_insert_tail (SLIST_ops K) = None" "q_remove (SLIST_ops K) = SLIST_REMOVE K"
  "q_concat (SLIST_ops K) = SLIST_CONCAT" "q_swap (SLIST_ops K) = SLIST_SWAP"
  "q_foreach (SLIST_ops K) = SLIST_FOREACH" "q_foreach_from (SLIST_ops K) = SLIST_FOREACH_FROM"
  "q_foreach_safe (SLIST_ops K) = SLIST_FOREACH_SAFE" "q_foreach_from_safe (SLIST_ops K) = SLIST_FOREACH_FROM_SAFE"
  by (simp_all add: SLIST_ops_def)

lemma STAILQ_sel [simp]:
  "head_size (STAILQ_ops K) = 2" "entry_size (STAILQ_ops K) = 1" "q_init (STAILQ_ops K) = STAILQ_INIT"
  "q_insert_head (STAILQ_ops K) = STAILQ_INSERT_HEAD" "q_insert_after (STAILQ_ops K) = STAILQ_INSERT_AFTER"
  "q_insert_before (STAILQ_ops K) = None" "q_insert_tail (STAILQ_ops K) = Some STAILQ_INSERT_TAIL"
  "q_remove (STAILQ_ops K) = STAILQ_REMOVE K" "q_concat (STAILQ_ops K) = STAILQ_CONCAT" "q_swap (STAILQ_ops K) = STAILQ_SWAP"
  "q_foreach (STAILQ_ops K) = STAILQ_FOREACH" "q_foreach_from (STAILQ_ops K) = STAILQ_FOREACH_FROM"
  "q_foreach_safe (STAILQ_ops K) = STAILQ_FOREACH_SAFE" "q_foreach_from_safe (STAILQ_ops K) = STAILQ_FOREACH_FROM_SAFE"
  by (simp_all add: STAILQ_ops_def)

lemma stailq_frame:
  assumes "stailq m h xs" and "\<And>a. a \<in> set (h # xs) \<Longrightarrow> same_at m m' a"
  shows "stailq m' h xs"
  using assms fchain_frame [of m h xs m'] by (auto simp: stailq_def same_at_def)

lemmas slist_loops = SLIST_FOREACH_def SLIST_FOREACH_FROM_def SLIST_FOREACH_SAFE_def SLIST_FOREACH_FROM_SAFE_def
  SLIST_FIRST_def [abs_def] SLIST_NEXT_def [abs_def]

lemmas stailq_loops = STAILQ_FOREACH_def STAILQ_FOREACH_FROM_def STAILQ_FOREACH_SAFE_def STAILQ_FOREACH_FROM_SAFE_def
  STAILQ_FIRST_def [abs_def] STAILQ_NEXT_def [abs_def]

interpretation slist: linked_queue "SLIST_ops K" fchain for K
proof (unfold_locales, goal_cases)
  case 1
  show ?case by simp
next
  case (2 m h xs)
  then show ?case by (auto simp: fchain_def)
next
  case (3 m h xs m')
  then show ?case by (rule fchain_frame)
next
  case (4 m h)
  then show ?case using slist_init [of m h] by auto
next
  case (5 m h xs x)
  then show ?case using slist_head [of m h xs x] by auto
next
  case (6 m h as x bs y)
  then show ?case using slist_after [of m h as x bs y] by auto
next
  case (7 f m h as x bs y)
  then show ?case by (auto simp: fchain_def)
next
  case (8 g m h xs x)
  then show ?case by (auto simp: fchain_def)
next
  case (9 m h as x bs)
  then show ?case using slist_remove [of m h as x bs] by auto
next
  case (10 m h xs g ys)
  then show ?case using slist_concat [of m h xs g ys] by auto
next
  case (11 m h xs g ys)
  then show ?case using slist_swap [of m h xs g ys] by auto
qed (auto simp: slist_loops fun_eq_iff)

interpretation stailq: linked_queue "STAILQ_ops K" stailq for K
proof (unfold_locales, goal_cases)
  case 1
  show ?case by simp
next
  case (2 m h xs)
  then show ?case by (auto simp: stailq_def fchain_def)
next
  case (3 m h xs m')
  then show ?case by (rule stailq_frame)
next
  case (4 m h)
  then show ?case using stailq_init [of m h] by auto
next
  case (5 m h xs x)
  then show ?case using stailq_head [of m h xs x] by auto
next
  case (6 m h as x bs y)
  then show ?case using stailq_after [of m h as x bs y] by auto
next
  case (7 f m h as x bs y)
  then show ?case by (auto simp: stailq_def fchain_def)
next
  case (8 g m h xs x)
  then show ?case using stailq_tail [of m h xs x] by auto
next
  case (9 m h as x bs)
  then show ?case using stailq_remove [of m h as x bs] by auto
next
  case (10 m h xs g ys)
  then show ?case using stailq_concat [of m h xs g ys] by auto
next
  case (11 m h xs g ys)
  then show ?case using stailq_swap [of m h xs g ys] by auto
qed (auto simp: stailq_loops fun_eq_iff)

end
