(* ===== verification/Queue_Double.thy ===== *)
theory Queue_Double
  imports Queue_Interface
begin

text \<open>
  The doubly linked structures of \<open>queue.h\<close>: lists (\<open>LIST\<close>) and tail queues (\<open>TAILQ\<close>), with the checks that
  \<open>INVARIANTS\<close> turns on, whose failure panics. The trace buffers of \<open>QUEUE_MACRO_DEBUG\<close> are left out.
\<close>

subsection \<open>Lists\<close>

abbreviation (input) lh_first :: "nat \<Rightarrow> loc" where "lh_first h \<equiv> (h, 0)"
abbreviation (input) le_next :: "nat \<Rightarrow> loc" where "le_next e \<equiv> (e, 0)"
abbreviation (input) le_prev :: "nat \<Rightarrow> loc" where "le_prev e \<equiv> (e, 1)"

definition LIST_FIRST :: "nat \<Rightarrow> qmem \<Rightarrow> val option" where
  "LIST_FIRST head m = rd (lh_first head) m"

definition LIST_NEXT :: "nat \<Rightarrow> qmem \<Rightarrow> val option" where
  "LIST_NEXT elm m = rd (le_next elm) m"

definition LIST_EMPTY :: "nat \<Rightarrow> qmem \<Rightarrow> bool option" where
  "LIST_EMPTY head m = do { f \<leftarrow> rd (lh_first head) m; Some (f = Null) }"

definition LIST_PREV :: "nat \<Rightarrow> nat \<Rightarrow> qmem \<Rightarrow> val option" where
  "LIST_PREV elm head m =
     do { p \<leftarrow> rd (le_prev elm) m;
          if p = Addr (lh_first head) then Some Null else containerof p }"

definition QMD_LIST_CHECK_HEAD :: "config \<Rightarrow> nat \<Rightarrow> qmem \<Rightarrow> qmem option" where
  "QMD_LIST_CHECK_HEAD K head m =
     check K (do { f \<leftarrow> LIST_FIRST head m;
                   if f \<noteq> Null then do { p \<leftarrow> get_mem f 1 m; Some (p = Addr (lh_first head)) } else Some True }) m"

definition QMD_LIST_CHECK_NEXT :: "config \<Rightarrow> nat \<Rightarrow> qmem \<Rightarrow> qmem option" where
  "QMD_LIST_CHECK_NEXT K elm m =
     check K (do { n \<leftarrow> LIST_NEXT elm m;
                   if n \<noteq> Null then do { p \<leftarrow> get_mem n 1 m; Some (p = Addr (le_next elm)) } else Some True }) m"

definition QMD_LIST_CHECK_PREV :: "config \<Rightarrow> nat \<Rightarrow> qmem \<Rightarrow> qmem option" where
  "QMD_LIST_CHECK_PREV K elm m =
     check K (do { p \<leftarrow> rd (le_prev elm) m; l \<leftarrow> deref p; e \<leftarrow> rd l m; Some (e = Obj elm) }) m"

definition LIST_INIT :: "nat \<Rightarrow> qmem \<Rightarrow> qmem option" where
  "LIST_INIT head m = wr (lh_first head) Null m"

definition LIST_HEAD_INITIALIZER :: "nat \<Rightarrow> qmem \<Rightarrow> qmem" where
  "LIST_HEAD_INITIALIZER head m = m(lh_first head \<mapsto> Null)"

definition LIST_CONCAT :: "nat \<Rightarrow> nat \<Rightarrow> qmem \<Rightarrow> qmem option" where
  "LIST_CONCAT head1 head2 m =
     do { curelm \<leftarrow> LIST_FIRST head1 m;
          if curelm = Null then do {
            f2 \<leftarrow> LIST_FIRST head2 m;
            m \<leftarrow> wr (lh_first head1) f2 m;
            if f2 \<noteq> Null then do {
              f2 \<leftarrow> LIST_FIRST head2 m;
              m \<leftarrow> set_mem f2 1 (Addr (lh_first head1)) m;
              LIST_INIT head2 m }
            else Some m }
          else do {
            f2 \<leftarrow> LIST_FIRST head2 m;
            if f2 \<noteq> Null then do {
              curelm \<leftarrow> end_of curelm m;
              f2 \<leftarrow> LIST_FIRST head2 m;
              m \<leftarrow> set_mem curelm 0 f2 m;
              f2 \<leftarrow> LIST_FIRST head2 m;
              l \<leftarrow> arrow curelm 0;
              m \<leftarrow> set_mem f2 1 (Addr l) m;
              LIST_INIT head2 m }
            else Some m } }"

definition LIST_INSERT_AFTER :: "config \<Rightarrow> nat \<Rightarrow> nat \<Rightarrow> qmem \<Rightarrow> qmem option" where
  "LIST_INSERT_AFTER K listelm elm m =
     do { m \<leftarrow> QMD_LIST_CHECK_NEXT K listelm m;
          n \<leftarrow> LIST_NEXT listelm m;
          m \<leftarrow> wr (le_next elm) n m;
          m \<leftarrow> (if n \<noteq> Null then do { n \<leftarrow> LIST_NEXT listelm m; set_mem n 1 (Addr (le_next elm)) m } else Some m);
          m \<leftarrow> wr (le_next listelm) (Obj elm) m;
          wr (le_prev elm) (Addr (le_next listelm)) m }"

definition LIST_INSERT_BEFORE :: "config \<Rightarrow> nat \<Rightarrow> nat \<Rightarrow> qmem \<Rightarrow> qmem option" where
  "LIST_INSERT_BEFORE K listelm elm m =
     do { m \<leftarrow> QMD_LIST_CHECK_PREV K listelm m;
          p \<leftarrow> rd (le_prev listelm) m;
          m \<leftarrow> wr (le_prev elm) p m;
          m \<leftarrow> wr (le_next elm) (Obj listelm) m;
          p \<leftarrow> rd (le_prev listelm) m;
          m \<leftarrow> set_target p (Obj elm) m;
          wr (le_prev listelm) (Addr (le_next elm)) m }"

definition LIST_INSERT_HEAD :: "config \<Rightarrow> nat \<Rightarrow> nat \<Rightarrow> qmem \<Rightarrow> qmem option" where
  "LIST_INSERT_HEAD K head elm m =
     do { m \<leftarrow> QMD_LIST_CHECK_HEAD K head m;
          f \<leftarrow> LIST_FIRST head m;
          m \<leftarrow> wr (le_next elm) f m;
          m \<leftarrow> (if f \<noteq> Null then do { f \<leftarrow> LIST_FIRST head m; set_mem f 1 (Addr (le_next elm)) m } else Some m);
          m \<leftarrow> wr (lh_first head) (Obj elm) m;
          wr (le_prev elm) (Addr (lh_first head)) m }"

definition LIST_REMOVE :: "config \<Rightarrow> nat \<Rightarrow> qmem \<Rightarrow> qmem option" where
  "LIST_REMOVE K elm m =
     do { m \<leftarrow> QMD_LIST_CHECK_NEXT K elm m;
          m \<leftarrow> QMD_LIST_CHECK_PREV K elm m;
          n \<leftarrow> LIST_NEXT elm m;
          m \<leftarrow> (if n \<noteq> Null then do { p \<leftarrow> rd (le_prev elm) m; set_mem n 1 p m } else Some m);
          p \<leftarrow> rd (le_prev elm) m;
          n \<leftarrow> LIST_NEXT elm m;
          m \<leftarrow> set_target p n m;
          m \<leftarrow> TRASHIT K (le_next elm) m;
          TRASHIT K (le_prev elm) m }"

definition LIST_SWAP :: "nat \<Rightarrow> nat \<Rightarrow> qmem \<Rightarrow> qmem option" where
  "LIST_SWAP head1 head2 m =
     do { swap_tmp \<leftarrow> LIST_FIRST head1 m;
          f2 \<leftarrow> LIST_FIRST head2 m;
          m \<leftarrow> wr (lh_first head1) f2 m;
          m \<leftarrow> wr (lh_first head2) swap_tmp m;
          swap_tmp \<leftarrow> LIST_FIRST head1 m;
          m \<leftarrow> (if swap_tmp \<noteq> Null then set_mem swap_tmp 1 (Addr (lh_first head1)) m else Some m);
          swap_tmp \<leftarrow> LIST_FIRST head2 m;
          if swap_tmp \<noteq> Null then set_mem swap_tmp 1 (Addr (lh_first head2)) m else Some m }"

definition LIST_FOREACH where
  "LIST_FOREACH body head st = do { v \<leftarrow> LIST_FIRST head (snd st); foreach LIST_NEXT body v st }"

definition LIST_FOREACH_FROM where
  "LIST_FOREACH_FROM body var head st =
     do { v \<leftarrow> (if var \<noteq> Null then Some var else LIST_FIRST head (snd st)); foreach LIST_NEXT body v st }"

definition LIST_FOREACH_SAFE where
  "LIST_FOREACH_SAFE body head st = do { v \<leftarrow> LIST_FIRST head (snd st); foreach_safe LIST_NEXT body v st }"

definition LIST_FOREACH_FROM_SAFE where
  "LIST_FOREACH_FROM_SAFE body var head st =
     do { v \<leftarrow> (if var \<noteq> Null then Some var else LIST_FIRST head (snd st)); foreach_safe LIST_NEXT body v st }"

subsection \<open>Tail queues\<close>

abbreviation (input) tqh_first :: "nat \<Rightarrow> loc" where "tqh_first h \<equiv> (h, 0)"
abbreviation (input) tqh_last :: "nat \<Rightarrow> loc" where "tqh_last h \<equiv> (h, 1)"
abbreviation (input) tqe_next :: "nat \<Rightarrow> loc" where "tqe_next e \<equiv> (e, 0)"
abbreviation (input) tqe_prev :: "nat \<Rightarrow> loc" where "tqe_prev e \<equiv> (e, 1)"

definition TAILQ_FIRST :: "nat \<Rightarrow> qmem \<Rightarrow> val option" where
  "TAILQ_FIRST head m = rd (tqh_first head) m"

definition TAILQ_NEXT :: "nat \<Rightarrow> qmem \<Rightarrow> val option" where
  "TAILQ_NEXT elm m = rd (tqe_next elm) m"

definition TAILQ_EMPTY :: "nat \<Rightarrow> qmem \<Rightarrow> bool option" where
  "TAILQ_EMPTY head m = do { f \<leftarrow> rd (tqh_first head) m; Some (f = Null) }"

text \<open>The cast \<open>(struct headname *)\<close>: the address of a member 0 is read as that of a head.\<close>

fun as_head :: "val \<Rightarrow> nat option" where
  "as_head (Addr (a, k)) = (if k = 0 then Some a else None)"
| "as_head _ = None"

definition TAILQ_LAST :: "nat \<Rightarrow> qmem \<Rightarrow> val option" where
  "TAILQ_LAST head m =
     do { l \<leftarrow> rd (tqh_last head) m;
          h \<leftarrow> as_head l;
          p \<leftarrow> rd (tqh_last h) m;
          l \<leftarrow> deref p;
          rd l m }"

definition TAILQ_PREV :: "nat \<Rightarrow> qmem \<Rightarrow> val option" where
  "TAILQ_PREV elm m =
     do { l \<leftarrow> rd (tqe_prev elm) m;
          h \<leftarrow> as_head l;
          p \<leftarrow> rd (tqh_last h) m;
          l \<leftarrow> deref p;
          rd l m }"

definition QMD_TAILQ_CHECK_HEAD :: "config \<Rightarrow> nat \<Rightarrow> qmem \<Rightarrow> qmem option" where
  "QMD_TAILQ_CHECK_HEAD K head m =
     check K (do { emp \<leftarrow> TAILQ_EMPTY head m;
                   if \<not> emp then do { f \<leftarrow> TAILQ_FIRST head m; p \<leftarrow> get_mem f 1 m; Some (p = Addr (tqh_first head)) }
                   else Some True }) m"

definition QMD_TAILQ_CHECK_TAIL :: "config \<Rightarrow> nat \<Rightarrow> qmem \<Rightarrow> qmem option" where
  "QMD_TAILQ_CHECK_TAIL K head m =
     check K (do { p \<leftarrow> rd (tqh_last head) m; l \<leftarrow> deref p; v \<leftarrow> rd l m; Some (v = Null) }) m"

definition QMD_TAILQ_CHECK_NEXT :: "config \<Rightarrow> nat \<Rightarrow> qmem \<Rightarrow> qmem option" where
  "QMD_TAILQ_CHECK_NEXT K elm m =
     check K (do { n \<leftarrow> TAILQ_NEXT elm m;
                   if n \<noteq> Null then do { p \<leftarrow> get_mem n 1 m; Some (p = Addr (tqe_next elm)) } else Some True }) m"

definition QMD_TAILQ_CHECK_PREV :: "config \<Rightarrow> nat \<Rightarrow> qmem \<Rightarrow> qmem option" where
  "QMD_TAILQ_CHECK_PREV K elm m =
     check K (do { p \<leftarrow> rd (tqe_prev elm) m; l \<leftarrow> deref p; e \<leftarrow> rd l m; Some (e = Obj elm) }) m"

definition TAILQ_INIT :: "nat \<Rightarrow> qmem \<Rightarrow> qmem option" where
  "TAILQ_INIT head m =
     do { m \<leftarrow> wr (tqh_first head) Null m;
          wr (tqh_last head) (Addr (tqh_first head)) m }"

definition TAILQ_HEAD_INITIALIZER :: "nat \<Rightarrow> qmem \<Rightarrow> qmem" where
  "TAILQ_HEAD_INITIALIZER head m = m(tqh_first head \<mapsto> Null, tqh_last head \<mapsto> Addr (tqh_first head))"

definition TAILQ_CONCAT :: "nat \<Rightarrow> nat \<Rightarrow> qmem \<Rightarrow> qmem option" where
  "TAILQ_CONCAT head1 head2 m =
     do { emp \<leftarrow> TAILQ_EMPTY head2 m;
          if \<not> emp then do {
            l1 \<leftarrow> rd (tqh_last head1) m;
            f2 \<leftarrow> rd (tqh_first head2) m;
            m \<leftarrow> set_target l1 f2 m;
            f2 \<leftarrow> rd (tqh_first head2) m;
            l1 \<leftarrow> rd (tqh_last head1) m;
            m \<leftarrow> set_mem f2 1 l1 m;
            l2 \<leftarrow> rd (tqh_last head2) m;
            m \<leftarrow> wr (tqh_last head1) l2 m;
            TAILQ_INIT head2 m }
          else Some m }"

definition TAILQ_INSERT_AFTER :: "config \<Rightarrow> nat \<Rightarrow> nat \<Rightarrow> nat \<Rightarrow> qmem \<Rightarrow> qmem option" where
  "TAILQ_INSERT_AFTER K head listelm elm m =
     do { m \<leftarrow> QMD_TAILQ_CHECK_NEXT K listelm m;
          n \<leftarrow> TAILQ_NEXT listelm m;
          m \<leftarrow> wr (tqe_next elm) n m;
          m \<leftarrow> (if n \<noteq> Null then do { n \<leftarrow> TAILQ_NEXT elm m; set_mem n 1 (Addr (tqe_next elm)) m }
                else wr (tqh_last head) (Addr (tqe_next elm)) m);
          m \<leftarrow> wr (tqe_next listelm) (Obj elm) m;
          wr (tqe_prev elm) (Addr (tqe_next listelm)) m }"

definition TAILQ_INSERT_BEFORE :: "config \<Rightarrow> nat \<Rightarrow> nat \<Rightarrow> qmem \<Rightarrow> qmem option" where
  "TAILQ_INSERT_BEFORE K listelm elm m =
     do { m \<leftarrow> QMD_TAILQ_CHECK_PREV K listelm m;
          p \<leftarrow> rd (tqe_prev listelm) m;
          m \<leftarrow> wr (tqe_prev elm) p m;
          m \<leftarrow> wr (tqe_next elm) (Obj listelm) m;
          p \<leftarrow> rd (tqe_prev listelm) m;
          m \<leftarrow> set_target p (Obj elm) m;
          wr (tqe_prev listelm) (Addr (tqe_next elm)) m }"

definition TAILQ_INSERT_HEAD :: "config \<Rightarrow> nat \<Rightarrow> nat \<Rightarrow> qmem \<Rightarrow> qmem option" where
  "TAILQ_INSERT_HEAD K head elm m =
     do { m \<leftarrow> QMD_TAILQ_CHECK_HEAD K head m;
          f \<leftarrow> TAILQ_FIRST head m;
          m \<leftarrow> wr (tqe_next elm) f m;
          m \<leftarrow> (if f \<noteq> Null then do { f \<leftarrow> TAILQ_FIRST head m; set_mem f 1 (Addr (tqe_next elm)) m }
                else wr (tqh_last head) (Addr (tqe_next elm)) m);
          m \<leftarrow> wr (tqh_first head) (Obj elm) m;
          wr (tqe_prev elm) (Addr (tqh_first head)) m }"

definition TAILQ_INSERT_TAIL :: "config \<Rightarrow> nat \<Rightarrow> nat \<Rightarrow> qmem \<Rightarrow> qmem option" where
  "TAILQ_INSERT_TAIL K head elm m =
     do { m \<leftarrow> QMD_TAILQ_CHECK_TAIL K head m;
          m \<leftarrow> wr (tqe_next elm) Null m;
          l \<leftarrow> rd (tqh_last head) m;
          m \<leftarrow> wr (tqe_prev elm) l m;
          l \<leftarrow> rd (tqh_last head) m;
          m \<leftarrow> set_target l (Obj elm) m;
          wr (tqh_last head) (Addr (tqe_next elm)) m }"

definition TAILQ_REMOVE :: "config \<Rightarrow> nat \<Rightarrow> nat \<Rightarrow> qmem \<Rightarrow> qmem option" where
  "TAILQ_REMOVE K head elm m =
     do { m \<leftarrow> QMD_TAILQ_CHECK_NEXT K elm m;
          m \<leftarrow> QMD_TAILQ_CHECK_PREV K elm m;
          n \<leftarrow> TAILQ_NEXT elm m;
          p \<leftarrow> rd (tqe_prev elm) m;
          m \<leftarrow> (if n \<noteq> Null then set_mem n 1 p m else wr (tqh_last head) p m);
          p \<leftarrow> rd (tqe_prev elm) m;
          n \<leftarrow> TAILQ_NEXT elm m;
          m \<leftarrow> set_target p n m;
          m \<leftarrow> TRASHIT K (tqe_next elm) m;
          TRASHIT K (tqe_prev elm) m }"

definition TAILQ_SWAP :: "nat \<Rightarrow> nat \<Rightarrow> qmem \<Rightarrow> qmem option" where
  "TAILQ_SWAP head1 head2 m =
     do { swap_first \<leftarrow> rd (tqh_first head1) m;
          swap_last \<leftarrow> rd (tqh_last head1) m;
          f2 \<leftarrow> rd (tqh_first head2) m;
          m \<leftarrow> wr (tqh_first head1) f2 m;
          l2 \<leftarrow> rd (tqh_last head2) m;
          m \<leftarrow> wr (tqh_last head1) l2 m;
          m \<leftarrow> wr (tqh_first head2) swap_first m;
          m \<leftarrow> wr (tqh_last head2) swap_last m;
          swap_first \<leftarrow> rd (tqh_first head1) m;
          m \<leftarrow> (if swap_first \<noteq> Null then set_mem swap_first 1 (Addr (tqh_first head1)) m
                else wr (tqh_last head1) (Addr (tqh_first head1)) m);
          swap_first \<leftarrow> rd (tqh_first head2) m;
          if swap_first \<noteq> Null then set_mem swap_first 1 (Addr (tqh_first head2)) m
          else wr (tqh_last head2) (Addr (tqh_first head2)) m }"

definition TAILQ_FOREACH where
  "TAILQ_FOREACH body head st = do { v \<leftarrow> TAILQ_FIRST head (snd st); foreach TAILQ_NEXT body v st }"

definition TAILQ_FOREACH_FROM where
  "TAILQ_FOREACH_FROM body var head st =
     do { v \<leftarrow> (if var \<noteq> Null then Some var else TAILQ_FIRST head (snd st)); foreach TAILQ_NEXT body v st }"

definition TAILQ_FOREACH_SAFE where
  "TAILQ_FOREACH_SAFE body head st = do { v \<leftarrow> TAILQ_FIRST head (snd st); foreach_safe TAILQ_NEXT body v st }"

definition TAILQ_FOREACH_FROM_SAFE where
  "TAILQ_FOREACH_FROM_SAFE body var head st =
     do { v \<leftarrow> (if var \<noteq> Null then Some var else TAILQ_FIRST head (snd st)); foreach_safe TAILQ_NEXT body v st }"

definition TAILQ_FOREACH_REVERSE where
  "TAILQ_FOREACH_REVERSE body head st = do { v \<leftarrow> TAILQ_LAST head (snd st); foreach TAILQ_PREV body v st }"

definition TAILQ_FOREACH_REVERSE_FROM where
  "TAILQ_FOREACH_REVERSE_FROM body var head st =
     do { v \<leftarrow> (if var \<noteq> Null then Some var else TAILQ_LAST head (snd st)); foreach TAILQ_PREV body v st }"

definition TAILQ_FOREACH_REVERSE_SAFE where
  "TAILQ_FOREACH_REVERSE_SAFE body head st = do { v \<leftarrow> TAILQ_LAST head (snd st); foreach_safe TAILQ_PREV body v st }"

definition TAILQ_FOREACH_REVERSE_FROM_SAFE where
  "TAILQ_FOREACH_REVERSE_FROM_SAFE body var head st =
     do { v \<leftarrow> (if var \<noteq> Null then Some var else TAILQ_LAST head (snd st)); foreach_safe TAILQ_PREV body v st }"

subsection \<open>The operations together\<close>

definition LIST_ops :: "config \<Rightarrow> queue_ops" where
  "LIST_ops K = \<lparr>head_size = 1, entry_size = 2, q_init = LIST_INIT, q_insert_head = LIST_INSERT_HEAD K,
     q_insert_after = (\<lambda>h. LIST_INSERT_AFTER K), q_insert_before = Some (LIST_INSERT_BEFORE K), q_insert_tail = None,
     q_remove = (\<lambda>h. LIST_REMOVE K), q_concat = LIST_CONCAT, q_swap = LIST_SWAP, q_foreach = LIST_FOREACH, q_foreach_from = LIST_FOREACH_FROM,
     q_foreach_safe = LIST_FOREACH_SAFE, q_foreach_from_safe = LIST_FOREACH_FROM_SAFE\<rparr>"

definition TAILQ_ops :: "config \<Rightarrow> queue_ops" where
  "TAILQ_ops K = \<lparr>head_size = 2, entry_size = 2, q_init = TAILQ_INIT, q_insert_head = TAILQ_INSERT_HEAD K,
     q_insert_after = TAILQ_INSERT_AFTER K, q_insert_before = Some (TAILQ_INSERT_BEFORE K),
     q_insert_tail = Some (TAILQ_INSERT_TAIL K), q_remove = TAILQ_REMOVE K, q_concat = TAILQ_CONCAT, q_swap = TAILQ_SWAP, q_foreach = TAILQ_FOREACH, q_foreach_from = TAILQ_FOREACH_FROM,
     q_foreach_safe = TAILQ_FOREACH_SAFE, q_foreach_from_safe = TAILQ_FOREACH_FROM_SAFE\<rparr>"

subsection \<open>Lists act like lists\<close>

lemmas list_defs = LIST_FIRST_def LIST_NEXT_def LIST_EMPTY_def LIST_INIT_def LIST_CONCAT_def
  LIST_INSERT_AFTER_def LIST_INSERT_BEFORE_def LIST_INSERT_HEAD_def LIST_REMOVE_def LIST_SWAP_def
  QMD_LIST_CHECK_HEAD_def QMD_LIST_CHECK_NEXT_def QMD_LIST_CHECK_PREV_def TRASHIT_def

lemma dchain_first: "dchain m h xs \<Longrightarrow> m (h, 0) = Some (if xs = [] then Null else Obj (hd xs))"
  by (simp add: dchain_def fchain_first)

lemma dchain_back: "dchain m h xs \<Longrightarrow> xs \<noteq> [] \<Longrightarrow> m (hd xs, Suc 0) = Some (Addr (h, 0))"
  by (simp add: dchain_def prevs_first)

lemma dchain_distinct: "dchain m h xs \<Longrightarrow> distinct (h # xs)"
  by (simp add: dchain_def fchain_def)

lemma dchain_links:
  assumes "dchain m h (as @ x # bs)"
  shows "m (last (h # as), 0) = Some (Obj x)" "m (x, 0) = Some (if bs = [] then Null else Obj (hd bs))"
    "m (x, Suc 0) = Some (Addr (last (h # as), 0))" "bs \<noteq> [] \<Longrightarrow> m (hd bs, Suc 0) = Some (Addr (x, 0))"
  using fchain_member [of m h as x bs] dchain_member [OF assms] assms by (auto simp: dchain_def)

lemma dchain_ends:
  assumes "dchain m h xs"
  shows "m (last (h # xs), 0) = Some Null" "xs \<noteq> [] \<Longrightarrow> end_of (Obj (hd xs)) m = Some (Obj (last (h # xs)))"
proof -
  show "m (last (h # xs), 0) = Some Null" using assms by (intro seg_last) (simp add: dchain_def fchain_def)
  show "xs \<noteq> [] \<Longrightarrow> end_of (Obj (hd xs)) m = Some (Obj (last (h # xs)))"
    using assms end_of_seg [of m "hd xs" "tl xs"] by (cases xs) (auto simp: dchain_def fchain_def)
qed

lemma list_initializer: "has m 1 h \<Longrightarrow> LIST_INIT h m = Some (LIST_HEAD_INITIALIZER h m)"
  by (auto simp: list_defs LIST_HEAD_INITIALIZER_def dest: has_1)

lemma list_init: "has m 1 h \<Longrightarrow> acts (LIST_INIT h m) m {h} (\<lambda>m'. dchain m' h [])"
  by (rule actsI [where m' = "m((h, 0) \<mapsto> Null)"]) (auto simp: list_defs dest: has_1)

lemma list_head:
  assumes "dchain m h xs" and "has m 2 x" and "x \<notin> set (h # xs)"
  shows "acts (LIST_INSERT_HEAD K h x m) m (set (h # x # xs)) (\<lambda>m'. dchain m' h (x # xs))"
proof -
  let ?m = "if xs = [] then m((x, 0) \<mapsto> Null) else m((x, 0) \<mapsto> Obj (hd xs), (hd xs, 1) \<mapsto> Addr (x, 0))"
  let ?m' = "?m((h, 0) \<mapsto> Obj x, (x, 1) \<mapsto> Addr (h, 0))"
  note f = dchain_first [OF assms(1)] dchain_back [OF assms(1)] has_2 [OF assms(2)] dchain_distinct [OF assms(1)]
  have ne: "xs \<noteq> [] \<Longrightarrow> x \<noteq> hd xs" "xs \<noteq> [] \<Longrightarrow> h \<noteq> hd xs" using assms(3) f(5) by (cases xs; auto)+
  have "LIST_INSERT_HEAD K h x m = Some ?m'"
    using f assms(3) ne by (cases "xs = []") (auto simp: list_defs)
  moreover have "dchain ?m' h ([] @ x # xs)"
    using assms f ne by (intro dchain_insert [of m]; cases xs) auto
  ultimately show ?thesis
    using f by (intro actsI [where m' = ?m']) auto
qed

lemma list_after:
  assumes "dchain m h (as @ x # bs)" and "has m 2 y" and "y \<notin> set (h # as @ x # bs)"
  shows "acts (LIST_INSERT_AFTER K x y m) m (set (h # y # as @ x # bs)) (\<lambda>m'. dchain m' h (as @ x # y # bs))"
proof -
  let ?m = "if bs = [] then m((y, 0) \<mapsto> Null) else m((y, 0) \<mapsto> Obj (hd bs), (hd bs, 1) \<mapsto> Addr (y, 0))"
  let ?m' = "?m((x, 0) \<mapsto> Obj y, (y, 1) \<mapsto> Addr (x, 0))"
  note f = dchain_links [OF assms(1)] has_2 [OF assms(2)] dchain_distinct [OF assms(1)]
  have ne: "bs \<noteq> [] \<Longrightarrow> y \<noteq> hd bs" "bs \<noteq> [] \<Longrightarrow> x \<noteq> hd bs" using assms(3) f(7) by (cases bs; auto)+
  have "LIST_INSERT_AFTER K x y m = Some ?m'"
    using f assms(3) ne by (cases "bs = []") (auto simp: list_defs)
  moreover have "dchain ?m' h ((as @ [x]) @ y # bs)"
    using assms f ne by (intro dchain_insert [of m]; cases bs) auto
  ultimately show ?thesis
    using f by (intro actsI [where m' = ?m']) auto
qed

lemma list_before:
  assumes "dchain m h (as @ x # bs)" and "has m 2 y" and "y \<notin> set (h # as @ x # bs)"
  shows "acts (LIST_INSERT_BEFORE K x y m) m (set (h # y # as @ x # bs)) (\<lambda>m'. dchain m' h (as @ y # x # bs))"
proof -
  let ?l = "last (h # as)"
  let ?m' = "m((y, 1) \<mapsto> Addr (?l, 0), (y, 0) \<mapsto> Obj x, (?l, 0) \<mapsto> Obj y, (x, 1) \<mapsto> Addr (y, 0))"
  note f = dchain_links [OF assms(1)] has_2 [OF assms(2)] dchain_distinct [OF assms(1)]
  have l: "?l \<in> set (h # as)" by (rule last_in_set) simp
  then have ne: "?l \<noteq> y" "?l \<noteq> x" using assms(3) f(7) by (auto simp del: last.simps)
  have "LIST_INSERT_BEFORE K x y m = Some ?m'"
    using f assms(3) ne by (auto simp: list_defs simp del: last.simps)
  moreover have "dchain ?m' h (as @ y # x # bs)"
    using assms f ne by (intro dchain_insert [of m h as "x # bs" y]) (auto simp del: last.simps)
  ultimately show ?thesis
    using f l by (intro actsI [where m' = ?m']) (auto simp del: last.simps)
qed

lemma list_remove:
  assumes "dchain m h (as @ x # bs)"
  shows "acts (LIST_REMOVE K x m) m (set (h # as @ x # bs)) (\<lambda>m'. dchain m' h (as @ bs))"
proof -
  let ?l = "last (h # as)"
  let ?m = "if bs = [] then m((?l, 0) \<mapsto> Null) else m((hd bs, 1) \<mapsto> Addr (?l, 0), (?l, 0) \<mapsto> Obj (hd bs))"
  let ?m' = "if macro_debug K then ?m((x, 0) \<mapsto> Trash, (x, 1) \<mapsto> Trash) else ?m"
  note f = dchain_links [OF assms(1)] dchain_distinct [OF assms(1)]
  have l: "?l \<in> set (h # as)" by (rule last_in_set) simp
  then have ne: "?l \<noteq> x" "bs \<noteq> [] \<Longrightarrow> x \<noteq> hd bs" "?l \<notin> set bs" using f(5) by (cases bs; auto simp del: last.simps)+
  have "LIST_REMOVE K x m = Some ?m'"
    using f ne by (cases "bs = []"; cases "macro_debug K") (simp_all add: list_defs del: last.simps)
  moreover have "dchain ?m' h (as @ bs)"
    using f(5) ne by (intro dchain_remove [OF assms]; cases bs) (auto simp del: last.simps)
  ultimately show ?thesis
    using f(1-4) l by (intro actsI [where m' = ?m']; cases bs) (auto simp del: last.simps)
qed

lemma list_concat:
  assumes "dchain m h xs" and "dchain m g ys" and "set (h # xs) \<inter> set (g # ys) = {}"
  shows "acts (LIST_CONCAT h g m) m (set (h # xs) \<union> set (g # ys)) (\<lambda>m'. dchain m' h (xs @ ys) \<and> dchain m' g [])"
proof (cases "ys = []")
  case True
  then show ?thesis
    using assms(1,2) dchain_first [OF assms(1)] by (intro actsI [where m' = m]) (auto simp: list_defs fun_upd_idem)
next
  case False
  let ?l = "last (h # xs)"
  let ?m' = "m((?l, 0) \<mapsto> Obj (hd ys), (hd ys, 1) \<mapsto> Addr (?l, 0), (g, 0) \<mapsto> Null)"
  note f = dchain_first [OF assms(1)] dchain_first [OF assms(2)] dchain_back [OF assms(2) False] dchain_ends [OF assms(1)]
    dchain_distinct [OF assms(1)] dchain_distinct [OF assms(2)]
  have l: "?l \<in> set (h # xs)" by (rule last_in_set) simp
  then have ne: "?l \<noteq> g" "?l \<noteq> hd ys" "hd ys \<noteq> g" "hd ys \<notin> set xs" "hd ys \<noteq> h"
    using assms(3) False f(7) by (cases ys; auto simp del: last.simps)+
  have "LIST_CONCAT h g m = Some ?m'"
    using f ne False by (cases "xs = []") (simp_all add: list_defs)
  moreover have "dchain ?m' h (xs @ ys)"
    using assms f ne False by (intro dchain_append [of m _ _ g]; cases ys) (auto simp del: last.simps)
  ultimately show ?thesis
    using f l False by (intro actsI [where m' = ?m']) (auto simp del: last.simps)
qed

lemma list_swap:
  assumes "dchain m h xs" and "dchain m g ys" and "set (h # xs) \<inter> set (g # ys) = {}"
  shows "acts (LIST_SWAP h g m) m (set (h # xs) \<union> set (g # ys)) (\<lambda>m'. dchain m' h ys \<and> dchain m' g xs)"
proof -
  let ?m = "m((h, 0) \<mapsto> (if ys = [] then Null else Obj (hd ys)), (g, 0) \<mapsto> (if xs = [] then Null else Obj (hd xs)))"
  let ?m1 = "if ys = [] then ?m else ?m((hd ys, 1) \<mapsto> Addr (h, 0))"
  let ?m' = "if xs = [] then ?m1 else ?m1((hd xs, 1) \<mapsto> Addr (g, 0))"
  note f = dchain_first [OF assms(1)] dchain_first [OF assms(2)] dchain_back [OF assms(1)] dchain_back [OF assms(2)]
    dchain_distinct [OF assms(1)] dchain_distinct [OF assms(2)]
  have "LIST_SWAP h g m = Some ?m'"
    using f assms(3) by (cases xs; cases ys) (auto simp: list_defs)
  moreover have "dchain ?m' h ys"
    using f assms(3) by (intro dchain_move [OF assms(2)]; cases xs; cases ys) auto
  moreover have "dchain ?m' g xs"
    using f assms(3) by (intro dchain_move [OF assms(1)]; cases xs; cases ys) auto
  ultimately show ?thesis
    using f by (intro actsI [where m' = ?m']; cases xs; cases ys) auto
qed

subsection \<open>Tail queues act like lists\<close>

definition tailq :: "qmem \<Rightarrow> nat \<Rightarrow> nat list \<Rightarrow> bool" where
  "tailq m h xs \<longleftrightarrow> dchain m h xs \<and> m (h, 1) = Some (Addr (last (h # xs), 0))"

lemmas tailq_defs = TAILQ_FIRST_def TAILQ_NEXT_def TAILQ_EMPTY_def TAILQ_INIT_def TAILQ_CONCAT_def
  TAILQ_INSERT_AFTER_def TAILQ_INSERT_BEFORE_def TAILQ_INSERT_HEAD_def TAILQ_INSERT_TAIL_def TAILQ_REMOVE_def
  TAILQ_SWAP_def QMD_TAILQ_CHECK_HEAD_def QMD_TAILQ_CHECK_TAIL_def QMD_TAILQ_CHECK_NEXT_def QMD_TAILQ_CHECK_PREV_def TRASHIT_def

lemma tailqD:
  assumes "tailq m h xs"
  shows "dchain m h xs" "m (h, Suc 0) = Some (Addr (last (h # xs), 0))"
  using assms by (auto simp: tailq_def)

lemma tailq_initializer: "has m 2 h \<Longrightarrow> TAILQ_INIT h m = Some (TAILQ_HEAD_INITIALIZER h m)"
  using has_2 [of m h] by (auto simp: tailq_defs TAILQ_HEAD_INITIALIZER_def)

lemma tailq_init: "has m 2 h \<Longrightarrow> acts (TAILQ_INIT h m) m {h} (\<lambda>m'. tailq m' h [])"
  using has_2 [of m h] by (intro actsI [where m' = "m((h, 0) \<mapsto> Null, (h, 1) \<mapsto> Addr (h, 0))"])
    (auto simp: tailq_defs tailq_def)

lemma tailq_head:
  assumes "tailq m h xs" and "has m 2 x" and "x \<notin> set (h # xs)"
  shows "acts (TAILQ_INSERT_HEAD K h x m) m (set (h # x # xs)) (\<lambda>m'. tailq m' h (x # xs))"
proof -
  let ?m = "if xs = [] then m((x, 0) \<mapsto> Null, (h, 1) \<mapsto> Addr (x, 0)) else m((x, 0) \<mapsto> Obj (hd xs), (hd xs, 1) \<mapsto> Addr (x, 0))"
  let ?m' = "?m((h, 0) \<mapsto> Obj x, (x, 1) \<mapsto> Addr (h, 0))"
  note d = tailqD(1) [OF assms(1)]
  note f = tailqD(2) [OF assms(1)] dchain_first [OF d] dchain_back [OF d] has_2 [OF assms(2)] dchain_distinct [OF d]
  have ne: "xs \<noteq> [] \<Longrightarrow> x \<noteq> hd xs" "xs \<noteq> [] \<Longrightarrow> h \<noteq> hd xs" using assms(3) f(6) by (cases xs; auto)+
  have "TAILQ_INSERT_HEAD K h x m = Some ?m'"
    using f assms(3) ne by (cases "xs = []") (auto simp: tailq_defs)
  moreover have "dchain ?m' h ([] @ x # xs)"
    using assms d f ne by (intro dchain_insert [of m]; cases xs) auto
  moreover have "?m' (h, 1) = Some (Addr (last (h # x # xs), 0))" using f(1) assms(3) ne by (cases xs) auto
  ultimately show ?thesis
    using f by (intro actsI [where m' = ?m']) (auto simp: tailq_def)
qed

lemma tailq_after:
  assumes "tailq m h (as @ x # bs)" and "has m 2 y" and "y \<notin> set (h # as @ x # bs)"
  shows "acts (TAILQ_INSERT_AFTER K h x y m) m (set (h # y # as @ x # bs)) (\<lambda>m'. tailq m' h (as @ x # y # bs))"
proof -
  let ?m = "if bs = [] then m((y, 0) \<mapsto> Null, (h, 1) \<mapsto> Addr (y, 0)) else m((y, 0) \<mapsto> Obj (hd bs), (hd bs, 1) \<mapsto> Addr (y, 0))"
  let ?m' = "?m((x, 0) \<mapsto> Obj y, (y, 1) \<mapsto> Addr (x, 0))"
  note d = tailqD(1) [OF assms(1)]
  note f = tailqD(2) [OF assms(1)] dchain_links [OF d] has_2 [OF assms(2)] dchain_distinct [OF d]
  have ne: "bs \<noteq> [] \<Longrightarrow> y \<noteq> hd bs" "bs \<noteq> [] \<Longrightarrow> x \<noteq> hd bs" "bs \<noteq> [] \<Longrightarrow> h \<noteq> hd bs"
    using assms(3) f(8) by (cases bs; auto)+
  have "TAILQ_INSERT_AFTER K h x y m = Some ?m'"
    using f assms(3) ne by (cases "bs = []") (auto simp: tailq_defs)
  moreover have "dchain ?m' h ((as @ [x]) @ y # bs)"
    using assms d f ne by (intro dchain_insert [of m]; cases bs) auto
  moreover have "?m' (h, 1) = Some (Addr (last (h # as @ x # y # bs), 0))" using f(1) assms(3) ne by (cases bs) auto
  ultimately show ?thesis
    using f by (intro actsI [where m' = ?m']) (auto simp: tailq_def)
qed

lemma tailq_before:
  assumes "tailq m h (as @ x # bs)" and "has m 2 y" and "y \<notin> set (h # as @ x # bs)"
  shows "acts (TAILQ_INSERT_BEFORE K x y m) m (set (h # y # as @ x # bs)) (\<lambda>m'. tailq m' h (as @ y # x # bs))"
proof -
  let ?l = "last (h # as)"
  let ?m' = "m((y, 1) \<mapsto> Addr (?l, 0), (y, 0) \<mapsto> Obj x, (?l, 0) \<mapsto> Obj y, (x, 1) \<mapsto> Addr (y, 0))"
  note d = tailqD(1) [OF assms(1)]
  note f = tailqD(2) [OF assms(1)] dchain_links [OF d] has_2 [OF assms(2)] dchain_distinct [OF d]
  have l: "?l \<in> set (h # as)" by (rule last_in_set) simp
  then have ne: "?l \<noteq> y" "?l \<noteq> x" using assms(3) f(8) by (auto simp del: last.simps)
  have "TAILQ_INSERT_BEFORE K x y m = Some ?m'"
    using f assms(3) ne by (simp add: tailq_defs del: last.simps)
  moreover have "dchain ?m' h (as @ y # x # bs)"
    using assms d f ne by (intro dchain_insert [of m h as "x # bs" y]) (auto simp del: last.simps)
  moreover have "?m' (h, 1) = Some (Addr (last (h # as @ y # x # bs), 0))" using f(1,8) assms(3) by auto
  ultimately show ?thesis
    using f l by (intro actsI [where m' = ?m']) (auto simp: tailq_def simp del: last.simps)
qed

lemma tailq_tail:
  assumes "tailq m h xs" and "has m 2 x" and "x \<notin> set (h # xs)"
  shows "acts (TAILQ_INSERT_TAIL K h x m) m (set (h # x # xs)) (\<lambda>m'. tailq m' h (xs @ [x]))"
proof -
  let ?l = "last (h # xs)"
  let ?m' = "m((x, 0) \<mapsto> Null, (x, 1) \<mapsto> Addr (?l, 0), (?l, 0) \<mapsto> Obj x, (h, 1) \<mapsto> Addr (x, 0))"
  note d = tailqD(1) [OF assms(1)]
  note f = tailqD(2) [OF assms(1)] dchain_ends(1) [OF d] has_2 [OF assms(2)] dchain_distinct [OF d]
  have l: "?l \<in> set (h # xs)" by (rule last_in_set) simp
  then have ne: "?l \<noteq> x" "h \<noteq> x" using assms(3) by (auto simp del: last.simps)
  have "TAILQ_INSERT_TAIL K h x m = Some ?m'"
    using f ne by (simp add: tailq_defs del: last.simps)
  moreover have "dchain ?m' h (xs @ x # [])"
    using assms d f ne by (intro dchain_insert [of m h xs "[]" x]) (auto simp del: last.simps)
  moreover have "?m' (h, 1) = Some (Addr (last (h # xs @ [x]), 0))" by simp
  ultimately show ?thesis
    using f l by (intro actsI [where m' = ?m']) (auto simp: tailq_def simp del: last.simps)
qed

lemma tailq_remove:
  assumes "tailq m h (as @ x # bs)"
  shows "acts (TAILQ_REMOVE K h x m) m (set (h # as @ x # bs)) (\<lambda>m'. tailq m' h (as @ bs))"
proof -
  let ?l = "last (h # as)"
  let ?m = "if bs = [] then m((h, 1) \<mapsto> Addr (?l, 0), (?l, 0) \<mapsto> Null) else m((hd bs, 1) \<mapsto> Addr (?l, 0), (?l, 0) \<mapsto> Obj (hd bs))"
  let ?m' = "if macro_debug K then ?m((x, 0) \<mapsto> Trash, (x, 1) \<mapsto> Trash) else ?m"
  note d = tailqD(1) [OF assms(1)]
  note f = tailqD(2) [OF assms(1)] dchain_links [OF d] dchain_distinct [OF d]
  have l: "?l \<in> set (h # as)" by (rule last_in_set) simp
  then have ne: "?l \<noteq> x" "bs \<noteq> [] \<Longrightarrow> x \<noteq> hd bs" "?l \<notin> set bs" "bs \<noteq> [] \<Longrightarrow> h \<noteq> hd bs" "h \<noteq> x"
    using f(6) by (cases bs; auto simp del: last.simps)+
  have "TAILQ_REMOVE K h x m = Some ?m'"
    using f ne by (cases "bs = []"; cases "macro_debug K") (simp_all add: tailq_defs del: last.simps)
  moreover have "dchain ?m' h (as @ bs)"
    using f(6) ne by (intro dchain_remove [OF d]; cases bs) (auto simp del: last.simps)
  moreover have "?m' (h, 1) = Some (Addr (last (h # as @ bs), 0))" using f(1) ne(4,5) by (cases "bs = []") auto
  ultimately show ?thesis
    using f(1-5) l by (intro actsI [where m' = ?m']; cases bs) (auto simp: tailq_def simp del: last.simps)
qed

lemma tailq_concat:
  assumes "tailq m h xs" and "tailq m g ys" and "set (h # xs) \<inter> set (g # ys) = {}"
  shows "acts (TAILQ_CONCAT h g m) m (set (h # xs) \<union> set (g # ys)) (\<lambda>m'. tailq m' h (xs @ ys) \<and> tailq m' g [])"
proof (cases "ys = []")
  case True
  then show ?thesis
    using assms(1,2) by (intro actsI [where m' = m]) (auto simp: tailq_def tailq_defs)
next
  case False
  let ?l = "last (h # xs)"
  let ?m' = "m((?l, 0) \<mapsto> Obj (hd ys), (hd ys, 1) \<mapsto> Addr (?l, 0), (h, 1) \<mapsto> Addr (last ys, 0),
    (g, 0) \<mapsto> Null, (g, 1) \<mapsto> Addr (g, 0))"
  note d = tailqD(1) [OF assms(1)] tailqD(1) [OF assms(2)]
  note f = tailqD(2) [OF assms(1)] tailqD(2) [OF assms(2)] dchain_first [OF d(2)] dchain_back [OF d(2) False] dchain_ends [OF d(1)]
    dchain_distinct [OF d(1)] dchain_distinct [OF d(2)]
  have l: "?l \<in> set (h # xs)" by (rule last_in_set) simp
  then have ne: "?l \<noteq> g" "?l \<noteq> hd ys" "hd ys \<noteq> g" "hd ys \<notin> set xs" "hd ys \<noteq> h" "h \<noteq> g"
    using assms(3) False f(8) by (cases ys; auto simp del: last.simps)+
  have g: "m (g, Suc 0) = Some (Addr (last ys, 0))" using f(2) False by simp
  have "TAILQ_CONCAT h g m = Some ?m'"
    using f(1,3-5) g ne False by (simp add: tailq_defs del: last.simps)
  moreover have "dchain ?m' h (xs @ ys)"
    using assms(3) d f ne False by (intro dchain_append [of m _ _ g]; cases ys) (auto simp del: last.simps)
  ultimately show ?thesis
    using f l False ne(6) by (intro actsI [where m' = ?m']) (auto simp: tailq_def simp del: last.simps, auto)
qed

lemma tailq_swap:
  assumes "tailq m h xs" and "tailq m g ys" and "set (h # xs) \<inter> set (g # ys) = {}"
  shows "acts (TAILQ_SWAP h g m) m (set (h # xs) \<union> set (g # ys)) (\<lambda>m'. tailq m' h ys \<and> tailq m' g xs)"
proof -
  let ?m = "m((h, 0) \<mapsto> (if ys = [] then Null else Obj (hd ys)), (h, 1) \<mapsto> Addr (last (g # ys), 0),
    (g, 0) \<mapsto> (if xs = [] then Null else Obj (hd xs)), (g, 1) \<mapsto> Addr (last (h # xs), 0))"
  let ?m1 = "if ys = [] then ?m((h, 1) \<mapsto> Addr (h, 0)) else ?m((hd ys, 1) \<mapsto> Addr (h, 0))"
  let ?m' = "if xs = [] then ?m1((g, 1) \<mapsto> Addr (g, 0)) else ?m1((hd xs, 1) \<mapsto> Addr (g, 0))"
  note d = tailqD(1) [OF assms(1)] tailqD(1) [OF assms(2)]
  note f = tailqD(2) [OF assms(1)] tailqD(2) [OF assms(2)] dchain_first [OF d(1)] dchain_first [OF d(2)]
    dchain_back [OF d(1)] dchain_back [OF d(2)] dchain_distinct [OF d(1)] dchain_distinct [OF d(2)]
  have "TAILQ_SWAP h g m = Some ?m'"
    using f assms(3) by (cases xs; cases ys) (auto simp: tailq_defs)
  moreover have "dchain ?m' h ys"
    using f assms(3) by (intro dchain_move [OF d(2)]; cases xs; cases ys) auto
  moreover have "dchain ?m' g xs"
    using f assms(3) by (intro dchain_move [OF d(1)]; cases xs; cases ys) auto
  moreover have "?m' (h, 1) = Some (Addr (last (h # ys), 0))" "?m' (g, 1) = Some (Addr (last (g # xs), 0))"
    using f(7,8) assms(3) by (cases xs; cases ys; auto)+
  ultimately show ?thesis
    using f by (intro actsI [where m' = ?m']; cases xs; cases ys) (auto simp: tailq_def)
qed

subsection \<open>Both provide the contract\<close>

lemma LIST_sel [simp]:
  "head_size (LIST_ops K) = 1" "entry_size (LIST_ops K) = 2" "q_init (LIST_ops K) = LIST_INIT"
  "q_insert_head (LIST_ops K) = LIST_INSERT_HEAD K" "q_insert_after (LIST_ops K) h = LIST_INSERT_AFTER K"
  "q_insert_before (LIST_ops K) = Some (LIST_INSERT_BEFORE K)" "q_insert_tail (LIST_ops K) = None"
  "q_remove (LIST_ops K) h = LIST_REMOVE K" "q_concat (LIST_ops K) = LIST_CONCAT" "q_swap (LIST_ops K) = LIST_SWAP"
  "q_foreach (LIST_ops K) = LIST_FOREACH" "q_foreach_from (LIST_ops K) = LIST_FOREACH_FROM"
  "q_foreach_safe (LIST_ops K) = LIST_FOREACH_SAFE" "q_foreach_from_safe (LIST_ops K) = LIST_FOREACH_FROM_SAFE"
  by (simp_all add: LIST_ops_def)

lemma TAILQ_sel [simp]:
  "head_size (TAILQ_ops K) = 2" "entry_size (TAILQ_ops K) = 2" "q_init (TAILQ_ops K) = TAILQ_INIT"
  "q_insert_head (TAILQ_ops K) = TAILQ_INSERT_HEAD K" "q_insert_after (TAILQ_ops K) = TAILQ_INSERT_AFTER K"
  "q_insert_before (TAILQ_ops K) = Some (TAILQ_INSERT_BEFORE K)" "q_insert_tail (TAILQ_ops K) = Some (TAILQ_INSERT_TAIL K)"
  "q_remove (TAILQ_ops K) = TAILQ_REMOVE K" "q_concat (TAILQ_ops K) = TAILQ_CONCAT" "q_swap (TAILQ_ops K) = TAILQ_SWAP"
  "q_foreach (TAILQ_ops K) = TAILQ_FOREACH" "q_foreach_from (TAILQ_ops K) = TAILQ_FOREACH_FROM"
  "q_foreach_safe (TAILQ_ops K) = TAILQ_FOREACH_SAFE" "q_foreach_from_safe (TAILQ_ops K) = TAILQ_FOREACH_FROM_SAFE"
  by (simp_all add: TAILQ_ops_def)

lemma dchain_frame:
  assumes "dchain m h xs" and "\<And>a. a \<in> set (h # xs) \<Longrightarrow> same_at m m' a"
  shows "dchain m' h xs"
  using assms fchain_frame [of m h xs m'] prevs_frame [of m h xs m'] by (simp add: dchain_def same_at_def)

lemma tailq_frame:
  assumes "tailq m h xs" and "\<And>a. a \<in> set (h # xs) \<Longrightarrow> same_at m m' a"
  shows "tailq m' h xs"
  using assms dchain_frame [of m h xs m'] by (simp add: tailq_def same_at_def)

lemmas list_loops = LIST_FOREACH_def LIST_FOREACH_FROM_def LIST_FOREACH_SAFE_def LIST_FOREACH_FROM_SAFE_def
  LIST_FIRST_def [abs_def] LIST_NEXT_def [abs_def]

lemmas tailq_loops = TAILQ_FOREACH_def TAILQ_FOREACH_FROM_def TAILQ_FOREACH_SAFE_def TAILQ_FOREACH_FROM_SAFE_def
  TAILQ_FIRST_def [abs_def] TAILQ_NEXT_def [abs_def]

interpretation lists: linked_queue "LIST_ops K" dchain for K
proof (unfold_locales, goal_cases)
  case 1
  show ?case by simp
next
  case (2 m h xs)
  then show ?case by (auto simp: dchain_def fchain_def)
next
  case (3 m h xs m')
  then show ?case by (rule dchain_frame)
next
  case (4 m h)
  then show ?case using list_init [of m h] by auto
next
  case (5 m h xs x)
  then show ?case using list_head [of m h xs x] by auto
next
  case (6 m h as x bs y)
  then show ?case using list_after [of m h as x bs y] by auto
next
  case (7 f m h as x bs y)
  then show ?case using list_before [of m h as x bs y] by auto
next
  case (8 g m h xs x)
  then show ?case by (auto simp: dchain_def fchain_def)
next
  case (9 m h as x bs)
  then show ?case using list_remove [of m h as x bs] by auto
next
  case (10 m h xs g ys)
  then show ?case using list_concat [of m h xs g ys] by auto
next
  case (11 m h xs g ys)
  then show ?case using list_swap [of m h xs g ys] by auto
qed (auto simp: list_loops fun_eq_iff)

interpretation tailq: linked_queue "TAILQ_ops K" tailq for K
proof (unfold_locales, goal_cases)
  case 1
  show ?case by simp
next
  case (2 m h xs)
  then show ?case by (auto simp: tailq_def dchain_def fchain_def)
next
  case (3 m h xs m')
  then show ?case by (rule tailq_frame)
next
  case (4 m h)
  then show ?case using tailq_init [of m h] by auto
next
  case (5 m h xs x)
  then show ?case using tailq_head [of m h xs x] by auto
next
  case (6 m h as x bs y)
  then show ?case using tailq_after [of m h as x bs y] by auto
next
  case (7 f m h as x bs y)
  then show ?case using tailq_before [of m h as x bs y] by auto
next
  case (8 g m h xs x)
  then show ?case using tailq_tail [of m h xs x] by auto
next
  case (9 m h as x bs)
  then show ?case using tailq_remove [of m h as x bs] by auto
next
  case (10 m h xs g ys)
  then show ?case using tailq_concat [of m h xs g ys] by auto
next
  case (11 m h xs g ys)
  then show ?case using tailq_swap [of m h xs g ys] by auto
qed (auto simp: tailq_loops fun_eq_iff)

end
