(* ===== verification/Queue_Properties.thy ===== *)
theory Queue_Properties
  imports Queue_Single Queue_Double
begin

text \<open>
  The properties of the macros of \<open>queue.h\<close>. They hold for both settings of \<open>INVARIANTS\<close> and of
  \<open>QUEUE_MACRO_DEBUG\<close>, so no check of a correct program fails.
\<close>

subsection \<open>An example\<close>

text \<open>Two heads and three entries, all uninitialised, and a run that every structure permits.\<close>

definition demo_queue_memory :: qmem where
  "demo_queue_memory = (\<lambda>(a, k). if a < 5 \<and> k < 2 then Some Undef else None)"

definition demo_queue_ops :: "qop list" where
  "demo_queue_ops = [Q_Head 0 2, Q_After 0 2 3, Q_Head 1 4, Q_Concat 0 1, Q_Remove 0 3]"

abbreviation (input) demo_config :: config where
  "demo_config \<equiv> \<lparr>invariants = True, macro_debug = True\<rparr>"

lemma demo_storage: "head_size Q \<le> 2 \<Longrightarrow> entry_size Q \<le> 2 \<Longrightarrow> storage Q {2, 3, 4} [0, 1] demo_queue_memory"
  by (auto simp: storage_def has_def demo_queue_memory_def)

lemma demo_permitted: "permitted_run Q {2, 3, 4} [0, 1] (\<lambda>h. []) demo_queue_ops"
  by (simp add: demo_queue_ops_def unused_def)

lemma demo_lists: "list_run demo_queue_ops (\<lambda>h. []) 0 = [2, 4]" "list_run demo_queue_ops (\<lambda>h. []) (Suc 0) = []"
  by (simp_all add: list_run_def demo_queue_ops_def)

subsection \<open>Lists\<close>

text \<open>C37: the four structures act like lists. Start with memory that has room for the heads and the entries
  but any content, initialise the heads, and run any sequence of operations on any number of heads, as long
  as inserted entries are in no list, removed ones and neighbours are in the list of the head, and
  joined or exchanged heads are different. No operation is undefined, no check fails, and each head then
  has the entries that the list operations give, without repetition: \<open>FIRST\<close> is the first of them,
  \<open>FOREACH\<close> visits them in order and \<open>FOREACH_FROM\<close> those from the given entry on.\<close>

theorem queues_refine_lists:
  assumes "Q \<in> {SLIST_ops K, STAILQ_ops K, LIST_ops K, TAILQ_ops K}" and "storage Q E hs m"
    and "permitted_run Q E hs (\<lambda>h. []) ps"
  shows "\<exists>m'. queue_run Q (map Q_Init hs @ ps) m = Some m' \<and>
    (\<forall>h \<in> set hs. let xs = list_run ps (\<lambda>h. []) h in
       distinct xs \<and> set xs \<subseteq> E \<and> rd (h, 0) m' = Some (if xs = [] then Null else Obj (hd xs)) \<and>
       q_foreach Q collect h ([], m') = Some (xs, m') \<and>
       (\<forall>as x bs. xs = as @ x # bs \<longrightarrow> q_foreach_from Q collect (Obj x) h ([], m') = Some (x # bs, m')))"
proof -
  from assms(1) consider "Q = SLIST_ops K" | "Q = STAILQ_ops K" | "Q = LIST_ops K" | "Q = TAILQ_ops K" by blast
  then show ?thesis
  proof cases
    case 1
    show ?thesis using assms(2-) unfolding 1 by (rule slist.session_visible)
  next
    case 2
    show ?thesis using assms(2-) unfolding 2 by (rule stailq.session_visible)
  next
    case 3
    show ?thesis using assms(2-) unfolding 3 by (rule lists.session_visible)
  next
    case 4
    show ?thesis using assms(2-) unfolding 4 by (rule tailq.session_visible)
  qed
qed

theorem queues_refine_lists_witness:
  "\<exists>m'. queue_run (TAILQ_ops demo_config) (map Q_Init [0, 1] @ demo_queue_ops) demo_queue_memory = Some m' \<and>
     TAILQ_FOREACH collect 0 ([], m') = Some ([2, 4], m') \<and> TAILQ_FOREACH_FROM collect (Obj 4) 0 ([], m') = Some ([4], m') \<and>
     TAILQ_FOREACH collect 1 ([], m') = Some ([], m')"
  using queues_refine_lists [of "TAILQ_ops demo_config" demo_config "{2, 3, 4}" "[0, 1]" demo_queue_memory demo_queue_ops]
    demo_storage [of "TAILQ_ops demo_config"] demo_permitted [of "TAILQ_ops demo_config"]
  by (auto simp: demo_lists Let_def Cons_eq_append_conv)

text \<open>C38: emptying a queue in a loop. After any such run, \<open>FOREACH_SAFE\<close> with a body that removes the entry from
  the queue and frees it visits all entries, and after it the memory of all of them is gone, the queue is
  empty, and the other queues are as before. With \<open>FOREACH\<close> instead, the same body makes the loop read
  the freed entry, unless the queue is empty.\<close>

theorem queue_teardown:
  assumes "Q \<in> {SLIST_ops K, STAILQ_ops K, LIST_ops K, TAILQ_ops K}" and "storage Q E hs m"
    and "permitted_run Q E hs (\<lambda>h. []) ps" and "h \<in> set hs"
  shows "\<exists>m1 m2. queue_run Q (map Q_Init hs @ ps) m = Some m1 \<and>
    q_foreach_safe Q (discard Q h) h ([], m1) = Some (list_run ps (\<lambda>h. []) h, m2) \<and>
    (\<forall>x \<in> set (list_run ps (\<lambda>h. []) h). \<forall>k. m2 (x, k) = None) \<and>
    (\<forall>g \<in> set hs. q_foreach Q collect g ([], m2) = Some (if g = h then [] else list_run ps (\<lambda>h. []) g, m2)) \<and>
    (list_run ps (\<lambda>h. []) h \<noteq> [] \<longrightarrow> q_foreach Q (discard Q h) h ([], m1) = None)"
proof -
  from assms(1) consider "Q = SLIST_ops K" | "Q = STAILQ_ops K" | "Q = LIST_ops K" | "Q = TAILQ_ops K" by blast
  then show ?thesis
  proof cases
    case 1
    show ?thesis using assms(2-) unfolding 1 by (rule slist.session_teardown)
  next
    case 2
    show ?thesis using assms(2-) unfolding 2 by (rule stailq.session_teardown)
  next
    case 3
    show ?thesis using assms(2-) unfolding 3 by (rule lists.session_teardown)
  next
    case 4
    show ?thesis using assms(2-) unfolding 4 by (rule tailq.session_teardown)
  qed
qed

theorem queue_teardown_witness:
  "\<exists>m1 m2. queue_run (SLIST_ops demo_config) (map Q_Init [0, 1] @ demo_queue_ops) demo_queue_memory = Some m1 \<and>
     SLIST_FOREACH_SAFE (discard (SLIST_ops demo_config) 0) 0 ([], m1) = Some ([2, 4], m2) \<and> m2 (2, 0) = None \<and>
     SLIST_FOREACH collect 0 ([], m2) = Some ([], m2) \<and> SLIST_FOREACH (discard (SLIST_ops demo_config) 0) 0 ([], m1) = None"
  using queue_teardown [of "SLIST_ops demo_config" demo_config "{2, 3, 4}" "[0, 1]" demo_queue_memory demo_queue_ops 0]
    demo_storage [of "SLIST_ops demo_config"] demo_permitted [of "SLIST_ops demo_config"]
  by (auto simp: demo_lists)

subsection \<open>Backwards\<close>

text \<open>The last object of a tail queue, and the predecessor of an object: the members of the object before are
  read as those of a head.\<close>

lemma tailq_last_links:
  assumes "tailq m h xs"
  shows "TAILQ_LAST h m = Some (if xs = [] then Null else Obj (last xs))"
proof (cases xs rule: rev_cases)
  case Nil
  then show ?thesis using assms by (simp add: tailq_def TAILQ_LAST_def)
next
  case (snoc as x)
  have "dchain m h (as @ x # [])" using assms snoc by (simp add: tailq_def)
  from dchain_links [OF this] show ?thesis using assms snoc by (simp add: tailq_def TAILQ_LAST_def del: last.simps) simp
qed

lemma tailq_prev_links:
  assumes "tailq m h (as @ x # bs)"
  shows "TAILQ_PREV x m = Some (if as = [] then Null else Obj (last as))"
proof (cases as rule: rev_cases)
  case Nil
  then have d: "dchain m h (x # bs)" "m (h, Suc 0) = Some (Addr (last (h # x # bs), 0))" using assms by (auto simp: tailq_def)
  then have "m (x, Suc 0) = Some (Addr (h, 0))" using dchain_back [of m h "x # bs"] by simp
  then show ?thesis using d(2) dchain_ends(1) [OF d(1)] Nil by (simp add: TAILQ_PREV_def del: last.simps)
next
  case (snoc cs y)
  have d: "dchain m h (cs @ y # x # bs)" "dchain m h ((cs @ [y]) @ x # bs)" using assms snoc by (simp_all add: tailq_def)
  show ?thesis using dchain_links [OF d(1)] dchain_links [OF d(2)] snoc by (simp add: TAILQ_PREV_def)
qed

lemma tailq_back_walks:
  "tailq m h (as @ bs) \<Longrightarrow> walks TAILQ_PREV m (if as = [] then Null else Obj (last as)) (rev as)"
proof (induction as arbitrary: bs rule: rev_induct)
  case (snoc x as)
  then have t: "tailq m h (as @ x # bs)" by simp
  show ?case using snoc.IH [OF t] tailq_prev_links [OF t] by simp
qed simp

text \<open>C39: tail queues backwards. After any run with tail queues, \<open>TAILQ_LAST\<close> is the last entry, \<open>TAILQ_PREV\<close>
  of an entry is the one before it or null for the first, and the loops \<open>FOREACH_REVERSE\<close>, from the end or
  from an entry, visit the entries in the reverse of the order in which \<open>FOREACH\<close> does.\<close>

theorem tailq_backwards:
  assumes "storage (TAILQ_ops K) E hs m" and "permitted_run (TAILQ_ops K) E hs (\<lambda>h. []) ps"
  shows "\<exists>m'. queue_run (TAILQ_ops K) (map Q_Init hs @ ps) m = Some m' \<and>
    (\<forall>h \<in> set hs. let xs = list_run ps (\<lambda>h. []) h in
       TAILQ_LAST h m' = Some (if xs = [] then Null else Obj (last xs)) \<and>
       TAILQ_FOREACH collect h ([], m') = Some (xs, m') \<and>
       TAILQ_FOREACH_REVERSE collect h ([], m') = Some (rev xs, m') \<and>
       TAILQ_FOREACH_REVERSE_SAFE collect h ([], m') = Some (rev xs, m') \<and>
       (\<forall>as x bs. xs = as @ x # bs \<longrightarrow>
          TAILQ_PREV x m' = Some (if as = [] then Null else Obj (last as)) \<and>
          TAILQ_FOREACH_REVERSE_FROM collect (Obj x) h ([], m') = Some (x # rev as, m') \<and>
          TAILQ_FOREACH_REVERSE_FROM_SAFE collect (Obj x) h ([], m') = Some (x # rev as, m')))"
proof -
  let ?A = "list_run ps (\<lambda>h. [])"
  obtain m' where m': "queue_run (TAILQ_ops K) (map Q_Init hs @ ps) m = Some m'" "queues tailq (TAILQ_ops K) E hs m' ?A"
    using tailq.queue_session [OF assms] by blast
  have c: "\<And>x s. collect x (s, m') = Some (s @ [x], m')" by (simp add: collect_def)
  note W = foreach_walks [where body = collect and f = "\<lambda>x s. s @ [x]" and m = m', OF _ c]
  have "TAILQ_FOREACH_REVERSE collect h ([], m') = Some (rev (?A h), m') \<and>
       TAILQ_FOREACH_REVERSE_SAFE collect h ([], m') = Some (rev (?A h), m') \<and>
       TAILQ_LAST h m' = Some (if ?A h = [] then Null else Obj (last (?A h)))" if "h \<in> set hs" for h
  proof -
    have t: "tailq m' h (?A h @ [])" using m'(2) that by (simp add: queues_def)
    show ?thesis
      using W [OF tailq_back_walks [OF t], of "[]"] tailq_last_links [of m' h "?A h"] t
      by (simp add: TAILQ_FOREACH_REVERSE_def TAILQ_FOREACH_REVERSE_SAFE_def fold_collect)
  qed
  moreover have "TAILQ_PREV x m' = Some (if as = [] then Null else Obj (last as)) \<and>
          TAILQ_FOREACH_REVERSE_FROM collect (Obj x) h ([], m') = Some (x # rev as, m') \<and>
          TAILQ_FOREACH_REVERSE_FROM_SAFE collect (Obj x) h ([], m') = Some (x # rev as, m')"
    if "h \<in> set hs" "?A h = as @ x # bs" for h as x bs
  proof -
    have t: "tailq m' h (as @ x # bs)" using m'(2) that by (auto simp: queues_def)
    then have "tailq m' h ((as @ [x]) @ bs)" by simp
    from W [OF tailq_back_walks [OF this], of "[]"] show ?thesis
      using tailq_prev_links [OF t]
      by (simp add: TAILQ_FOREACH_REVERSE_FROM_def TAILQ_FOREACH_REVERSE_FROM_SAFE_def fold_collect
          del: foreach_simps foreach_safe_simps fold.simps)
  qed
  moreover have "TAILQ_FOREACH collect h ([], m') = Some (?A h, m')" if "h \<in> set hs" for h
    using tailq.queues_visible [OF m'(2) that] by simp
  ultimately show ?thesis using m'(1) unfolding Let_def by blast
qed

theorem tailq_backwards_witness:
  "\<exists>m'. queue_run (TAILQ_ops demo_config) (map Q_Init [0, 1] @ demo_queue_ops) demo_queue_memory = Some m' \<and>
     TAILQ_LAST 0 m' = Some (Obj 4) \<and> TAILQ_PREV 4 m' = Some (Obj 2) \<and> TAILQ_LAST 1 m' = Some Null \<and>
     TAILQ_FOREACH_REVERSE collect 0 ([], m') = Some ([4, 2], m')"
  using tailq_backwards [of demo_config "{2, 3, 4}" "[0, 1]" demo_queue_memory demo_queue_ops]
    demo_storage [of "TAILQ_ops demo_config"] demo_permitted [of "TAILQ_ops demo_config"]
  by (auto simp: demo_lists Let_def Cons_eq_append_conv)

text \<open>The predecessor in a list, and the last entry of a singly linked tail queue.\<close>

lemma list_prev_links:
  assumes "dchain m h (as @ x # bs)"
  shows "LIST_PREV x h m = Some (if as = [] then Null else Obj (last as))"
proof (cases as rule: rev_cases)
  case Nil
  then show ?thesis using assms by (simp add: LIST_PREV_def dchain_def)
next
  case (snoc cs y)
  have "y \<noteq> h" using dchain_distinct [OF assms] snoc by auto
  then show ?thesis using dchain_links(3) [OF assms] snoc by (simp add: LIST_PREV_def)
qed

lemma stailq_last_links:
  assumes "stailq m h xs"
  shows "STAILQ_LAST h m = Some (if xs = [] then Null else Obj (last xs))"
  using assms fchain_first [of m h xs] by (auto simp: stailq_def STAILQ_LAST_def STAILQ_EMPTY_def)

subsection \<open>Misuse\<close>

lemma walk_to_absent: "seg m a xs Null \<Longrightarrow> x \<notin> set xs \<Longrightarrow> walk_to (Obj a) x m = None"
proof (induction xs arbitrary: a)
  case Nil
  then show ?case by (subst walk_to.simps, simp) (subst walk_to.simps, simp)
next
  case (Cons b xs)
  then show ?case by (subst walk_to.simps) auto
qed

lemma fchain_walk_absent:
  "fchain m h xs \<Longrightarrow> x \<notin> set xs \<Longrightarrow> walk_to (if xs = [] then Null else Obj (hd xs)) x m = None"
  using walk_to_absent [of m "hd xs" "tl xs" x] by (cases xs) (subst walk_to.simps, auto simp: fchain_def)

text \<open>Removal of an entry that is not there. After any run, \<open>SLIST_REMOVE\<close> and \<open>STAILQ_REMOVE\<close> of an object
  that is not in the list of the head run to its end and follow the null pointer.\<close>

theorem remove_absent_undefined:
  assumes "Q \<in> {SLIST_ops K, STAILQ_ops K}" and "storage Q E hs m" and "permitted_run Q E hs (\<lambda>h. []) ps"
    and "h \<in> set hs" and "x \<notin> set (list_run ps (\<lambda>h. []) h)"
  shows "\<exists>m'. queue_run Q (map Q_Init hs @ ps) m = Some m' \<and> q_remove Q h x m' = None"
proof -
  let ?xs = "list_run ps (\<lambda>h. []) h"
  from assms(1) consider "Q = SLIST_ops K" | "Q = STAILQ_ops K" by blast
  then show ?thesis
  proof cases
    case 1
    then obtain m' where m': "queue_run Q (map Q_Init hs @ ps) m = Some m'" "fchain m' h ?xs"
      using slist.queue_session [of K E hs m ps] assms(2-4) by (auto simp: queues_def)
    then have "q_remove Q h x m' = None"
      using fchain_walk_absent [OF m'(2) assms(5)] fchain_first [OF m'(2)] assms(5) 1
      by (cases ?xs) (auto simp: SLIST_REMOVE_def SLIST_FIRST_def)
    then show ?thesis using m'(1) by blast
  next
    case 2
    then obtain m' where m': "queue_run Q (map Q_Init hs @ ps) m = Some m'" "fchain m' h ?xs"
      using stailq.queue_session [of K E hs m ps] assms(2-4) by (auto simp: queues_def stailq_def)
    then have "q_remove Q h x m' = None"
      using fchain_walk_absent [OF m'(2) assms(5)] fchain_first [OF m'(2)] assms(5) 2
      by (cases ?xs) (auto simp: STAILQ_REMOVE_def STAILQ_FIRST_def)
    then show ?thesis using m'(1) by blast
  qed
qed

theorem remove_absent_undefined_witness:
  "\<exists>m'. queue_run (STAILQ_ops demo_config) (map Q_Init [0, 1] @ demo_queue_ops) demo_queue_memory = Some m' \<and>
     STAILQ_REMOVE demo_config 0 3 m' = None"
  using remove_absent_undefined [of "STAILQ_ops demo_config" demo_config "{2, 3, 4}" "[0, 1]" demo_queue_memory demo_queue_ops 0 3]
    demo_storage [of "STAILQ_ops demo_config"] demo_permitted [of "STAILQ_ops demo_config"]
  by (auto simp: demo_lists)

end
