(* ===== verification/Address_Lookup.thy ===== *)
theory Address_Lookup
  imports Peer_Address
begin

text \<open>
  The experiment \<open>server/aesdsocket_exp.c\<close>: look up the addresses of a host and print them. The results of
  \<open>getaddrinfo\<close> and whether \<open>fopen\<close> succeeds are arguments; an address is given by its bytes.
\<close>

record addrinfo =
  ai_family :: "16 word"
  ai_addr :: "byte list"

datatype lookup_line =
    Starting
  | Size_Of_Hints
  | Address_Error int
  | IPv4_Line "byte list"
  | IPv6_Line
  | Iteration nat

text \<open>The string at a place in memory, up to its terminator.\<close>

fun c_string :: "byte list \<Rightarrow> byte list option" where
  "c_string [] = None"
| "c_string (b # bs) = (if b = 0 then Some [] else map_option ((#) b) (c_string bs))"

text \<open>The loop over the results, and the main function with its exit status, its output and the contents of
  \<open>myfile.txt\<close>. A null stream or an empty list of results is followed without a test.\<close>

fun print_infos :: "nat \<Rightarrow> addrinfo list \<Rightarrow> lookup_line list" where
  "print_infos x [] = []"
| "print_infos x (p # ps) =
     (if ai_family p = AF_INET then IPv4_Line (inet_ntop4 (ai_addr p)) else IPv6_Line) #
     Iteration (x + 1) # print_infos (x + 1) ps"

definition lookup_main :: "int \<Rightarrow> bool \<Rightarrow> addrinfo list \<Rightarrow> (int \<times> lookup_line list \<times> byte list) option" where
  "lookup_main status opened results =
     (if status \<noteq> 0 then Some (1, [Starting, Size_Of_Hints, Address_Error status], [])
      else if \<not> opened then None
      else case results of
        [] \<Rightarrow> None
      | result # _ \<Rightarrow>
          do { sa_data \<leftarrow> c_string (drop 2 (ai_addr result));
               Some (0, [Starting, Size_Of_Hints] @ print_infos 0 results,
                     ascii ''result address = '' @ sa_data @ ascii '' '') })"

lemma c_string_ok: "0 \<in> set bs \<Longrightarrow> c_string bs = Some (takeWhile (\<lambda>b. b \<noteq> 0) bs)"
  by (induction bs) auto

lemma sockaddr_has_zero: "0 \<in> set (drop 2 (sockaddr_bytes a))"
  by (simp add: sockaddr_bytes_def addr_bytes_def)

text \<open>What the loop prints if every address of the family \<open>AF_INET\<close> has the port 9000.\<close>

lemma print_infos_port:
  assumes "\<And>p. p \<in> set ps \<Longrightarrow> ai_family p = AF_INET \<Longrightarrow>
    \<exists>a. ai_addr p = sockaddr_bytes a \<and> sin_family a = AF_INET \<and> sin_port a = 9000"
  shows "print_infos x ps =
    concat (map (\<lambda>i. [if ai_family (ps ! i) = AF_INET then IPv4_Line (ascii ''2.0.35.40'') else IPv6_Line, Iteration (x + i + 1)])
      [0..<length ps])"
  using assms
proof (induction ps arbitrary: x)
  case (Cons p ps)
  have "ai_family p = AF_INET \<Longrightarrow> inet_ntop4 (ai_addr p) = ascii ''2.0.35.40''"
  proof -
    assume "ai_family p = AF_INET"
    then obtain a where a: "ai_addr p = sockaddr_bytes a" "sin_family a = AF_INET" "sin_port a = 9000"
      using Cons.prems by force
    have "dec 2 = [50]" "dec 0 = [48]" "dec 35 = [51, 53]" "dec 40 = [52, 48]" by (simp_all add: dec.simps)
    then show ?thesis unfolding a(1) inet_ntop_sockaddr [OF a(2)] a(3) by (simp add: ascii_def)
  qed
  moreover have "print_infos (x + 1) ps =
    concat (map (\<lambda>i. [if ai_family (ps ! i) = AF_INET then IPv4_Line (ascii ''2.0.35.40'') else IPv6_Line, Iteration (x + 1 + i + 1)])
      [0..<length ps])"
    using Cons.prems by (intro Cons.IH) simp
  ultimately show ?case by (simp add: upt_conv_Cons map_Suc_upt [symmetric] comp_def del: upt_Suc)
qed simp

text \<open>The address lookup prints no address. If the lookup succeeds, with the port 9000 that was asked for, and
  the file can be opened, the program exits with 0 after one line for each result, in order, and its
  count: for every IPv4 result that line is the same text \<open>2.0.35.40\<close>, family and port instead of the
  address. If the lookup fails it exits with 1.\<close>

theorem lookup_prints_no_address:
  assumes "\<And>p. p \<in> set results \<Longrightarrow> ai_family p = AF_INET \<Longrightarrow>
      \<exists>a. ai_addr p = sockaddr_bytes a \<and> sin_family a = AF_INET \<and> sin_port a = 9000"
    and "results \<noteq> []" and "ai_family (hd results) = AF_INET \<or> 0 \<in> set (drop 2 (ai_addr (hd results)))"
  shows "(\<exists>written. lookup_main 0 True results =
      Some (0, [Starting, Size_Of_Hints] @
        concat (map (\<lambda>i. [if ai_family (results ! i) = AF_INET then IPv4_Line (ascii ''2.0.35.40'') else IPv6_Line, Iteration (i + 1)])
          [0..<length results]), written)) \<and>
    (status \<noteq> 0 \<longrightarrow> lookup_main status opened results = Some (1, [Starting, Size_Of_Hints, Address_Error status], [])) \<and>
    lookup_main 0 False results = None"
proof -
  obtain r rs where r: "results = r # rs" using assms(2) by (cases results) auto
  have "0 \<in> set (drop 2 (ai_addr r))" using assms(1) [of r] assms(3) r sockaddr_has_zero by auto
  then show ?thesis
    using print_infos_port [of results 0, OF assms(1)] r
    by (simp add: lookup_main_def c_string_ok del: print_infos.simps upt_Suc)
qed

text \<open>An example: one result of each family.\<close>

definition demo_address :: sockaddr_in where
  "demo_address = \<lparr>sin_family = AF_INET, sin_port = 9000, sin_addr = 0x5DB8D822\<rparr>"

definition demo_results :: "addrinfo list" where
  "demo_results = [\<lparr>ai_family = AF_INET, ai_addr = sockaddr_bytes demo_address\<rparr>, \<lparr>ai_family = 10, ai_addr = replicate 28 0\<rparr>]"

lemma demo_results_ok:
  "p \<in> set demo_results \<Longrightarrow> ai_family p = AF_INET \<Longrightarrow>
     \<exists>a. ai_addr p = sockaddr_bytes a \<and> sin_family a = AF_INET \<and> sin_port a = 9000"
  "demo_results \<noteq> []" "ai_family (hd demo_results) = AF_INET \<or> 0 \<in> set (drop 2 (ai_addr (hd demo_results)))"
  by (auto simp: demo_results_def intro!: exI [of _ demo_address]) (auto simp: demo_address_def)

lemma demo_results_sel:
  "[0..<length demo_results] = [0, 1]" "ai_family (demo_results ! 0) = AF_INET" "ai_family (demo_results ! 1) = 10"
  by (simp_all add: demo_results_def upt_rec)

theorem lookup_prints_no_address_witness:
  "\<exists>written. lookup_main 0 True demo_results =
     Some (0, [Starting, Size_Of_Hints, IPv4_Line (ascii ''2.0.35.40''), Iteration 1, IPv6_Line, Iteration 2], written)"
  using conjunct1 [OF lookup_prints_no_address [OF demo_results_ok]] unfolding demo_results_sel
  by (simp add: demo_results_sel [simplified]) (simp add: numeral_2_eq_2)

end
