(* ===== verification/Spec2Isabelle.thy ===== *)
theory Spec2Isabelle
  imports Driver_Types List_Properties Signal_Properties Joiner_Properties Peer_Properties File_Server
    Process_Properties System_Properties Exercises Queue_Properties Address_Lookup
begin

text \<open>
  A verification library for the programs of this repository: the character driver \<open>aesdchar\<close>, the
  socket server \<open>aesdsocket\<close> that stores its messages in the device of the driver, and the exercises on
  system calls around them.

  \<^bold>\<open>The programs and how they interact.\<close> The driver (\<open>aesd-char-driver\<close>) keeps the newest ten lines
  written to \<open>/dev/aesdchar\<close> in a circular buffer of kernel memory and serves \<open>read\<close>, \<open>write\<close>, \<open>llseek\<close> and
  a seek request by \<open>ioctl\<close>. The server (\<open>server\<close>) starts one thread for each connection; a thread
  records the address of its peer, receives a message, appends it to the string \<open>to_write\<close>, sends that string back and writes it to the
  device, or it answers a seek command with the content of the device. Finished threads enter a list
  from which a joining thread removes them; a signal ends the process. In the build without the
  driver a timer thread adds time stamps. \<open>server/queue.h\<close> has the BSD macros for linked structures.
  \<open>examples/systemcalls\<close> runs commands with \<open>system\<close>, \<open>fork\<close> and
  \<open>execv\<close>.

  \<^bold>\<open>Conventions.\<close> A C function with side effects is a function into an option type: \<open>None\<close> is
  undefined behaviour or a loop that does not return; \<open>Some\<close> carries the return value and the new
  state. Memory is a map from addresses to blocks of cells, an uninitialised byte is a cell without a
  value, and every access checks the block, the range and the initialisation (C_Memory). Machine
  integers are words of their width. Members and functions keep the names of the source. What is not
  in the repository is an argument of the definitions: the allocators, \<open>copy_to_user\<close> and
  \<open>copy_from_user\<close>, the interruption of the driver's mutex, \<open>fixed_size_llseek\<close>, the results of the
  socket calls, of \<open>fork\<close>, \<open>execv\<close>, \<open>waitpid\<close> and \<open>system\<close>. The assumptions on them are named:
  \<open>kernel_ok\<close>, \<open>allocator_ok\<close> (a returned block was free), \<open>allocator_serves\<close> and \<open>malloc_total\<close> (memory
  does not run out), \<open>sends_all\<close> (\<open>send\<close> is complete).

  \<^bold>\<open>The driver.\<close>
  \<^item> Circular_Buffer: \<open>aesd-circular-buffer.c\<close> and \<open>.h\<close>: the struct, \<open>add_entry\<close>, \<open>init\<close>, the search for a
    position, the \<open>FOREACH\<close> macro. The locale of bounded queues is interpreted on it.
  \<^item> Line_Log: the abstract specification, a log of the newest ten lines and a pending rest.
  \<^item> Char_Driver: \<open>main.c\<close>: \<open>aesd_open\<close>, \<open>aesd_release\<close>, \<open>aesd_read\<close>, \<open>aesd_write\<close> with its loop over the lines,
    \<open>aesd_lseek\<close>, \<open>aesd_ioctl\<close>, loading and unloading.
  \<^item> Driver_Correct, Driver_Access, Driver_Module: the invariant \<open>dev_inv\<close> (the buffer represents lines,
    each in a block of its own, and nothing else is owned) and what each operation does to the log, on
    every branch, error returns included.
  \<^item> Driver_System: any number of open files and any sequence of calls as a step relation, with a
    simulation by the step relation of the log, and progress.
  \<^item> Device_File: the device as a process sees it, with the contract \<open>device_file\<close> as a locale; the driver
    is shown to provide it. The loop that reads to the end of the device is a partial function, and
    proved to end.
  \<^item> Driver_Properties, Driver_Types: the properties of the driver.

  \<^bold>\<open>The server.\<close>
  \<^item> Linked_List: all functions of \<open>linkedlist.c\<close>, with loops as partial functions over a heap of nodes,
    related to lists of entries by \<open>list_repr\<close>; the locale \<open>thread_registry\<close> is interpreted on the variants
    with and without the mutex. List_Properties: their properties.
  \<^item> Peer_Address: socket addresses as bytes and \<open>inet_ntop\<close>. Address_Lookup: \<open>aesdsocket_exp.c\<close>.
  \<^item> Seek_Request: how \<open>socket_core.c\<close> recognises the seek command and how \<open>sscanf\<close> reads its numbers.
  \<^item> Socket_Core: \<open>socket_core.c\<close>: the connection handler with its receive loop, the two ways to answer,
    the report to the list, one round of the joining thread, the set-up of the listening thread.
    Socket_Correct: strings in blocks, the handler for whatever arrives in one read and for seek commands,
    several connections, and the states in which the buffers are too small. Handler_Frame: what a handler
    leaves alone. Socket_Threads: joiner and set-up.
  \<^item> Server_Process: \<open>signal_handler.c\<close>, \<open>socket_listen\<close> with its socket calls, whose failures but one are only
    printed, and its loop over \<open>poll\<close> and \<open>accept\<close>, and \<open>main\<close>.
  \<^item> Timer_Thread: \<open>get_time\<close> with the text of the time stamp, and \<open>printing_time\<close> after its wait.
  \<^item> File_Server: the build without the driver, with a regular file (\<open>file_device\<close>) behind the same handlers
    and visits of clients between rounds of the timer; \<open>visited\<close> says what a visit leaves.
  \<^item> Interleaving: the handlers as threads, for messages and for seek commands. The atomic steps are the
    receive phase, the critical section of \<open>reply_mutex\<close>, those of \<open>file_mutex\<close> (the write to the device,
    or the seek and its reads) and the report; a scheduler picks any thread. The invariant \<open>world_inv\<close> says
    who owns which block, in which order the replies were sent, and that the device is in the state of the
    device operations in one order (\<open>dev_order\<close>); each kind of step has a lemma that it exists and keeps the
    invariant.
  \<^item> Joiner_Thread: the joining thread, one step for each statement, among handlers that register and signal.
    With uninterrupted rounds (\<open>coarse\<close>) it keeps \<open>joiner_inv\<close>; in general (\<open>fine\<close>) it does not.
  \<^item> Server_Properties, Server_Runs, Peer_Properties, Interleaving_Properties, Signal_Properties,
    Joiner_Properties, Process_Properties: the properties. A signal is shown to be safe between any two
    steps of the handlers, and undefined before the set-up and inside the step that moves the string.

  \<^bold>\<open>The queue macros.\<close> Queue_Memory: pointers, members and chains. Queue_Interface: the operations that the
  four structures share, list operations as their specification, and the locale \<open>linked_queue\<close>: a law for
  each operation says what it does to the list of its head, which objects it touches, and that it ends;
  from the laws follow the behaviour of whole runs on any number of heads, of the loops, and of a loop
  that frees the entries. Static heads are initialised ones; the loop of \<open>SLIST\<close> with the address of the
  pointer visits the same entries, and removes without a search. Queue_Single: \<open>SLIST\<close> and \<open>STAILQ\<close>, Queue_Double: \<open>LIST\<close> and \<open>TAILQ\<close>, with an
  interpretation of the locale for each, for every setting of \<open>INVARIANTS\<close> and \<open>QUEUE_MACRO_DEBUG\<close>.
  Queue_Properties: the properties.

  \<^bold>\<open>The exercises.\<close> System_Calls: \<open>systemcalls.c\<close>; \<open>do_exec_redirect\<close> is two state machines, for the parent
  and the child, under an arbitrary schedule. System_Properties: their properties. Exercises:
  \<open>writer.c\<close>, \<open>file_redirect.c\<close>, the function stubs and their test drivers.

  \<^bold>\<open>Bounds.\<close> There is no fuel: loops are structural recursion, recursion with a measure, or partial
  functions whose termination is proved where a property needs it. A message is short if it arrives
  in one read of less than 1024 bytes without a zero byte; the properties of whole runs assume that all messages together
  stay below 1024 bytes, because beyond that the program overflows its string, as one of the
  properties shows. Longer messages are shown to be undefined. Counts of \<open>read\<close> and \<open>write\<close> are at most
  \<open>MAX_RW_COUNT\<close>, the limit of the virtual file system; one property shows that the driver depends on it.

  \<^bold>\<open>Not modelled.\<close> Log and error messages, except those about peers and about the start of the server, and
  the arguments of the socket calls. Preemption inside a critical section: the mutexes exclude it for the
  data that they protect; the accesses that no common mutex protects, that of the device write to
  \<open>to_write\<close> and those of the joining thread to the list, are the subject of properties of their own.
  Signals inside a step of a handler, except the one between \<open>realloc\<close> and the store of its result. The
  wait of the timer thread, whose call is undefined in itself. Of \<open>queue.h\<close>, the C++ variants and the trace
  buffers.
\<close>

end
